(* ===== verification/BW_Prelude.thy ===== *)
theory BW_Prelude
  imports "HOL-Library.Word" "HOL-Library.Sublist"
begin

text \<open>
  Vocabulary shared by the component theories.

  \<^item> Machine integers are words at the source's width; a slice or a \<^verbatim>\<open>Vec<u8>\<close> is a
    list of bytes.  A Rust \<^verbatim>\<open>String\<close> is the list of its UTF-8 bytes, written as a HOL
    string (a HOL character is exactly one byte); \<open>from_utf8\<close> accepts what
    \<^verbatim>\<open>core::str::from_utf8\<close> accepts.
  \<^item> A fallible computation returns \<open>'a res\<close>: \<open>Ok\<close>, one of the errors of
    \<^verbatim>\<open>ProxyError\<close> (crates/blackwire-common/src/error.rs), or \<open>Panic\<close> where the Rust
    code aborts the task (an index or a slice out of range).  The operator \<^verbatim>\<open>?\<close> is \<open>and_then\<close>.
  \<^item> An asynchronous byte stream is the list of bytes it still delivers before end of file;
    \<open>read_exact\<close> and its variants are the \<^verbatim>\<open>AsyncReadExt\<close> methods the codecs call.
  \<^item> Big-endian integers are written by \<open>to_be\<close> and read by \<open>from_be\<close>.

  The locale \<open>wire_codec\<close> is the contract between an address codec and the datagram formats
  built on it; the component theories interpret it.
\<close>

unbundle bit_operations_syntax

section \<open>Types\<close>

type_synonym u8 = "8 word"
type_synonym u16 = "16 word"
type_synonym u32 = "32 word"
type_synonym u64 = "64 word"
type_synonym u128 = "128 word"
type_synonym bytes = "u8 list"

named_theorems wire_simps \<open>evaluation rules for readers, slices and byte conversions\<close>
named_theorems codec_simps \<open>round-trip rules of the wire codecs\<close>

datatype io_kind =
    UnexpectedEof | ConnectionReset | ConnectionAborted | BrokenPipe
  | InvalidData | InvalidInput | OtherKind string

datatype proxy_error =
    AuthFailed
  | Protocol string
  | Transport string
  | Tls string
  | Timeout
  | UnsupportedNetwork
  | DnsResolutionFailed string
  | RoutingFailed
  | FallbackRequired
  | Io io_kind

fun is_benign :: "proxy_error \<Rightarrow> bool" where
  "is_benign Timeout = True"
| "is_benign FallbackRequired = True"
| "is_benign (Io k) = (k = ConnectionReset \<or> k = ConnectionAborted \<or> k = BrokenPipe \<or> k = UnexpectedEof)"
| "is_benign _ = False"

datatype 'a res = Ok (the_Ok: 'a) | Err proxy_error | Panic

fun and_then :: "'a res \<Rightarrow> ('a \<Rightarrow> 'b res) \<Rightarrow> 'b res" where
  "and_then (Ok x) f = f x"
| "and_then (Err e) f = Err e"
| "and_then Panic f = Panic"

fun is_ok :: "'a res \<Rightarrow> bool" where
  "is_ok (Ok _) = True"
| "is_ok _ = False"

fun map_err :: "'a res \<Rightarrow> (proxy_error \<Rightarrow> proxy_error) \<Rightarrow> 'a res" where
  "map_err (Err e) f = Err (f e)"
| "map_err r f = r"

text \<open>A computation that may also fail to terminate is an \<open>'a res option\<close>, \<open>None\<close> meaning that
  it runs forever.\<close>

fun div_then :: "'a res option \<Rightarrow> ('a \<Rightarrow> 'b res option) \<Rightarrow> 'b res option" where
  "div_then None f = None"
| "div_then (Some (Ok x)) f = f x"
| "div_then (Some (Err e)) f = Some (Err e)"
| "div_then (Some Panic) f = Some Panic"

definition ok_or :: "'a option \<Rightarrow> proxy_error \<Rightarrow> 'a res" where
  "ok_or x e = (case x of Some v \<Rightarrow> Ok v | None \<Rightarrow> Err e)"

section \<open>Slices\<close>

definition idx :: "'a list \<Rightarrow> nat \<Rightarrow> 'a res" where
  "idx xs i = (if i < length xs then Ok (xs ! i) else Panic)"

definition slice :: "'a list \<Rightarrow> nat \<Rightarrow> nat \<Rightarrow> 'a list res" where
  "slice xs a b = (if a \<le> b \<and> b \<le> length xs then Ok (take (b - a) (drop a xs)) else Panic)"

definition slice_get :: "'a list \<Rightarrow> nat \<Rightarrow> nat \<Rightarrow> 'a list option" where
  "slice_get xs a b = (if a \<le> b \<and> b \<le> length xs then Some (take (b - a) (drop a xs)) else None)"

section \<open>Bytes, big-endian integers and text\<close>

fun to_be :: "nat \<Rightarrow> 'a::len word \<Rightarrow> bytes" where
  "to_be 0 w = []"
| "to_be (Suc n) w = to_be n (drop_bit 8 w) @ [ucast w]"

definition from_be :: "bytes \<Rightarrow> 'a::len word" where
  "from_be bs = foldl (\<lambda>acc b. push_bit 8 acc OR ucast b) 0 bs"

definition byte_of_char :: "char \<Rightarrow> u8" where
  "byte_of_char c = word_of_nat (of_char c)"

definition char_of_byte :: "u8 \<Rightarrow> char" where
  "char_of_byte b = char_of (unat b)"

definition as_bytes :: "string \<Rightarrow> bytes" where
  "as_bytes s = map byte_of_char s"

definition utf8_cont :: "u8 \<Rightarrow> bool" where
  "utf8_cont b = (0x80 \<le> b \<and> b \<le> 0xBF)"

fun utf8_valid :: "bytes \<Rightarrow> bool" where
  "utf8_valid [] = True"
| "utf8_valid (a # r) =
     (if a < 0x80 then utf8_valid r
      else if 0xC2 \<le> a \<and> a \<le> 0xDF then
        (case r of b # r' \<Rightarrow> utf8_cont b \<and> utf8_valid r' | _ \<Rightarrow> False)
      else if 0xE0 \<le> a \<and> a \<le> 0xEF then
        (case r of b # c # r' \<Rightarrow>
            (if a = 0xE0 then 0xA0 \<le> b \<and> b \<le> 0xBF
             else if a = 0xED then 0x80 \<le> b \<and> b \<le> 0x9F
             else utf8_cont b) \<and> utf8_cont c \<and> utf8_valid r'
          | _ \<Rightarrow> False)
      else if 0xF0 \<le> a \<and> a \<le> 0xF4 then
        (case r of b # c # d # r' \<Rightarrow>
            (if a = 0xF0 then 0x90 \<le> b \<and> b \<le> 0xBF
             else if a = 0xF4 then 0x80 \<le> b \<and> b \<le> 0x8F
             else utf8_cont b) \<and> utf8_cont c \<and> utf8_cont d \<and> utf8_valid r'
          | _ \<Rightarrow> False)
      else False)"

definition from_utf8 :: "bytes \<Rightarrow> string option" where
  "from_utf8 bs = (if utf8_valid bs then Some (map char_of_byte bs) else None)"

definition rust_string :: "string \<Rightarrow> bool" where
  "rust_string s = utf8_valid (as_bytes s)"

definition digit_char :: "nat \<Rightarrow> char" where
  "digit_char d = ''0123456789abcdef'' ! d"

fun fmt_radix :: "nat \<Rightarrow> nat \<Rightarrow> string" where
  "fmt_radix b n = (if b < 2 \<or> n < b then [digit_char (n mod 16)]
                    else fmt_radix b (n div b) @ [digit_char (n mod b)])"

definition fmt_dec :: "nat \<Rightarrow> string" where
  "fmt_dec n = fmt_radix 10 n"

definition fmt_hex :: "'a::len word \<Rightarrow> string" where
  "fmt_hex w = ''0x'' @ fmt_radix 16 (unat w)"

section \<open>Asynchronous readers\<close>

definition read_exact :: "nat \<Rightarrow> bytes \<Rightarrow> (bytes \<times> bytes) res" where
  "read_exact n s = (if n \<le> length s then Ok (take n s, drop n s) else Err (Io UnexpectedEof))"

definition read_u8 :: "bytes \<Rightarrow> (u8 \<times> bytes) res" where
  "read_u8 s = (case s of b # r \<Rightarrow> Ok (b, r) | [] \<Rightarrow> Err (Io UnexpectedEof))"

definition read_u16 :: "bytes \<Rightarrow> (u16 \<times> bytes) res" where
  "read_u16 s = and_then (read_exact 2 s) (\<lambda>(h, r). Ok (from_be h, r))"

definition read_u32 :: "bytes \<Rightarrow> (u32 \<times> bytes) res" where
  "read_u32 s = and_then (read_exact 4 s) (\<lambda>(h, r). Ok (from_be h, r))"

text \<open>
  Code that awaits the network runs on a world state \<open>'w\<close> that the caller chooses; a failed
  operation ends the function, as \<^verbatim>\<open>?\<close> does.
\<close>

type_synonym ('w, 'a) io = "'w \<Rightarrow> 'a res \<times> 'w"

definition io_lift :: "'a res \<Rightarrow> ('w, 'a) io" where
  "io_lift r = (\<lambda>w. (r, w))"

definition io_then :: "('w, 'a) io \<Rightarrow> ('a \<Rightarrow> ('w, 'b) io) \<Rightarrow> ('w, 'b) io" where
  "io_then m f = (\<lambda>w. case m w of
       (Ok x, w') \<Rightarrow> f x w'
     | (Err e, w') \<Rightarrow> (Err e, w')
     | (Panic, w') \<Rightarrow> (Panic, w'))"

datatype read_event = Chunk bytes | ReadFailed string

section \<open>Checked and saturating arithmetic of the standard library\<close>

definition saturating_add :: "'a::len word \<Rightarrow> 'a word \<Rightarrow> 'a word" where
  "saturating_add a b = (if unat a + unat b < 2 ^ LENGTH('a) then a + b else -1)"

definition saturating_sub :: "'a::len word \<Rightarrow> 'a word \<Rightarrow> 'a word" where
  "saturating_sub a b = (if b \<le> a then a - b else 0)"

definition checked_add :: "'a::len word \<Rightarrow> 'a word \<Rightarrow> 'a word option" where
  "checked_add a b = (if unat a + unat b < 2 ^ LENGTH('a) then Some (a + b) else None)"

section \<open>String functions of the standard library\<close>

text \<open>\<^verbatim>\<open>str::trim\<close> on UTF-8 bytes: the encodings of the characters with the White_Space property.\<close>

definition white_space :: "string list" where
  "white_space =
     [[CHR 0x09], [CHR 0x0A], [CHR 0x0B], [CHR 0x0C], [CHR 0x0D], [CHR 0x20], [CHR 0xC2, CHR 0x85],
     [CHR 0xC2, CHR 0xA0], [CHR 0xE1, CHR 0x9A, CHR 0x80], [CHR 0xE2, CHR 0x80, CHR 0x80],
     [CHR 0xE2, CHR 0x80, CHR 0x81], [CHR 0xE2, CHR 0x80, CHR 0x82], [CHR 0xE2, CHR 0x80, CHR 0x83],
     [CHR 0xE2, CHR 0x80, CHR 0x84], [CHR 0xE2, CHR 0x80, CHR 0x85], [CHR 0xE2, CHR 0x80, CHR 0x86],
     [CHR 0xE2, CHR 0x80, CHR 0x87], [CHR 0xE2, CHR 0x80, CHR 0x88], [CHR 0xE2, CHR 0x80, CHR 0x89],
     [CHR 0xE2, CHR 0x80, CHR 0x8A], [CHR 0xE2, CHR 0x80, CHR 0xA8], [CHR 0xE2, CHR 0x80, CHR 0xA9],
     [CHR 0xE2, CHR 0x80, CHR 0xAF], [CHR 0xE2, CHR 0x81, CHR 0x9F], [CHR 0xE3, CHR 0x80, CHR 0x80]]"

function strip_any :: "string list \<Rightarrow> string \<Rightarrow> string" where
  "strip_any ws s =
     (case find (\<lambda>w. w \<noteq> [] \<and> prefix w s) ws of
        None \<Rightarrow> s
      | Some w \<Rightarrow> strip_any ws (drop (length w) s))"
  by pat_completeness auto
termination
  by (relation "measure (\<lambda>(_, s). length s)")
    (auto simp: find_Some_iff prefix_def)

declare strip_any.simps [simp del]

definition trim :: "string \<Rightarrow> string" where
  "trim s = rev (strip_any (map rev white_space) (rev (strip_any white_space s)))"

definition is_ascii_uppercase :: "char \<Rightarrow> bool" where
  "is_ascii_uppercase c = (65 \<le> (of_char c :: nat) \<and> (of_char c :: nat) \<le> 90)"

definition ascii_lower :: "char \<Rightarrow> char" where
  "ascii_lower c = (if is_ascii_uppercase c then char_of ((of_char c :: nat) + 32) else c)"

definition eq_ignore_ascii_case :: "string \<Rightarrow> string \<Rightarrow> bool" where
  "eq_ignore_ascii_case a b = (map ascii_lower a = map ascii_lower b)"

fun find_char :: "char \<Rightarrow> string \<Rightarrow> nat option" where
  "find_char c [] = None"
| "find_char c (x # xs) = (if x = c then Some 0 else map_option Suc (find_char c xs))"

definition split_once :: "char \<Rightarrow> string \<Rightarrow> (string \<times> string) option" where
  "split_once c s = map_option (\<lambda>i. (take i s, drop (Suc i) s)) (find_char c s)"

fun split_on :: "char \<Rightarrow> string \<Rightarrow> string list" where
  "split_on c [] = [[]]"
| "split_on c (x # xs) =
     (if x = c then [] # split_on c xs else (x # hd (split_on c xs)) # tl (split_on c xs))"

definition trim_start_matches :: "char \<Rightarrow> string \<Rightarrow> string" where
  "trim_start_matches c s = dropWhile (\<lambda>x. x = c) s"

definition trim_end_matches :: "char \<Rightarrow> string \<Rightarrow> string" where
  "trim_end_matches c s = rev (dropWhile (\<lambda>x. x = c) (rev s))"

definition strip_prefix :: "string \<Rightarrow> string \<Rightarrow> string option" where
  "strip_prefix p s = (if prefix p s then Some (drop (length p) s) else None)"

function words_from :: "string \<Rightarrow> string \<Rightarrow> string list" where
  "words_from acc s =
     (case find (\<lambda>w. w \<noteq> [] \<and> prefix w s) white_space of
        Some w \<Rightarrow> (if acc = [] then [] else [acc]) @ words_from [] (drop (length w) s)
      | None \<Rightarrow>
          (case s of
             [] \<Rightarrow> if acc = [] then [] else [acc]
           | c # s' \<Rightarrow> words_from (acc @ [c]) s'))"
  by pat_completeness auto
termination
  by (relation "measure (\<lambda>(_, s). length s)") (auto simp: find_Some_iff prefix_def)

declare words_from.simps [simp del]

definition split_whitespace :: "string \<Rightarrow> string list" where
  "split_whitespace s = words_from [] s"

text \<open>The first item of \<^verbatim>\<open>str::lines\<close>.\<close>

definition first_line :: "string \<Rightarrow> string option" where
  "first_line s =
     (if s = [] then None
      else let l = takeWhile (\<lambda>c. c \<noteq> CHR 0x0A) s in
           Some (if l \<noteq> [] \<and> last l = CHR 0x0D \<and> length l < length s then butlast l else l))"

text \<open>\<^verbatim>\<open>str::parse\<close> for unsigned integers: an optional plus sign, then digits, in range.\<close>

definition digit_of :: "char \<Rightarrow> nat option" where
  "digit_of c = (if 48 \<le> (of_char c :: nat) \<and> (of_char c :: nat) \<le> 57 then Some (of_char c - 48) else None)"

fun parse_digits :: "nat \<Rightarrow> string \<Rightarrow> nat option" where
  "parse_digits n [] = Some n"
| "parse_digits n (c # cs) = (case digit_of c of None \<Rightarrow> None | Some d \<Rightarrow> parse_digits (10 * n + d) cs)"

definition parse_u64 :: "string \<Rightarrow> u64 option" where
  "parse_u64 s =
     (let ds = (if prefix ''+'' s then tl s else s) in
      if ds = [] then None
      else case parse_digits 0 ds of
             None \<Rightarrow> None
           | Some n \<Rightarrow> if n < 2 ^ 64 then Some (of_nat n) else None)"

section \<open>Generic lemmas\<close>

declare fmt_radix.simps [simp del]

lemma unat_u8_less [simp]: "unat (b :: u8) < 256"
  using unsigned_less [where w = b and 'a = nat] by simp

lemma unat_u16_less [simp]: "unat (b :: u16) < 65536"
  using unsigned_less [where w = b and 'a = nat] by simp

lemma unat_drop_bit: "unat (drop_bit n w) = unat (w :: 'a::len word) div 2 ^ n"
proof -
  have "unat (drop_bit n w) = drop_bit n (take_bit LENGTH('a) (unat w))"
    by (simp only: unsigned_drop_bit_eq)
  also have "\<dots> = unat w div 2 ^ n"
    by (simp add: drop_bit_eq_div take_bit_nat_eq_self unsigned_less)
  finally show ?thesis .
qed

lemma take_bit_small: "unat v < 2 ^ n \<Longrightarrow> take_bit n v = (v :: 'a::len word)"
  by (simp add: word_unat_eq_iff unsigned_take_bit_eq take_bit_nat_eq_self)

lemma and_then_assoc: "and_then (and_then m f) g = and_then m (\<lambda>x. and_then (f x) g)"
  by (cases m) simp_all

lemma and_then_Ok_iff: "and_then m f = Ok y \<longleftrightarrow> (\<exists>x. m = Ok x \<and> f x = Ok y)"
  by (cases m) simp_all

lemma and_then_Panic_iff: "and_then m f = Panic \<longleftrightarrow> m = Panic \<or> (\<exists>x. m = Ok x \<and> f x = Panic)"
  by (cases m) simp_all

lemma is_ok_iff: "is_ok m \<longleftrightarrow> (\<exists>x. m = Ok x)"
  by (cases m) simp_all

lemma idx_in [simp, wire_simps]: "i < length xs \<Longrightarrow> idx xs i = Ok (xs ! i)"
  by (simp add: idx_def)

lemma idx_Panic_iff [simp]: "idx xs i = Panic \<longleftrightarrow> length xs \<le> i"
  by (simp add: idx_def not_less)

lemma idx_not_Err [simp]: "idx xs i \<noteq> Err e"
  by (simp add: idx_def)

lemma slice_in [simp, wire_simps]:
  "a \<le> b \<Longrightarrow> b \<le> length xs \<Longrightarrow> slice xs a b = Ok (take (b - a) (drop a xs))"
  by (simp add: slice_def)

lemma slice_Panic_iff [simp]: "slice xs a b = Panic \<longleftrightarrow> \<not> (a \<le> b \<and> b \<le> length xs)"
  by (simp add: slice_def)

lemma slice_not_Err [simp]: "slice xs a b \<noteq> Err e"
  by (simp add: slice_def)

lemma length_to_be [simp]: "length (to_be n w) = n"
  by (induction n w rule: to_be.induct) simp_all

lemma from_be_Nil [simp]: "from_be [] = 0"
  by (simp add: from_be_def)

lemma from_be_snoc [simp]: "from_be (bs @ [b]) = push_bit 8 (from_be bs) OR ucast b"
  by (simp add: from_be_def)

lemma from_be_to_be_take: "from_be (to_be n w) = take_bit (8 * n) w"
proof (induction n arbitrary: w)
  case 0
  show ?case by simp
next
  case (Suc n)
  have "push_bit 8 (take_bit (8 * n) (drop_bit 8 w)) OR ucast (ucast w :: u8) = take_bit (8 * Suc n) w"
    by (rule bit_word_eqI)
      (auto simp: bit_simps bit_or_iff not_less le_add_diff_inverse dest: bit_imp_le_length)
  then show ?case by (simp add: Suc)
qed

lemma from_be_to_be [simp, codec_simps]:
  fixes w :: "'a::len word"
  shows "LENGTH('a) \<le> 8 * n \<Longrightarrow> from_be (to_be n w) = w"
  by (simp add: from_be_to_be_take take_bit_word_eq_self)

lemma from_be_single [simp]: "from_be [b] = ucast b"
  using from_be_snoc [of "[]" b] by simp

lemma to_be_from_be [simp]:
  "length bs = n \<Longrightarrow> 8 * n \<le> LENGTH('a::len) \<Longrightarrow> to_be n (from_be bs :: 'a word) = bs"
proof (induction bs arbitrary: n rule: rev_induct)
  case Nil
  then show ?case by simp
next
  case (snoc b bs)
  then obtain m where n: "n = Suc m" "length bs = m" by auto
  let ?w = "from_be bs :: 'a word"
  have ih: "to_be m ?w = bs" using snoc n by simp
  have ht: "take_bit (8 * m) ?w = ?w"
    using from_be_to_be_take [of m ?w] ih by simp
  have hi: "drop_bit 8 (push_bit 8 ?w OR ucast b) = ?w"
  proof (rule bit_word_eqI)
    fix i assume i: "i < LENGTH('a)"
    have "bit ?w i \<longleftrightarrow> i < 8 * m \<and> bit ?w i"
      using arg_cong [OF ht, of "\<lambda>v. bit v i"] by (simp add: bit_take_bit_iff)
    then show "bit (drop_bit 8 (push_bit 8 ?w OR ucast b)) i = bit ?w i"
      using snoc.prems n
      by (auto simp: bit_simps bit_or_iff dest: bit_imp_le_length)
  qed
  have lo: "ucast (push_bit 8 ?w OR ucast b :: 'a word) = b"
    using snoc.prems n
    by (intro bit_word_eqI) (auto simp: bit_simps bit_or_iff)
  show ?case using n ih hi lo by simp
qed

lemma char_of_byte_of_char [simp, codec_simps]: "char_of_byte (byte_of_char c) = c"
  by (simp add: char_of_byte_def byte_of_char_def unat_of_nat of_char_mod_256)

lemma byte_of_char_of_byte [simp, codec_simps]: "byte_of_char (char_of_byte b) = b"
proof -
  have "unat b < 256" by simp
  then show ?thesis by (simp add: char_of_byte_def byte_of_char_def)
qed

lemma length_as_bytes [simp]: "length (as_bytes s) = length s"
  by (simp add: as_bytes_def)

lemma as_bytes_eq_Nil [simp]: "as_bytes s = [] \<longleftrightarrow> s = []"
  by (simp add: as_bytes_def)

lemma map_char_of_as_bytes [simp]: "map char_of_byte (as_bytes s) = s"
  by (simp add: as_bytes_def comp_def)

lemma as_bytes_map_char_of [simp]: "as_bytes (map char_of_byte bs) = bs"
  by (simp add: as_bytes_def comp_def)

lemma as_bytes_inj [simp]: "as_bytes s = as_bytes t \<longleftrightarrow> s = t"
  by (metis map_char_of_as_bytes)

lemma from_utf8_as_bytes [simp, codec_simps]: "rust_string s \<Longrightarrow> from_utf8 (as_bytes s) = Some s"
  by (simp add: from_utf8_def rust_string_def)

lemma from_utf8_Some: "from_utf8 bs = Some s \<longleftrightarrow> rust_string s \<and> bs = as_bytes s"
  by (auto simp: from_utf8_def rust_string_def split: if_splits)

lemma read_exact_append [simp, codec_simps]:
  "length xs = n \<Longrightarrow> read_exact n (xs @ rest) = Ok (xs, rest)"
  by (simp add: read_exact_def)

lemma read_exact_Ok_iff:
  "read_exact n s = Ok (xs, rest) \<longleftrightarrow> s = xs @ rest \<and> length xs = n"
  by (auto simp: read_exact_def append_eq_conv_conj)

lemma read_u8_Cons [simp, codec_simps]: "read_u8 (b # rest) = Ok (b, rest)"
  by (simp add: read_u8_def)

lemma read_u8_Ok_iff: "read_u8 s = Ok (b, rest) \<longleftrightarrow> s = b # rest"
  by (auto simp: read_u8_def split: list.splits)

lemma read_u16_append [simp, codec_simps]: "read_u16 (to_be 2 w @ rest) = Ok (w, rest)"
  by (simp add: read_u16_def)

lemma read_u32_append [simp, codec_simps]: "read_u32 (to_be 4 w @ rest) = Ok (w, rest)"
  by (simp add: read_u32_def)

lemma readers_not_Panic [simp]:
  "read_exact n s \<noteq> Panic" "read_u8 s \<noteq> Panic" "read_u16 s \<noteq> Panic" "read_u32 s \<noteq> Panic"
  by (auto simp: read_exact_def read_u8_def read_u16_def read_u32_def and_then_Panic_iff
      split: list.splits)

lemma ok_or_not_Panic [simp]: "ok_or x e \<noteq> Panic"
  by (simp add: ok_or_def split: option.splits)

lemma ok_or_simps [simp]: "ok_or (Some v) e = Ok v" "ok_or None e = Err e"
  by (simp_all add: ok_or_def)

lemma ok_or_Ok_iff: "ok_or x e = Ok v \<longleftrightarrow> x = Some v"
  by (simp add: ok_or_def split: option.splits)

lemma unat_ucast_u8 [simp]: "n < 256 \<Longrightarrow> unat (word_of_nat n :: u8) = n"
  by (simp add: unat_of_nat)

lemma unat_of_nat_u16 [simp]: "n < 65536 \<Longrightarrow> unat (word_of_nat n :: u16) = n"
  by (simp add: unat_of_nat)

section \<open>The contract of a wire codec\<close>

text \<open>
  An encoder that may refuse a value and a decoder that reports how many bytes it consumed.
  Whatever the encoder emits, the decoder reads back from any longer buffer, consuming exactly
  the encoding.
\<close>

locale wire_codec =
  fixes enc :: "'a \<Rightarrow> bytes res"
    and dec :: "bytes \<Rightarrow> ('a \<times> nat) res"
    and valid :: "'a \<Rightarrow> bool"
  assumes dec_enc: "valid a \<Longrightarrow> enc a = Ok bs \<Longrightarrow> dec (bs @ rest) = Ok (a, length bs)"
    and dec_bound: "dec buf = Ok (a, n) \<Longrightarrow> n \<le> length buf"
begin

lemma enc_prefix_free:
  assumes "valid a" "valid b" "enc a = Ok xs" "enc b = Ok ys" "xs @ r = ys @ s"
  shows "a = b \<and> xs = ys \<and> r = s"
proof -
  have a: "dec (xs @ r) = Ok (a, length xs)" using dec_enc [OF assms(1,3)] .
  have b: "dec (xs @ r) = Ok (b, length ys)" unfolding assms(5) using dec_enc [OF assms(2,4)] .
  have "a = b" and "length xs = length ys" using a b by simp_all
  then show ?thesis using assms(5) by (simp only: append_eq_append_conv) simp
qed

lemma enc_inj: "valid a \<Longrightarrow> valid b \<Longrightarrow> enc a = Ok xs \<Longrightarrow> enc b = Ok xs \<Longrightarrow> a = b"
  using enc_prefix_free [of a b xs xs "[]" "[]"] by simp

lemma dec_enc_exact: "valid a \<Longrightarrow> enc a = Ok bs \<Longrightarrow> dec bs = Ok (a, length bs)"
  using dec_enc [of a bs "[]"] by simp

end

end
