(* ===== verification/User_Limits.thy ===== *)
theory User_Limits
  imports BW_Prelude
begin

text \<open>
  The per-user admission limiter (crates/blackwire-app/src/user_limits.rs).

  The counters of the source are shared objects: a permit keeps a pointer to the counter it
  incremented, the table keeps another one, and \<^verbatim>\<open>Drop\<close> compares the two pointers.  The model
  therefore has a store of counters addressed by number.  \<open>try_acquire\<close> and \<open>drop_permit\<close> are the
  compositions of the atomic operations the source performs (table lookup, \<^verbatim>\<open>fetch_add\<close>,
  \<^verbatim>\<open>fetch_sub\<close>, \<^verbatim>\<open>remove_if\<close>), so that the same pieces give the sequential behaviour and, in
  \<open>limiter_step\<close>, every interleaving of concurrent callers.

  Sequential callers see an exact limiter.  Under interleaving every counter object keeps its
  cap, but the table may forget a counter that a caller has already looked up, so a user can hold
  more permits than the cap.
\<close>

section \<open>State\<close>

record limiter =
  max_connections_per_user :: u64
  counters :: "string \<rightharpoonup> nat"
  active :: "nat \<Rightarrow> u64"
  next_counter :: nat

record permit =
  permit_user :: string
  permit_counter :: "nat option"

definition usize_MAX :: u64 where "usize_MAX = -1"

definition limiter_new :: "u64 \<Rightarrow> limiter" where
  "limiter_new m = \<lparr> max_connections_per_user = max m 1, counters = Map.empty,
                     active = (\<lambda>_. 0), next_counter = 0 \<rparr>"

definition set_max_connections_per_user :: "u64 \<Rightarrow> limiter \<Rightarrow> limiter" where
  "set_max_connections_per_user m l = l\<lparr> max_connections_per_user := max m 1 \<rparr>"

section \<open>The atomic operations\<close>

definition counter_entry :: "string \<Rightarrow> limiter \<Rightarrow> nat \<times> limiter" where
  "counter_entry user l =
     (case counters l user of
        Some c \<Rightarrow> (c, l)
      | None \<Rightarrow> (next_counter l,
                  l\<lparr> counters := (counters l)(user \<mapsto> next_counter l),
                     active := (active l)(next_counter l := 0),
                     next_counter := Suc (next_counter l) \<rparr>))"

definition fetch_add :: "nat \<Rightarrow> limiter \<Rightarrow> u64 \<times> limiter" where
  "fetch_add c l = (active l c, l\<lparr> active := (active l)(c := active l c + 1) \<rparr>)"

definition fetch_sub :: "nat \<Rightarrow> limiter \<Rightarrow> u64 \<times> limiter" where
  "fetch_sub c l = (active l c, l\<lparr> active := (active l)(c := active l c - 1) \<rparr>)"

definition remove_if_idle :: "string \<Rightarrow> nat \<Rightarrow> limiter \<Rightarrow> limiter" where
  "remove_if_idle user c l =
     (if counters l user = Some c \<and> active l c = 0
      then l\<lparr> counters := (counters l)(user := None) \<rparr> else l)"

section \<open>The operations\<close>

definition try_acquire :: "string option \<Rightarrow> limiter \<Rightarrow> permit option \<times> limiter" where
  "try_acquire user l =
     (case user of
        None \<Rightarrow> (None, l)
      | Some u \<Rightarrow>
          let m = max_connections_per_user l in
          if m = usize_MAX then (Some \<lparr> permit_user = u, permit_counter = None \<rparr>, l)
          else
            let (c, l) = counter_entry u l;
                (previous, l) = fetch_add c l;
                now_active = previous + 1 in
            if now_active > m then (None, snd (fetch_sub c l))
            else (Some \<lparr> permit_user = u, permit_counter = Some c \<rparr>, l))"

definition drop_permit :: "permit \<Rightarrow> limiter \<Rightarrow> limiter" where
  "drop_permit p l =
     (case permit_counter p of
        None \<Rightarrow> l
      | Some c \<Rightarrow>
          let (previous, l) = fetch_sub c l in
          if previous \<le> 1 then remove_if_idle (permit_user p) c l else l)"

text \<open>A sequential client: the limiter together with the permits handed out and not yet dropped.\<close>

datatype limiter_op = Acquire "string option" | DropAt nat | SetMax u64

fun run_limiter_op :: "limiter_op \<Rightarrow> limiter \<times> permit list \<Rightarrow> limiter \<times> permit list" where
  "run_limiter_op (Acquire user) (l, ps) =
     (case try_acquire user l of (Some p, l') \<Rightarrow> (l', p # ps) | (None, l') \<Rightarrow> (l', ps))"
| "run_limiter_op (DropAt i) (l, ps) =
     (if i < length ps then (drop_permit (ps ! i) l, take i ps @ drop (Suc i) ps) else (l, ps))"
| "run_limiter_op (SetMax m) (l, ps) = (set_max_connections_per_user m l, ps)"

definition held :: "string \<Rightarrow> permit list \<Rightarrow> nat" where
  "held u ps = length (filter (\<lambda>p. permit_user p = u \<and> permit_counter p \<noteq> None) ps)"

section \<open>Concurrent callers\<close>

text \<open>
  One caller acquires a permit and later drops it; its control points are the gaps between the
  atomic operations.  The cap is the one the caller loaded when it started.
\<close>

datatype caller =
    Start string
  | LookedUp string nat u64
  | Added string nat u64 u64
  | Holding permit
  | Subtracted permit u64
  | Rejected
  | Finished

fun caller_step :: "caller \<Rightarrow> limiter \<Rightarrow> caller \<times> limiter" where
  "caller_step (Start u) l =
     (let m = max_connections_per_user l in
      if m = usize_MAX then (Holding \<lparr> permit_user = u, permit_counter = None \<rparr>, l)
      else let (c, l') = counter_entry u l in (LookedUp u c m, l'))"
| "caller_step (LookedUp u c m) l =
     (let (previous, l') = fetch_add c l in (Added u c m (previous + 1), l'))"
| "caller_step (Added u c m now_active) l =
     (if now_active > m then (Rejected, snd (fetch_sub c l))
      else (Holding \<lparr> permit_user = u, permit_counter = Some c \<rparr>, l))"
| "caller_step (Holding p) l =
     (case permit_counter p of
        None \<Rightarrow> (Finished, l)
      | Some c \<Rightarrow> let (previous, l') = fetch_sub c l in (Subtracted p previous, l'))"
| "caller_step (Subtracted p previous) l =
     (case permit_counter p of
        None \<Rightarrow> (Finished, l)
      | Some c \<Rightarrow> (Finished, if previous \<le> 1 then remove_if_idle (permit_user p) c l else l))"
| "caller_step Rejected l = (Rejected, l)"
| "caller_step Finished l = (Finished, l)"

inductive limiter_step :: "limiter \<times> caller list \<Rightarrow> limiter \<times> caller list \<Rightarrow> bool" where
  schedule: "i < length ts \<Longrightarrow> caller_step (ts ! i) l = (t', l') \<Longrightarrow>
     limiter_step (l, ts) (l', ts[i := t'])"

inductive limiter_reach :: "limiter \<times> caller list \<Rightarrow> limiter \<times> caller list \<Rightarrow> bool" where
  reach_refl: "limiter_reach s s"
| reach_step: "limiter_reach s t \<Longrightarrow> limiter_step t u \<Longrightarrow> limiter_reach s u"

inductive_cases limiter_stepE: "limiter_step (l, ts) s'"

fun run_schedule :: "nat list \<Rightarrow> limiter \<times> caller list \<Rightarrow> limiter \<times> caller list" where
  "run_schedule [] s = s"
| "run_schedule (i # is) (l, ts) =
     (if i < length ts then
        (let (t', l') = caller_step (ts ! i) l in run_schedule is (l', ts[i := t']))
      else run_schedule is (l, ts))"

fun counted_on :: "nat \<Rightarrow> caller \<Rightarrow> bool" where
  "counted_on c (Added _ c' _ _) = (c' = c)"
| "counted_on c (Holding p) = (permit_counter p = Some c)"
| "counted_on c _ = False"

fun admitted_on :: "nat \<Rightarrow> caller \<Rightarrow> bool" where
  "admitted_on c (Added _ c' m a) = (c' = c \<and> a \<le> m)"
| "admitted_on c (Holding p) = (permit_counter p = Some c)"
| "admitted_on c _ = False"

definition holders :: "string \<Rightarrow> caller list \<Rightarrow> nat" where
  "holders u ts = length (filter (\<lambda>t. case t of Holding p \<Rightarrow> permit_user p = u | _ \<Rightarrow> False) ts)"

definition holders_on :: "nat \<Rightarrow> caller list \<Rightarrow> nat" where
  "holders_on c ts = length (filter (\<lambda>t. case t of Holding p \<Rightarrow> permit_counter p = Some c | _ \<Rightarrow> False) ts)"

lemmas atomic_defs = counter_entry_def fetch_add_def fetch_sub_def remove_if_idle_def

section \<open>The sequential invariant\<close>

definition limiter_inv :: "limiter \<times> permit list \<Rightarrow> bool" where
  "limiter_inv s = (case s of (l, ps) \<Rightarrow>
     1 \<le> max_connections_per_user l \<and>
     inj_on (counters l) (dom (counters l)) \<and>
     (\<forall>u c. counters l u = Some c \<longrightarrow> c < next_counter l \<and> active l c \<noteq> 0 \<and>
        active l c \<noteq> usize_MAX \<and> unat (active l c) = held u ps) \<and>
     (\<forall>p\<in>set ps. \<forall>c. permit_counter p = Some c \<longrightarrow> counters l (permit_user p) = Some c))"

lemma held_Cons [simp]:
  "held u (p # ps) = (if permit_user p = u \<and> permit_counter p \<noteq> None then Suc (held u ps) else held u ps)"
  by (simp add: held_def)

lemma held_remove:
  "i < length ps \<Longrightarrow> held u ps =
     held u (take i ps @ drop (Suc i) ps) +
     (if permit_user (ps ! i) = u \<and> permit_counter (ps ! i) \<noteq> None then 1 else 0)"
  by (subst (1) id_take_nth_drop [of i ps]) (simp_all add: held_def)

lemma held_pos_iff: "0 < held u ps \<longleftrightarrow> (\<exists>p\<in>set ps. permit_user p = u \<and> permit_counter p \<noteq> None)"
  by (auto simp: held_def filter_empty_conv)

lemma u64_inc:
  fixes a :: u64
  assumes "a \<noteq> usize_MAX"
  shows "a + 1 \<noteq> 0" "unat (a + 1) = Suc (unat a)"
proof -
  show nz: "a + 1 \<noteq> 0" using assms by (metis usize_MAX_def add_eq_0_iff2 minus_equation_iff)
  show "unat (a + 1) = Suc (unat a)" using nz by (metis unatSuc add.commute)
qed

lemma u64_dec:
  fixes a :: u64
  assumes "a \<noteq> 0"
  shows "a - 1 \<noteq> usize_MAX" "unat a = Suc (unat (a - 1))"
  using assms u64_inc(2) [of "a - 1"] by (auto simp: usize_MAX_def)

lemma limiter_inv_new: "limiter_inv (limiter_new m, [])"
  by (simp add: limiter_inv_def limiter_new_def max_def word_le_def)

lemma limiter_inv_None:
  "limiter_inv (l, ps) \<Longrightarrow> counters l u = None \<Longrightarrow> held u ps = 0"
  by (rule ccontr) (auto simp: limiter_inv_def held_pos_iff)

lemma limiter_inv_other:
  "limiter_inv (l, ps) \<Longrightarrow> counters l u = Some c \<Longrightarrow> counters l v = Some d \<Longrightarrow> u \<noteq> v \<Longrightarrow> c \<noteq> d"
  by (auto simp: limiter_inv_def inj_on_def dom_def)

lemma limiter_invD:
  assumes "limiter_inv (l, ps)" "counters l u = Some c"
  shows "c < next_counter l" "active l c \<noteq> 0" "active l c \<noteq> usize_MAX" "unat (active l c) = held u ps"
  using assms by (auto simp: limiter_inv_def)

lemma limiter_invI:
  assumes "1 \<le> max_connections_per_user l"
    and "\<And>u v c. counters l u = Some c \<Longrightarrow> counters l v = Some c \<Longrightarrow> u = v"
    and "\<And>u c. counters l u = Some c \<Longrightarrow> c < next_counter l \<and> active l c \<noteq> 0 \<and>
           active l c \<noteq> usize_MAX \<and> unat (active l c) = held u ps"
    and "\<And>p c. p \<in> set ps \<Longrightarrow> permit_counter p = Some c \<Longrightarrow> counters l (permit_user p) = Some c"
  shows "limiter_inv (l, ps)"
  using assms by (auto simp: limiter_inv_def inj_on_def dom_def)

lemma limiter_inv_max: "limiter_inv (l, ps) \<Longrightarrow> 1 \<le> max_connections_per_user l"
  by (simp add: limiter_inv_def)

lemma limiter_inv_permit:
  "limiter_inv (l, ps) \<Longrightarrow> p \<in> set ps \<Longrightarrow> permit_counter p = Some c \<Longrightarrow>
     counters l (permit_user p) = Some c"
  by (simp add: limiter_inv_def)

lemma limiter_inv_add_existing:
  assumes inv: "limiter_inv (l, ps)" and c: "counters l u = Some c"
    and le: "active l c + 1 \<le> max_connections_per_user l" "max_connections_per_user l \<noteq> usize_MAX"
  shows "limiter_inv (l\<lparr> active := (active l)(c := active l c + 1) \<rparr>,
           \<lparr> permit_user = u, permit_counter = Some c \<rparr> # ps)"
proof -
  note d = limiter_invD [OF inv c]
  have nm: "active l c + 1 \<noteq> usize_MAX"
    using le by (metis usize_MAX_def word_order.extremum antisym)
  have other: "counters l v = Some x \<Longrightarrow> v \<noteq> u \<Longrightarrow> x \<noteq> c" for v x
    using limiter_inv_other [OF inv c] by metis
  show ?thesis
    using inv c nm other u64_inc [OF d(3)] by (auto simp: limiter_inv_def)
qed

lemma limiter_inv_add_new:
  assumes inv: "limiter_inv (l, ps)" and c: "counters l u = None"
  shows "limiter_inv (l\<lparr> counters := (counters l)(u \<mapsto> next_counter l),
             next_counter := Suc (next_counter l), active := (active l)(next_counter l := 1) \<rparr>,
           \<lparr> permit_user = u, permit_counter = Some (next_counter l) \<rparr> # ps)"
proof -
  have "held u ps = 0" by (rule limiter_inv_None [OF inv c])
  moreover have "\<And>v. counters l v \<noteq> Some (next_counter l)"
    using limiter_invD(1) [OF inv] by blast
  moreover have "(1::u64) \<noteq> usize_MAX" by (simp add: usize_MAX_def)
  ultimately show ?thesis using inv c
    by (auto simp: limiter_inv_def inj_on_def dom_def less_Suc_eq)
qed

lemma limiter_inv_max_pos: "limiter_inv (l, ps) \<Longrightarrow> max_connections_per_user l \<noteq> 0"
  by (auto simp: limiter_inv_def)

lemma limiter_inv_acquire:
  assumes inv: "limiter_inv (l, ps)"
  shows "limiter_inv (run_limiter_op (Acquire user) (l, ps))"
proof (cases user)
  case None
  then show ?thesis using inv by (simp add: try_acquire_def)
next
  case (Some u)
  show ?thesis
  proof (cases "max_connections_per_user l = usize_MAX")
    case True
    then show ?thesis using Some inv by (simp add: try_acquire_def limiter_inv_def)
  next
    case capped: False
    show ?thesis
    proof (cases "counters l u")
      case None
      then show ?thesis
        using Some capped limiter_inv_add_new [OF inv None] limiter_inv_max_pos [OF inv]
        by (simp add: try_acquire_def Let_def atomic_defs)
    next
      case c: (Some c)
      show ?thesis
      proof (cases "active l c + 1 > max_connections_per_user l")
        case True
        then show ?thesis using Some capped c inv
          by (simp add: try_acquire_def Let_def atomic_defs)
      next
        case False
        then show ?thesis using Some capped c limiter_inv_add_existing [OF inv c]
          by (simp add: try_acquire_def Let_def atomic_defs)
      qed
    qed
  qed
qed

lemma limiter_inv_drop:
  assumes inv: "limiter_inv (l, ps)" and i: "i < length ps"
  shows "limiter_inv (drop_permit (ps ! i) l, take i ps @ drop (Suc i) ps)"
proof -
  let ?p = "ps ! i" and ?qs = "take i ps @ drop (Suc i) ps"
  let ?u = "permit_user (ps ! i)"
  have qs: "set ?qs \<subseteq> set ps" by (auto dest: in_set_takeD in_set_dropD)
  note h = held_remove [OF i]
  show ?thesis
  proof (cases "permit_counter ?p")
    case None
    then show ?thesis using inv qs h by (auto simp: drop_permit_def limiter_inv_def)
  next
    case (Some c)
    then have c: "counters l ?u = Some c" using inv i by (auto simp: limiter_inv_def)
    note d = limiter_invD [OF inv c]
    have hu: "held ?u ps = Suc (held ?u ?qs)" using h [of ?u] Some by simp
    have ho: "v \<noteq> ?u \<Longrightarrow> held v ps = held v ?qs" for v using h [of v] by simp
    have dec: "unat (active l c - 1) = held ?u ?qs" "active l c - 1 \<noteq> usize_MAX"
      using u64_dec [OF d(2)] d(4) hu by simp_all
    have other: "counters l v = Some x \<Longrightarrow> v \<noteq> ?u \<Longrightarrow> x \<noteq> c" for v x
      using limiter_inv_other [OF inv c] by metis
    have nocnt: "held ?u ?qs = 0 \<Longrightarrow> p \<in> set ?qs \<Longrightarrow> permit_user p = ?u \<Longrightarrow> permit_counter p = None" for p
      using held_pos_iff [of ?u ?qs] by (metis not_gr_zero)
    show ?thesis
    proof (cases "active l c = 1")
      case True
      then have z: "held ?u ?qs = 0" using dec by simp
      have gone: "p \<in> set ?qs \<Longrightarrow> permit_counter p = Some x \<Longrightarrow> permit_user p \<noteq> ?u" for p x
        using nocnt [OF z] by fastforce
      have eq: "drop_permit ?p l = l\<lparr> active := (active l)(c := 0), counters := (counters l)(?u := None) \<rparr>"
        using Some c True by (simp add: drop_permit_def atomic_defs)
      show ?thesis unfolding eq
        using limiter_inv_max [OF inv] limiter_inv_other [OF inv] limiter_invD [OF inv] other ho gone
          limiter_inv_permit [OF inv subsetD [OF qs]]
        by (intro limiter_invI) (auto split: if_splits)
    next
      case False
      then have nz: "active l c - 1 \<noteq> 0" by simp
      then have "\<not> active l c \<le> 1"
        using u64_dec(2) [OF d(2)] by (simp add: word_le_nat_alt unat_eq_0)
      then have eq: "drop_permit ?p l = l\<lparr> active := (active l)(c := active l c - 1) \<rparr>"
        using Some by (simp add: drop_permit_def atomic_defs)
      have key: "counters l v = Some x \<Longrightarrow> x < next_counter l \<and>
            (if x = c then active l c - 1 else active l x) \<noteq> 0 \<and>
            (if x = c then active l c - 1 else active l x) \<noteq> usize_MAX \<and>
            unat (if x = c then active l c - 1 else active l x) = held v ?qs" for v x
        using limiter_invD [OF inv, of v x] other [of v x] ho [of v] dec nz by (cases "v = ?u") (auto simp: c)
      show ?thesis unfolding eq
        using limiter_inv_max [OF inv] limiter_inv_other [OF inv] key
          limiter_inv_permit [OF inv subsetD [OF qs]]
        by (intro limiter_invI) auto
    qed
  qed
qed

lemma limiter_inv_op: "limiter_inv s \<Longrightarrow> limiter_inv (run_limiter_op op s)"
proof (cases s)
  case (Pair l ps)
  assume "limiter_inv s"
  then have inv: "limiter_inv (l, ps)" using Pair by simp
  show ?thesis
  proof (cases op)
    case (Acquire user)
    then show ?thesis using limiter_inv_acquire [OF inv] Pair by simp
  next
    case (DropAt i)
    then show ?thesis using limiter_inv_drop [OF inv] inv Pair by simp
  next
    case (SetMax m)
    then show ?thesis using inv Pair
      by (simp add: set_max_connections_per_user_def limiter_inv_def max_def word_le_def)
  qed
qed

lemma limiter_inv_run: "limiter_inv s \<Longrightarrow> limiter_inv (fold run_limiter_op ops s)"
  by (induction ops arbitrary: s) (simp_all add: limiter_inv_op)

lemma try_acquire_admits_iff:
  assumes inv: "limiter_inv (l, ps)"
  shows "fst (try_acquire (Some u) l) \<noteq> None \<longleftrightarrow>
           max_connections_per_user l = usize_MAX \<or> held u ps < unat (max_connections_per_user l)"
proof (cases "counters l u")
  case None
  have "held u ps = 0" by (rule limiter_inv_None [OF inv None])
  moreover have "max_connections_per_user l \<noteq> 0" by (rule limiter_inv_max_pos [OF inv])
  ultimately show ?thesis using None
    by (simp add: try_acquire_def Let_def atomic_defs unat_gt_0)
next
  case (Some c)
  note d = limiter_invD [OF inv Some]
  have "unat (active l c + 1) = Suc (held u ps)" using u64_inc(2) [OF d(3)] d(4) by simp
  then show ?thesis using Some
    by (simp add: try_acquire_def Let_def atomic_defs word_less_nat_alt not_less Suc_le_eq)
qed

section \<open>The invariant of concurrent callers\<close>

fun caller_wf :: "u64 \<Rightarrow> nat \<Rightarrow> caller \<Rightarrow> bool" where
  "caller_wf M n (LookedUp _ c m) = (c < n \<and> m = M)"
| "caller_wf M n (Added _ c m _) = (c < n \<and> m = M)"
| "caller_wf M n (Holding p) = (\<forall>c. permit_counter p = Some c \<longrightarrow> c < n)"
| "caller_wf M n _ = True"

definition conc_inv :: "u64 \<Rightarrow> limiter \<times> caller list \<Rightarrow> bool" where
  "conc_inv M s = (case s of (l, ts) \<Rightarrow>
     max_connections_per_user l = M \<and> length ts < 2 ^ 64 \<and>
     (\<forall>u c. counters l u = Some c \<longrightarrow> c < next_counter l) \<and>
     (\<forall>t\<in>set ts. caller_wf M (next_counter l) t) \<and>
     (\<forall>c. unat (active l c) = length (filter (counted_on c) ts)) \<and>
     (\<forall>c. length (filter (admitted_on c) ts) \<le> unat M))"

lemma length_filter_update:
  "i < length ts \<Longrightarrow> length (filter P (ts[i := t])) + (if P (ts ! i) then 1 else 0) =
     length (filter P ts) + (if P t then 1 else 0)"
  using arg_cong [OF id_take_nth_drop [of i ts], of "\<lambda>xs. length (filter P xs)"]
  by (auto simp: upd_conv_take_nth_drop)

lemma admitted_le_counted: "length (filter (admitted_on c) ts) \<le> length (filter (counted_on c) ts)"
proof (induction ts)
  case (Cons t ts)
  have "admitted_on c t \<Longrightarrow> counted_on c t" by (cases t) auto
  with Cons show ?case by auto
qed simp

lemma caller_wf_mono: "caller_wf M n t \<Longrightarrow> n \<le> n' \<Longrightarrow> caller_wf M n' t"
  by (cases t) auto

lemma counted_lt: "caller_wf M n t \<Longrightarrow> counted_on c t \<Longrightarrow> c < n"
  by (cases t) auto

lemma conc_invD:
  assumes "conc_inv M (l, ts)"
  shows "max_connections_per_user l = M" "length ts < 2 ^ 64"
    "counters l u = Some c \<Longrightarrow> c < next_counter l"
    "t \<in> set ts \<Longrightarrow> caller_wf M (next_counter l) t"
    "unat (active l c) = length (filter (counted_on c) ts)"
    "length (filter (admitted_on c) ts) \<le> unat M"
  using assms by (auto simp: conc_inv_def)

text \<open>A step changes one caller and at most one counter; the invariant is kept when the counter
  moves with the caller.\<close>

lemma conc_inv_update:
  assumes inv: "conc_inv M (l, ts)" and i: "i < length ts"
    and l': "max_connections_per_user l' = M" "next_counter l \<le> next_counter l'"
      "\<And>u c. counters l' u = Some c \<Longrightarrow> c < next_counter l'"
    and t': "caller_wf M (next_counter l') t'"
    and cnt: "\<And>c. unat (active l' c) + (if counted_on c (ts ! i) then 1 else 0) =
                 unat (active l c) + (if counted_on c t' then 1 else 0)"
    and adm: "\<And>c. admitted_on c t' \<Longrightarrow> admitted_on c (ts ! i) \<or> unat (active l' c) \<le> unat M"
  shows "conc_inv M (l', ts[i := t'])"
proof -
  note d = conc_invD [OF inv]
  have eq: "unat (active l' c) = length (filter (counted_on c) (ts[i := t']))" for c
    using length_filter_update [OF i, of "counted_on c" t'] cnt [of c] d(5) [of c] by simp
  have "length (filter (admitted_on c) (ts[i := t'])) \<le> unat M" for c
  proof (cases "admitted_on c t' \<and> \<not> admitted_on c (ts ! i)")
    case True
    then have "unat (active l' c) \<le> unat M" using adm by blast
    then show ?thesis using admitted_le_counted [of c "ts[i := t']"] eq by simp
  next
    case False
    then show ?thesis
      using length_filter_update [OF i, of "admitted_on c" t'] d(6) [of c] by (auto split: if_splits)
  qed
  moreover have "t \<in> set (ts[i := t']) \<Longrightarrow> caller_wf M (next_counter l') t" for t
    using set_update_subset_insert [of ts i t'] t' caller_wf_mono [OF d(4) l'(2)] by blast
  ultimately show ?thesis using eq l' d(2) by (simp add: conc_inv_def)
qed

lemma conc_inv_step:
  assumes inv: "conc_inv M (l, ts)" and M: "M \<noteq> usize_MAX" and step: "limiter_step (l, ts) (l', ts')"
  shows "conc_inv M (l', ts')"
proof -
  from step obtain i t' where i: "i < length ts" and st: "caller_step (ts ! i) l = (t', l')"
    and ts': "ts' = ts[i := t']" by (auto elim: limiter_stepE)
  note d = conc_invD [OF inv]
  have wf: "caller_wf M (next_counter l) (ts ! i)" using d(4) i by simp
  have fresh: "\<not> counted_on (next_counter l) t" if "t \<in> set ts" for t
    using counted_lt [OF d(4) [OF that]] by blast
  then have fresh0: "unat (active l (next_counter l)) = 0" using d(5) by (simp add: filter_empty_conv)
  have pos: "active l c \<noteq> 0" if "counted_on c (ts ! i)" for c
    using d(5) [of c] that i by (metis filter_empty_conv length_0_conv nth_mem unat_0)
  have room: "active l c \<noteq> usize_MAX" if nc: "\<not> counted_on c (ts ! i)" for c
  proof
    assume "active l c = usize_MAX"
    then have "unat (active l c) = 2 ^ 64 - 1"
      by (simp add: usize_MAX_def unsigned_minus_1_eq_mask mask_eq_exp_minus_1)
    moreover have "length (filter (counted_on c) ts) < length ts"
      using length_filter_less [of "ts ! i" ts "counted_on c"] nc i by simp
    ultimately show False using d(2) d(5) [of c] by simp
  qed
  have "conc_inv M (l', ts[i := t'])"
  proof (cases "ts ! i")
    case (Start u)
    then show ?thesis using st M d(1) d(3) i
      by (intro conc_inv_update [OF inv i])
        (auto simp: Let_def counter_entry_def fresh0 less_Suc_eq split: if_splits option.splits)
  next
    case (LookedUp u c m)
    then show ?thesis using st wf d(1) d(3) room [of c] u64_inc [of "active l c"]
      by (intro conc_inv_update [OF inv i])
        (auto simp: Let_def fetch_add_def word_le_nat_alt split: if_splits)
  next
    case (Added u c m a)
    then show ?thesis using st wf d(1) d(3) pos [of c] u64_dec(2) [of "active l c"]
      by (intro conc_inv_update [OF inv i])
        (auto simp: Let_def fetch_sub_def split: if_splits)
  next
    case (Holding p)
    then show ?thesis using st wf d(1) d(3) pos [of "the (permit_counter p)"]
        u64_dec(2) [of "active l (the (permit_counter p))"]
      by (intro conc_inv_update [OF inv i])
        (auto simp: Let_def fetch_sub_def split: if_splits option.splits)
  next
    case (Subtracted p previous)
    then show ?thesis using st wf d(1) d(3)
      by (intro conc_inv_update [OF inv i])
        (auto simp: remove_if_idle_def split: if_splits option.splits)
  next
    case Rejected
    then show ?thesis using st wf d(1) d(3) by (intro conc_inv_update [OF inv i]) auto
  next
    case Finished
    then show ?thesis using st wf d(1) d(3) by (intro conc_inv_update [OF inv i]) auto
  qed
  then show ?thesis using ts' by simp
qed

lemma conc_inv_init: "length us < 2 ^ 64 \<Longrightarrow> conc_inv (max m 1) (limiter_new m, map Start us)"
  by (auto simp: conc_inv_def limiter_new_def comp_def)

lemma conc_inv_reach:
  "limiter_reach s t \<Longrightarrow> conc_inv M s \<Longrightarrow> M \<noteq> usize_MAX \<Longrightarrow> conc_inv M t"
proof (induction rule: limiter_reach.induct)
  case (reach_step s t u)
  then show ?case using conc_inv_step [of M "fst t" "snd t" "fst u" "snd u"] by simp
qed

lemma holders_on_le_admitted: "holders_on c ts \<le> length (filter (admitted_on c) ts)"
  unfolding holders_on_def
  by (induction ts) (auto split: caller.splits)

lemma run_schedule_reach: "limiter_reach s (run_schedule is s)"
proof (induction "is" s rule: run_schedule.induct)
  case (1 s)
  show ?case by (simp add: reach_refl)
next
  case (2 i "is" l ts)
  have trans: "limiter_reach b c \<Longrightarrow> limiter_reach a b \<Longrightarrow> limiter_reach a c" for a b c
    by (induction rule: limiter_reach.induct) (auto intro: reach_step)
  obtain t' l' where cs: "caller_step (ts ! i) l = (t', l')" by fastforce
  show ?case
  proof (cases "i < length ts")
    case True
    then have "limiter_reach (l, ts) (l', ts[i := t'])"
      using schedule [OF True cs] by (auto intro: reach_refl reach_step)
    then show ?thesis using 2(1) [OF True cs [symmetric] refl] True cs trans by simp
  next
    case False
    with 2 show ?thesis by simp
  qed
qed

section \<open>Properties\<close>


text \<open>Under every interleaving of concurrent callers each counter object respects the cap: no
  reachable state has more permits on one counter than the cap it was created with.\<close>

lemma limiter_counter_cap_interleaved:
  assumes "limiter_reach (limiter_new m, map Start us) (l, ts)" "m \<noteq> usize_MAX" "length us < 2 ^ 64"
  shows "holders_on c ts \<le> unat (max m 1)"
proof -
  have "max m 1 \<noteq> usize_MAX" using assms(2) by (auto simp: max_def usize_MAX_def)
  with assms have "conc_inv (max m 1) (l, ts)" using conc_inv_reach conc_inv_init by blast
  then show ?thesis using conc_invD(6) holders_on_le_admitted order_trans by blast
qed

text \<open>C28: the cap does not hold per user under interleaving.  With a cap of one, three callers of
  the same user reach a state in which two of them hold a permit: the second caller looks its
  counter up, the first one drops its permit and removes the counter from the table, and the third
  one is admitted on a new counter.\<close>

theorem limiter_user_cap_violated:
  "\<exists>l ts. limiter_reach (limiter_new 1, map Start [''u'', ''u'', ''u'']) (l, ts) \<and>
     unat (max_connections_per_user l) < holders ''u'' ts"
proof -
  let ?s = "run_schedule [0, 0, 0, 1, 0, 0, 1, 1, 2, 2, 2] (limiter_new 1, map Start [''u'', ''u'', ''u''])"
  have "unat (max_connections_per_user (fst ?s)) < holders ''u'' (snd ?s)"
    by (simp add: limiter_new_def atomic_defs usize_MAX_def holders_def Let_def max_def)
  then show ?thesis using run_schedule_reach by (metis prod.collapse)
qed

end
