(* ===== verification/Trojan.thy ===== *)
theory Trojan
  imports Addresses User_Limits
begin

text \<open>
  The Trojan protocol (crates/blackwire-protocol/src/trojan): the request header and datagram
  codec (codec.rs), the token store and the inbound handler up to the point where the connection
  is handed on (inbound.rs), and the UDP relay loop (udp.rs).

  SHA-224 and hexadecimal encoding are library functions and enter as the parameters
  \<open>sha224\<close> and \<open>hex_encode\<close>; the network side of the relay (name resolution, the UDP exchange, the
  write half of the stream) is a record of functions on an arbitrary world state.
\<close>

section \<open>Codec\<close>

definition TOKEN_LEN :: nat where "TOKEN_LEN = 56"
definition TROJAN_CMD_CONNECT :: u8 where "TROJAN_CMD_CONNECT = 0x01"
definition TROJAN_CMD_UDP_ASSOCIATE :: u8 where "TROJAN_CMD_UDP_ASSOCIATE = 0x03"
definition MAX_UDP_PAYLOAD_LEN :: nat where "MAX_UDP_PAYLOAD_LEN = 8192"

definition crlf :: bytes where "crlf = [13, 10]"

record trojan_request =
  tr_token :: bytes
  tr_command :: u8
  tr_dest :: address

definition compute_token :: "(bytes \<Rightarrow> bytes) \<Rightarrow> (bytes \<Rightarrow> string) \<Rightarrow> string \<Rightarrow> string" where
  "compute_token sha224 hex_encode password = hex_encode (sha224 (as_bytes password))"

definition expect_crlf :: "bytes \<Rightarrow> string \<Rightarrow> bytes res" where
  "expect_crlf reader ctx =
     and_then (read_exact 2 reader) (\<lambda>(b, reader).
     if b \<noteq> crlf then Err (Protocol (''Trojan: expected CRLF '' @ ctx)) else Ok reader)"

definition trojan_decode_request :: "bytes \<Rightarrow> (trojan_request \<times> bytes) res" where
  "trojan_decode_request reader =
     and_then (read_exact TOKEN_LEN reader) (\<lambda>(tok, reader).
     and_then (expect_crlf reader ''after token'') (\<lambda>reader.
     and_then (read_u8 reader) (\<lambda>(cmd, reader).
     if cmd \<noteq> TROJAN_CMD_CONNECT \<and> cmd \<noteq> TROJAN_CMD_UDP_ASSOCIATE
     then Err (Protocol (''Trojan: unsupported command '' @ fmt_hex cmd))
     else
       and_then (read_u8 reader) (\<lambda>(atyp, reader).
       and_then (read_socks5_address reader atyp ''Trojan'') (\<lambda>(d, reader).
       and_then (expect_crlf reader ''after address'') (\<lambda>reader.
       Ok (\<lparr> tr_token = tok, tr_command = cmd, tr_dest = d \<rparr>, reader)))))))"

definition trojan_encode_request :: "string \<Rightarrow> u8 \<Rightarrow> address \<Rightarrow> bytes res" where
  "trojan_encode_request tok cmd d =
     (let buf = as_bytes tok @ crlf @ [cmd] in
      and_then (write_socks5_address buf d) (\<lambda>buf.
      Ok (buf @ crlf)))"

definition trojan_parse_udp_datagram :: "bytes \<Rightarrow> (address \<times> bytes \<times> nat) res" where
  "trojan_parse_udp_datagram buf =
     (if length buf < 4 then Err (Protocol ''Trojan UDP datagram too short'')
      else
        and_then (idx buf 0) (\<lambda>atyp.
        and_then (slice buf 1 (length buf)) (\<lambda>data.
        and_then (decode_socks5_address data atyp ''Trojan UDP'') (\<lambda>(d, consumed).
        let pos = 1 + consumed in
        if pos + 4 > length buf then Err (Protocol ''Trojan UDP truncated length'')
        else
          and_then (slice buf pos (pos + 2)) (\<lambda>len.
          let payload_len = unat (from_be len :: u16) in
          if payload_len > MAX_UDP_PAYLOAD_LEN
          then Err (Protocol (''Trojan UDP payload length '' @ fmt_dec payload_len @
                              '' exceeds Xray max '' @ fmt_dec MAX_UDP_PAYLOAD_LEN))
          else
            and_then (idx buf (pos + 2)) (\<lambda>cr.
            and_then (if cr \<noteq> 13 then Ok True else and_then (idx buf (pos + 3)) (\<lambda>lf. Ok (lf \<noteq> 10))) (\<lambda>bad.
            if bad then Err (Protocol ''Trojan UDP missing CRLF after length'')
            else
              let data_off = pos + 4 in
              if data_off + payload_len > length buf then Err (Protocol ''Trojan UDP truncated payload'')
              else
                and_then (slice buf data_off (data_off + payload_len)) (\<lambda>payload.
                Ok (d, payload, data_off + payload_len)))))))))"

definition trojan_encode_udp_datagram :: "address \<Rightarrow> bytes \<Rightarrow> bytes res" where
  "trojan_encode_udp_datagram d payload =
     (if length payload > MAX_UDP_PAYLOAD_LEN
      then Err (Protocol (''Trojan UDP payload length '' @ fmt_dec (length payload) @
                          '' exceeds Xray max '' @ fmt_dec MAX_UDP_PAYLOAD_LEN))
      else
        and_then (write_socks5_address [] d) (\<lambda>buf.
        Ok (buf @ to_be 2 (word_of_nat (length payload) :: u16) @ crlf @ payload)))"

definition trojan_encode_udp_datagram_into :: "address \<Rightarrow> bytes \<Rightarrow> bytes \<Rightarrow> bytes res" where
  "trojan_encode_udp_datagram_into d payload buf =
     (if length payload > MAX_UDP_PAYLOAD_LEN
      then Err (Protocol (''Trojan UDP payload length '' @ fmt_dec (length payload) @
                          '' exceeds Xray max '' @ fmt_dec MAX_UDP_PAYLOAD_LEN))
      else
        let buf = [] in
        and_then (write_socks5_address buf d) (\<lambda>buf.
        let buf = buf @ to_be 2 (word_of_nat (length payload) :: u16);
            buf = buf @ crlf in
        Ok (buf @ payload)))"

section \<open>Token store and inbound handler\<close>

record trojan_user =
  password :: string
  label :: "string option"

record trojan_token =
  tok_bytes :: bytes
  tok_user :: "string option"

type_synonym trojan_auth_store = "trojan_token list"

fun trojan_replace_users :: "(bytes \<Rightarrow> bytes) \<Rightarrow> (bytes \<Rightarrow> string) \<Rightarrow> trojan_user list \<Rightarrow> trojan_auth_store res" where
  "trojan_replace_users sha224 hex_encode [] = Ok []"
| "trojan_replace_users sha224 hex_encode (u # us) =
     (let hex = compute_token sha224 hex_encode (password u) in
      if length (as_bytes hex) \<noteq> TOKEN_LEN then Panic
      else
        and_then (trojan_replace_users sha224 hex_encode us) (\<lambda>ts.
        Ok (\<lparr> tok_bytes = as_bytes hex, tok_user = label u \<rparr> # ts)))"

definition trojan_validate_token :: "trojan_auth_store \<Rightarrow> bytes \<Rightarrow> string option option" where
  "trojan_validate_token store tok =
     map_option tok_user (find (\<lambda>e. tok_bytes e = tok) store)"

fun is_unspecified_associate_dest :: "address \<Rightarrow> bool" where
  "is_unspecified_associate_dest (Ipv4 ip p) = (ip = 0 \<and> p = 0)"
| "is_unspecified_associate_dest (Ipv6 ip p) = (ip = 0 \<and> p = 0)"
| "is_unspecified_associate_dest _ = False"

definition is_trojan_udp_associate :: "trojan_request \<Rightarrow> bool" where
  "is_trojan_udp_associate r =
     (if tr_command r = TROJAN_CMD_UDP_ASSOCIATE then True
      else tr_command r = TROJAN_CMD_CONNECT \<and> is_unspecified_associate_dest (tr_dest r))"

text \<open>
  What \<^verbatim>\<open>handle\<close> does with the connection once the header is decided: refuse it because of the
  per-user cap (the source returns \<^verbatim>\<open>Ok(())\<close>), start the UDP relay, or dispatch to the requested
  destination.  The permit stays with the connection.  The bytes read ahead of the header are put
  back in front of the stream, so the stream handed on is what remains after the header.
\<close>

datatype trojan_outcome =
    Refused
  | UdpRelay "string option" bytes "permit option"
  | Dispatch "string option" address bytes "permit option"

definition handle_trojan ::
  "trojan_auth_store \<Rightarrow> limiter option \<Rightarrow> bytes \<Rightarrow> (trojan_outcome \<times> limiter option) res" where
  "handle_trojan auth user_limiter stream =
     and_then (trojan_decode_request stream) (\<lambda>(request, stream).
     and_then (ok_or (trojan_validate_token auth (tr_token request)) AuthFailed) (\<lambda>user.
     let (permit, user_limiter) =
       (case user_limiter of
          None \<Rightarrow> (Some None, None)
        | Some l \<Rightarrow>
            (case user of
               None \<Rightarrow> (Some None, Some l)
             | Some u \<Rightarrow> (case try_acquire (Some u) l of
                             (Some p, l') \<Rightarrow> (Some (Some p), Some l')
                           | (None, l') \<Rightarrow> (None, Some l')))) in
     case permit of
       None \<Rightarrow> Ok (Refused, user_limiter)
     | Some permit \<Rightarrow>
         if is_trojan_udp_associate request then Ok (UdpRelay user stream permit, user_limiter)
         else Ok (Dispatch user (tr_dest request) stream permit, user_limiter)))"

section \<open>UDP relay\<close>

datatype recv_result = Received bytes | RecvFailed string | TimedOut

record 'w udp_env =
  env_bind :: "'w \<Rightarrow> string option \<times> 'w"
  env_dns :: "(string \<Rightarrow> ('w, ip_addr list) io) option"
  env_lookup_host :: "string \<Rightarrow> u16 \<Rightarrow> 'w \<Rightarrow> (socket_addr list + string) \<times> 'w"
  env_send_to :: "bytes \<Rightarrow> socket_addr \<Rightarrow> 'w \<Rightarrow> string option \<times> 'w"
  env_recv_from :: "'w \<Rightarrow> recv_result \<times> 'w"
  env_write_all :: "bytes \<Rightarrow> 'w \<Rightarrow> string option \<times> 'w"
  env_flush :: "'w \<Rightarrow> string option \<times> 'w"

definition transport_io :: "string \<Rightarrow> ('w \<Rightarrow> string option \<times> 'w) \<Rightarrow> ('w, unit) io" where
  "transport_io ctx m = (\<lambda>w. case m w of
       (None, w') \<Rightarrow> (Ok (), w')
     | (Some e, w') \<Rightarrow> (Err (Transport (ctx @ e)), w'))"

fun trojan_resolve_udp_dest :: "'w udp_env \<Rightarrow> address \<Rightarrow> ('w, socket_addr) io" where
  "trojan_resolve_udp_dest env (Ipv4 ip p) = io_lift (Ok (V4 ip, p))"
| "trojan_resolve_udp_dest env (Ipv6 ip p) = io_lift (Ok (V6 ip, p))"
| "trojan_resolve_udp_dest env (Domain name p) =
     (case env_dns env of
        Some dns \<Rightarrow>
          io_then (dns name) (\<lambda>ips.
          case ips of
            ip # _ \<Rightarrow> io_lift (Ok (ip, p))
          | [] \<Rightarrow> io_lift (Err (DnsResolutionFailed (name @ '': no records''))))
      | None \<Rightarrow> (\<lambda>w.
          case env_lookup_host env name p w of
            (Inl (a # _), w') \<Rightarrow> (Ok a, w')
          | (Inl [], w') \<Rightarrow> (Err (DnsResolutionFailed name), w')
          | (Inr e, w') \<Rightarrow> (Err (DnsResolutionFailed (name @ '': '' @ e)), w')))"

definition exchange_udp_datagram :: "'w udp_env \<Rightarrow> socket_addr \<Rightarrow> bytes \<Rightarrow> ('w, bytes option) io" where
  "exchange_udp_datagram env upstream data =
     io_then (transport_io ''Trojan UDP send: '' (env_send_to env data upstream)) (\<lambda>_ w.
     case env_recv_from env w of
       (Received r, w') \<Rightarrow> (Ok (if length r > 0 then Some r else None), w')
     | (RecvFailed e, w') \<Rightarrow> (Err (Transport (''Trojan UDP recv: '' @ e)), w')
     | (TimedOut, w') \<Rightarrow> (Ok None, w'))"

definition relay_one_datagram :: "'w udp_env \<Rightarrow> address \<Rightarrow> bytes \<Rightarrow> ('w, unit) io" where
  "relay_one_datagram env d payload =
     io_then (trojan_resolve_udp_dest env d) (\<lambda>upstream.
     io_then (exchange_udp_datagram env upstream payload) (\<lambda>reply.
     case reply of
       None \<Rightarrow> io_lift (Ok ())
     | Some r \<Rightarrow>
         io_then (io_lift (trojan_encode_udp_datagram_into d r [])) (\<lambda>out.
         io_then (transport_io [] (env_write_all env out)) (\<lambda>_.
         transport_io [] (env_flush env)))))"

definition OVERFLOW_MSG :: string where
  "OVERFLOW_MSG = ''Trojan UDP datagram buffer overflow''"

lemma trojan_parse_udp_datagram_consumed:
  "trojan_parse_udp_datagram buf = Ok (d, payload, consumed) \<Longrightarrow> 0 < consumed \<and> consumed \<le> length buf"
  by (auto simp: trojan_parse_udp_datagram_def and_then_Ok_iff Let_def split: if_splits)

function trojan_drain :: "'w udp_env \<Rightarrow> bytes \<Rightarrow> nat \<Rightarrow> 'w \<Rightarrow> nat res \<times> 'w" where
  "trojan_drain env acc acc_pos w =
     (if acc_pos > length acc then (Panic, w)
      else case trojan_parse_udp_datagram (drop acc_pos acc) of
        Ok (d, payload, consumed) \<Rightarrow>
          if payload = [] then trojan_drain env acc (acc_pos + consumed) w
          else (case relay_one_datagram env d payload w of
                  (Ok _, w') \<Rightarrow> trojan_drain env acc (acc_pos + consumed) w'
                | (Err e, w') \<Rightarrow> (Err e, w')
                | (Panic, w') \<Rightarrow> (Panic, w'))
      | Err (Protocol _) \<Rightarrow>
          if length acc - acc_pos > 65507 then (Err (Protocol OVERFLOW_MSG), w)
          else (Ok acc_pos, w)
      | Err e \<Rightarrow> (Err e, w)
      | Panic \<Rightarrow> (Panic, w))"
  by pat_completeness auto
termination
  by (relation "measure (\<lambda>(env, acc, acc_pos, w). length acc - acc_pos)")
    (auto dest!: trojan_parse_udp_datagram_consumed)

definition compact_acc :: "bytes \<Rightarrow> nat \<Rightarrow> bytes \<times> nat" where
  "compact_acc acc acc_pos =
     (if acc_pos > 0 then
        if acc_pos \<ge> length acc then ([], 0)
        else if acc_pos > length acc div 2 then (drop acc_pos acc, 0)
        else (acc, acc_pos)
      else (acc, acc_pos))"

fun trojan_relay_loop :: "'w udp_env \<Rightarrow> read_event list \<Rightarrow> bytes \<Rightarrow> nat \<Rightarrow> 'w \<Rightarrow> unit res \<times> 'w" where
  "trojan_relay_loop env [] acc acc_pos w = (Ok (), w)"
| "trojan_relay_loop env (ReadFailed e # evs) acc acc_pos w = (Err (Transport e), w)"
| "trojan_relay_loop env (Chunk c # evs) acc acc_pos w =
     (let (acc, acc_pos) = compact_acc acc acc_pos in
      if length c = 0 then (Ok (), w)
      else
        let acc = acc @ c in
        case trojan_drain env acc acc_pos w of
          (Ok acc_pos', w') \<Rightarrow> trojan_relay_loop env evs acc acc_pos' w'
        | (Err e, w') \<Rightarrow> (Err e, w')
        | (Panic, w') \<Rightarrow> (Panic, w'))"

definition relay_trojan_udp :: "'w udp_env \<Rightarrow> read_event list \<Rightarrow> 'w \<Rightarrow> unit res \<times> 'w" where
  "relay_trojan_udp env reads =
     io_then (transport_io ''Trojan UDP bind: '' (env_bind env)) (\<lambda>_.
     trojan_relay_loop env reads [] 0)"

section \<open>Codec lemmas\<close>

lemmas trojan_cmd_defs [simp] = TROJAN_CMD_CONNECT_def TROJAN_CMD_UDP_ASSOCIATE_def

lemma length_crlf [simp]: "length crlf = 2"
  by (simp add: crlf_def)

lemma expect_crlf_append [simp]: "expect_crlf (crlf @ rest) ctx = Ok rest"
  by (simp add: expect_crlf_def)

lemma read_socks5_address_enc:
  assumes "wf_address a" "socks5_enc a = Ok bs"
  shows "\<exists>atyp data. bs = atyp # data \<and> read_socks5_address (data @ rest) atyp p = Ok (a, rest)"
proof -
  obtain atyp data where bs: "bs = atyp # data"
    using socks5_enc_nonempty [OF assms(2)] by (cases bs) auto
  with socks5_dec_enc [OF assms, of p rest] show ?thesis
    by (auto simp: socks5_dec_def and_then_Ok_iff read_socks5_address_iff)
qed

lemma trojan_decode_encode_request:
  assumes "wf_address d" "length tok = TOKEN_LEN"
    and "cmd = TROJAN_CMD_CONNECT \<or> cmd = TROJAN_CMD_UDP_ASSOCIATE"
    and "trojan_encode_request tok cmd d = Ok bs"
  shows "trojan_decode_request (bs @ rest) =
           Ok (\<lparr> tr_token = as_bytes tok, tr_command = cmd, tr_dest = d \<rparr>, rest)"
proof -
  from assms(4) obtain addr where addr: "socks5_enc d = Ok addr"
    and bs: "bs = as_bytes tok @ crlf @ [cmd] @ addr @ crlf"
    by (auto simp: trojan_encode_request_def write_socks5_address_buf and_then_Ok_iff)
  obtain atyp data where "addr = atyp # data"
    and "read_socks5_address (data @ crlf @ rest) atyp ''Trojan'' = Ok (d, crlf @ rest)"
    using read_socks5_address_enc [OF assms(1) addr] by blast
  then show ?thesis using bs assms(2,3)
    by (auto simp: trojan_decode_request_def)
qed

lemma trojan_parse_encode_datagram:
  assumes "wf_address d" "trojan_encode_udp_datagram d payload = Ok bs"
  shows "trojan_parse_udp_datagram (bs @ rest) = Ok (d, payload, length bs)"
proof -
  from assms(2) obtain addr where addr: "socks5_enc d = Ok addr"
    and len: "length payload \<le> 8192"
    and bs: "bs = addr @ to_be 2 (word_of_nat (length payload) :: u16) @ crlf @ payload"
    by (auto simp: trojan_encode_udp_datagram_def MAX_UDP_PAYLOAD_LEN_def socks5_enc_def and_then_Ok_iff
        split: if_splits)
  have 4: "4 \<le> length addr" using socks5_enc_nonempty [OF addr] .
  then obtain atyp data where ad: "addr = atyp # data" by (cases addr) auto
  let ?tl = "to_be 2 (word_of_nat (length payload) :: u16) @ crlf @ payload @ rest"
  have dec: "decode_socks5_address (data @ ?tl) atyp ''Trojan UDP'' = Ok (d, length data)"
    using socks5_dec_enc [OF assms(1) addr, of "''Trojan UDP''" ?tl] ad
    by (auto simp: socks5_dec_def and_then_Ok_iff)
  have tail: "drop (5 + length data) (atyp # data @ ?tl) = payload @ rest"
    by (simp add: numeral_eq_Suc crlf_def)
  show ?thesis
    using dec bs ad 4 len tail
    by (simp add: trojan_parse_udp_datagram_def MAX_UDP_PAYLOAD_LEN_def Let_def crlf_def nth_append)
qed

lemma drop5_Cons: "drop (5 + c) (x # xs) = drop (4 + c) xs"
  by (simp add: numeral_eq_Suc)

lemma trojan_parse_mono:
  assumes "trojan_parse_udp_datagram buf = Ok r"
  shows "trojan_parse_udp_datagram (buf @ ext) = Ok r"
proof -
  from assms obtain atyp data where buf: "buf = atyp # data"
    by (cases buf) (auto simp: trojan_parse_udp_datagram_def)
  with assms obtain d c where dec: "decode_socks5_address data atyp ''Trojan UDP'' = Ok (d, c)"
    by (auto simp: trojan_parse_udp_datagram_def and_then_Ok_iff split: if_splits)
  have "decode_socks5_address (data @ ext) atyp ''Trojan UDP'' = Ok (d, c)"
    using decode_socks5_address_mono [OF dec] .
  then show ?thesis using assms dec buf
    by (auto simp: trojan_parse_udp_datagram_def and_then_Ok_iff Let_def nth_append_left drop5_Cons
        split: if_splits)
qed

lemma trojan_parse_total: "trojan_parse_udp_datagram buf \<noteq> Panic"
  using decode_socks5_address_bound decode_socks5_address_total
  by (auto simp: trojan_parse_udp_datagram_def and_then_Panic_iff Let_def split: if_splits)

lemma trojan_parse_Err:
  "trojan_parse_udp_datagram buf = Err e \<Longrightarrow> \<exists>msg. e = Protocol msg"
proof -
  assume a: "trojan_parse_udp_datagram buf = Err e"
  show ?thesis
  proof (cases buf)
    case Nil
    then show ?thesis using a by (auto simp: trojan_parse_udp_datagram_def)
  next
    case (Cons atyp data)
    then show ?thesis using a decode_socks5_address_Err decode_socks5_address_bound
      by (cases "decode_socks5_address data atyp ''Trojan UDP''")
        (auto simp: trojan_parse_udp_datagram_def Let_def split: if_splits)
  qed
qed

section \<open>The relay loop as a function of the bytes received\<close>

text \<open>
  \<open>drain_buf\<close> forgets the accumulator and its cursor: it works on the unconsumed bytes only.  The
  loop of the source refines it, and compaction is invisible.
\<close>

declare trojan_drain.simps [simp del]

function drain_buf :: "'w udp_env \<Rightarrow> bytes \<Rightarrow> 'w \<Rightarrow> bytes res \<times> 'w" where
  "drain_buf env buf w =
     (case trojan_parse_udp_datagram buf of
        Ok (d, payload, consumed) \<Rightarrow>
          if payload = [] then drain_buf env (drop consumed buf) w
          else (case relay_one_datagram env d payload w of
                  (Ok _, w') \<Rightarrow> drain_buf env (drop consumed buf) w'
                | (Err e, w') \<Rightarrow> (Err e, w')
                | (Panic, w') \<Rightarrow> (Panic, w'))
      | Err _ \<Rightarrow> if length buf > 65507 then (Err (Protocol OVERFLOW_MSG), w) else (Ok buf, w)
      | Panic \<Rightarrow> (Panic, w))"
  by pat_completeness auto
termination
  by (relation "measure (\<lambda>(env, buf, w). length buf)")
    (auto dest!: trojan_parse_udp_datagram_consumed)

declare drain_buf.simps [simp del]


lemma trojan_drain_refines:
  assumes "acc_pos \<le> length acc"
  shows "drain_buf env (drop acc_pos acc) w = map_prod (map_res (\<lambda>p. drop p acc)) id (trojan_drain env acc acc_pos w)
     \<and> (\<forall>p w'. trojan_drain env acc acc_pos w = (Ok p, w') \<longrightarrow> p \<le> length acc)"
  using assms
proof (induction env acc acc_pos w rule: trojan_drain.induct)
  case (1 env acc acc_pos w)
  show ?case
  proof (cases "trojan_parse_udp_datagram (drop acc_pos acc)")
    case (Ok r)
    obtain d payload consumed where r: "r = (d, payload, consumed)" by (cases r)
    have le: "acc_pos + consumed \<le> length acc"
      using trojan_parse_udp_datagram_consumed Ok r "1.prems" by fastforce
    show ?thesis
      using "1.IH"(1) [OF _ Ok r [symmetric] refl] "1.IH"(2) [OF _ Ok r [symmetric] refl] "1.prems" le Ok r
      by (subst (1 2) trojan_drain.simps, subst drain_buf.simps)
        (auto simp: add.commute id_def split: prod.splits res.splits)
  next
    case (Err e)
    then obtain msg where "e = Protocol msg" using trojan_parse_Err by blast
    then show ?thesis using Err "1.prems"
      by (subst (1 2) trojan_drain.simps, subst drain_buf.simps) auto
  next
    case Panic
    then show ?thesis using trojan_parse_total by blast
  qed
qed

lemma compact_acc_drop:
  "compact_acc acc acc_pos = (acc', acc_pos') \<Longrightarrow> acc_pos \<le> length acc \<Longrightarrow>
     drop acc_pos' acc' = drop acc_pos acc \<and> acc_pos' \<le> length acc'"
  by (auto simp: compact_acc_def split: if_splits)

fun relay_spec :: "'w udp_env \<Rightarrow> bytes list \<Rightarrow> bytes \<Rightarrow> 'w \<Rightarrow> unit res \<times> 'w" where
  "relay_spec env [] buf w = (Ok (), w)"
| "relay_spec env (c # cs) buf w =
     (case drain_buf env (buf @ c) w of
        (Ok buf', w') \<Rightarrow> relay_spec env cs buf' w'
      | (Err e, w') \<Rightarrow> (Err e, w')
      | (Panic, w') \<Rightarrow> (Panic, w'))"

lemma relay_loop_refines:
  assumes "acc_pos \<le> length acc" "\<forall>c\<in>set cs. c \<noteq> []"
  shows "trojan_relay_loop env (map Chunk cs) acc acc_pos w = relay_spec env cs (drop acc_pos acc) w"
  using assms
proof (induction cs arbitrary: acc acc_pos w)
  case Nil
  show ?case by simp
next
  case (Cons c cs)
  obtain acc' pos' where comp: "compact_acc acc acc_pos = (acc', pos')" by fastforce
  then have pos': "drop pos' acc' = drop acc_pos acc" "pos' \<le> length acc'"
    using compact_acc_drop Cons.prems by blast+
  have ref: "drain_buf env (drop acc_pos acc @ c) w =
        map_prod (map_res (\<lambda>p. drop p (acc' @ c))) id (trojan_drain env (acc' @ c) pos' w)"
    and bnd: "\<And>p w'. trojan_drain env (acc' @ c) pos' w = (Ok p, w') \<Longrightarrow> p \<le> length (acc' @ c)"
    using trojan_drain_refines [of pos' "acc' @ c" env w] pos' by simp_all
  obtain r w' where dr: "trojan_drain env (acc' @ c) pos' w = (r, w')" by fastforce
  then show ?case using comp ref bnd Cons by (cases r) simp_all
qed

lemma drain_buf_append_Ok:
  "drain_buf env buf w = (Ok r, w') \<Longrightarrow> drain_buf env (buf @ c) w = drain_buf env (r @ c) w'"
proof (induction env buf w arbitrary: r w' rule: drain_buf.induct)
  case (1 env buf w)
  show ?case
  proof (cases "trojan_parse_udp_datagram buf")
    case (Ok x)
    obtain d payload consumed where x: "x = (d, payload, consumed)" by (cases x)
    have ok: "trojan_parse_udp_datagram (buf @ c) = Ok (d, payload, consumed)"
      using trojan_parse_mono Ok x by blast
    have le: "consumed \<le> length buf" using trojan_parse_udp_datagram_consumed Ok x by blast
    show ?thesis
      using "1.IH"(1) [OF Ok x [symmetric] refl] "1.IH"(2) [OF Ok x [symmetric] refl] "1.prems" Ok x ok le
      by (auto simp: drain_buf.simps [of env buf w] drain_buf.simps [of env "buf @ c" w]
          split: prod.splits res.splits if_splits)
  next
    case (Err e)
    then show ?thesis using "1.prems" by (auto simp: drain_buf.simps [of env buf w] split: if_splits)
  next
    case Panic
    then show ?thesis using trojan_parse_total by blast
  qed
qed

lemma drain_buf_append_fail:
  "drain_buf env buf w = (x, w') \<Longrightarrow> \<not> is_ok x \<Longrightarrow> x \<noteq> Err (Protocol OVERFLOW_MSG) \<Longrightarrow>
     drain_buf env (buf @ c) w = (x, w')"
proof (induction env buf w arbitrary: x w' rule: drain_buf.induct)
  case (1 env buf w)
  show ?case
  proof (cases "trojan_parse_udp_datagram buf")
    case (Ok y)
    obtain d payload consumed where y: "y = (d, payload, consumed)" by (cases y)
    have ok: "trojan_parse_udp_datagram (buf @ c) = Ok (d, payload, consumed)"
      using trojan_parse_mono Ok y by blast
    have le: "consumed \<le> length buf" using trojan_parse_udp_datagram_consumed Ok y by blast
    show ?thesis
      using "1.IH"(1) [OF Ok y [symmetric] refl] "1.IH"(2) [OF Ok y [symmetric] refl] "1.prems" Ok y ok le
      by (auto simp: drain_buf.simps [of env buf w] drain_buf.simps [of env "buf @ c" w]
          split: prod.splits res.splits if_splits)
  next
    case (Err e)
    then show ?thesis using "1.prems" by (auto simp: drain_buf.simps [of env buf w] split: if_splits)
  next
    case Panic
    then show ?thesis using trojan_parse_total by blast
  qed
qed

lemma relay_spec_concat:
  assumes "relay_spec env (c # cs) buf w = (x, w')" "x \<noteq> Err (Protocol OVERFLOW_MSG)"
  shows "relay_spec env [concat (c # cs)] buf w = (x, w')"
  using assms
proof (induction cs arbitrary: c buf w)
  case Nil
  then show ?case by simp
next
  case (Cons c' cs)
  obtain r w1 where dr: "drain_buf env (buf @ c) w = (r, w1)" by fastforce
  show ?case
  proof (cases r)
    case (Ok b)
    have "relay_spec env [concat (c' # cs)] b w1 = (x, w')"
      using Cons dr Ok by simp
    then show ?thesis using drain_buf_append_Ok [of env "buf @ c" w b w1] dr Ok by simp
  next
    case (Err e)
    then have "x = Err e" "w' = w1" using Cons.prems dr by simp_all
    then show ?thesis using drain_buf_append_fail [OF dr] Err Cons.prems by simp
  next
    case Panic
    then have "x = Panic" "w' = w1" using Cons.prems dr by simp_all
    then show ?thesis using drain_buf_append_fail [OF dr] Panic by simp
  qed
qed

lemma trojan_find_token:
  "find (\<lambda>e. tok_bytes e = t) ts = Some e \<Longrightarrow> e \<in> set ts \<and> tok_bytes e = t"
  by (auto simp: find_Some_iff)

lemma replace_users_tokens:
  "trojan_replace_users sha224 hex us = Ok ts \<Longrightarrow>
     ts = map (\<lambda>u. \<lparr> tok_bytes = as_bytes (compute_token sha224 hex (password u)), tok_user = label u \<rparr>) us"
  by (induction us arbitrary: ts) (auto simp: and_then_Ok_iff Let_def split: if_splits)

lemma replace_users_total:
  "(\<And>x. length (hex (sha224 x)) = TOKEN_LEN) \<Longrightarrow> is_ok (trojan_replace_users sha224 hex us)"
  by (induction us) (auto simp: Let_def compute_token_def is_ok_iff)

lemma handle_trojan_authenticated:
  assumes "trojan_replace_users sha224 hex us = Ok auth" "handle_trojan auth lim stream = Ok r"
  shows "\<exists>request rest u. trojan_decode_request stream = Ok (request, rest) \<and> u \<in> set us \<and>
           tr_token request = as_bytes (compute_token sha224 hex (password u))"
  using assms(2) replace_users_tokens [OF assms(1)]
  by (fastforce simp: handle_trojan_def and_then_Ok_iff ok_or_Ok_iff trojan_validate_token_def find_Some_iff
      in_set_conv_nth)

section \<open>Properties\<close>

text \<open>C29: a client that knows the password of a configured user is admitted: the request header it
  encodes is authenticated, and the connection is dispatched to the encoded destination with
  exactly the bytes that follow the header, under the label of a user with the same token.  The
  digest and hexadecimal functions are arbitrary, provided that tokens have 56 characters.\<close>

theorem trojan_client_is_admitted:
  assumes tok: "\<And>x. length (hex (sha224 x)) = TOKEN_LEN"
    and auth: "trojan_replace_users sha224 hex us = Ok auth" and u: "u \<in> set us"
    and d: "wf_address d" "\<not> is_unspecified_associate_dest d"
    and hdr: "trojan_encode_request (compute_token sha224 hex (password u)) TROJAN_CMD_CONNECT d = Ok hdr"
  shows "\<exists>v\<in>set us. compute_token sha224 hex (password v) = compute_token sha224 hex (password u) \<and>
           handle_trojan auth None (hdr @ payload) = Ok (Dispatch (label v) d payload None, None)"
proof -
  let ?t = "compute_token sha224 hex (password u)"
  have "length ?t = TOKEN_LEN" using tok by (simp add: compute_token_def)
  then have dec: "trojan_decode_request (hdr @ payload) =
      Ok (\<lparr> tr_token = as_bytes ?t, tr_command = TROJAN_CMD_CONNECT, tr_dest = d \<rparr>, payload)"
    using trojan_decode_encode_request [OF d(1) _ _ hdr] by simp
  note ts = replace_users_tokens [OF auth]
  then obtain e where e: "find (\<lambda>e. tok_bytes e = as_bytes ?t) auth = Some e"
    using u by (cases "find (\<lambda>e. tok_bytes e = as_bytes ?t) auth") (auto simp: find_None_iff)
  then have "e \<in> set auth" "tok_bytes e = as_bytes ?t" by (auto dest: trojan_find_token)
  then obtain v where "v \<in> set us" "compute_token sha224 hex (password v) = ?t" "tok_user e = label v"
    using ts by auto
  then show ?thesis using dec e d(2)
    by (intro bexI [of _ v]) (simp_all add: handle_trojan_def trojan_validate_token_def is_trojan_udp_associate_def)
qed

theorem trojan_client_is_admitted_witness:
  "let hex = (\<lambda>x. replicate 56 CHR ''a''); us = [\<lparr> password = ''pw'', label = Some ''alice'' \<rparr>];
       hdr = the_Ok (trojan_encode_request (compute_token id hex ''pw'') TROJAN_CMD_CONNECT (Ipv4 1 80)) in
   \<exists>v\<in>set us. compute_token id hex (password v) = compute_token id hex ''pw'' \<and>
     handle_trojan (the_Ok (trojan_replace_users id hex us)) None (hdr @ [42]) =
       Ok (Dispatch (label v) (Ipv4 1 80) [42] None, None)"
  unfolding Let_def
  using trojan_client_is_admitted [of "\<lambda>x. replicate 56 CHR ''a''" id "[\<lparr> password = ''pw'', label = Some ''alice'' \<rparr>]"
      "the_Ok (trojan_replace_users id (\<lambda>x. replicate 56 CHR ''a'') [\<lparr> password = ''pw'', label = Some ''alice'' \<rparr>])"
      "\<lparr> password = ''pw'', label = Some ''alice'' \<rparr>" "Ipv4 1 80"
      "the_Ok (trojan_encode_request (compute_token id (\<lambda>x. replicate 56 CHR ''a'') ''pw'') TROJAN_CMD_CONNECT (Ipv4 1 80))"
      "[42]"]
  by (simp add: TOKEN_LEN_def compute_token_def trojan_encode_request_def)

text \<open>C3: no connection gets past the Trojan handler without the token of a configured user,
  whatever the limiter says and whatever bytes were sent.\<close>

theorem trojan_rejects_unknown_tokens:
  assumes "trojan_replace_users sha224 hex us = Ok auth"
    and "\<And>u request rest. u \<in> set us \<Longrightarrow> trojan_decode_request stream = Ok (request, rest) \<Longrightarrow>
           tr_token request \<noteq> as_bytes (compute_token sha224 hex (password u))"
  shows "\<not> is_ok (handle_trojan auth lim stream)"
proof
  assume "is_ok (handle_trojan auth lim stream)"
  then obtain r where "handle_trojan auth lim stream = Ok r" by (auto simp: is_ok_iff)
  from handle_trojan_authenticated [OF assms(1) this] assms(2) show False by blast
qed

theorem trojan_rejects_unknown_tokens_witness:
  "\<not> is_ok (handle_trojan [] None (replicate 56 0 @ [13, 10, 1, 1, 1, 2, 3, 4, 0, 80, 13, 10]))"
  using trojan_rejects_unknown_tokens [of id "\<lambda>x. replicate 56 CHR ''a''" "[]" "[]"
      "replicate 56 0 @ [13, 10, 1, 1, 1, 2, 3, 4, 0, 80, 13, 10]" None]
  by simp

text \<open>A UDP datagram that the Trojan encoder accepts is parsed back with its destination,
  payload and length, from any buffer that starts with it.\<close>

lemma trojan_datagram_roundtrip:
  assumes "wf_address d" "trojan_encode_udp_datagram d payload = Ok bs"
  shows "trojan_parse_udp_datagram (bs @ rest) = Ok (d, payload, length bs)"
  using assms by (rule trojan_parse_encode_datagram)

text \<open>C20: how the stream is cut into reads does not matter to the Trojan UDP relay.  If the relay
  does not stop with a buffer overflow, it has the same result and the same effect on the world
  (datagrams sent, replies written) as when all the bytes arrive in a single read.\<close>

theorem trojan_relay_chunking_independent:
  assumes "\<forall>c\<in>set (c0 # cs). c \<noteq> []"
    and "fst (relay_trojan_udp env (map Chunk (c0 # cs)) w) \<noteq> Err (Protocol OVERFLOW_MSG)"
  shows "relay_trojan_udp env (map Chunk (c0 # cs)) w =
         relay_trojan_udp env [Chunk (concat (c0 # cs))] w"
proof (cases "transport_io ''Trojan UDP bind: '' (env_bind env) w")
  case (Pair b w1)
  obtain x w' where run: "relay_spec env (c0 # cs) [] w1 = (x, w')" by fastforce
  have loop: "trojan_relay_loop env (map Chunk xs) [] 0 w1 = relay_spec env xs [] w1"
    if "\<forall>c\<in>set xs. c \<noteq> []" for xs
    using relay_loop_refines [where acc = "[]" and acc_pos = 0 and cs = xs and env = env and w = w1] that
    by (simp only: drop_Nil le0)
  have many: "trojan_relay_loop env (map Chunk (c0 # cs)) [] 0 w1 = (x, w')"
    using loop [OF assms(1)] run by (simp only:)
  have one: "trojan_relay_loop env [Chunk (concat (c0 # cs))] [] 0 w1 = relay_spec env [concat (c0 # cs)] [] w1"
    using loop [of "[concat (c0 # cs)]"] assms(1) by (simp only: list.map) simp
  show ?thesis
  proof (cases b)
    case (Ok u)
    then have "x \<noteq> Err (Protocol OVERFLOW_MSG)"
      using assms(2) many Pair by (simp only: relay_trojan_udp_def io_then_def) simp
    then show ?thesis using relay_spec_concat [OF run] many one Ok Pair
      by (simp only: relay_trojan_udp_def io_then_def) simp
  qed (use Pair in \<open>simp_all add: relay_trojan_udp_def io_then_def\<close>)
qed

text \<open>A world that records the datagrams it is asked to send and never answers, for the witness.\<close>

definition silent_env :: "(bytes \<times> socket_addr) list udp_env" where
  "silent_env = \<lparr> env_bind = (\<lambda>w. (None, w)), env_dns = None,
     env_lookup_host = (\<lambda>_ _ w. (Inl [], w)),
     env_send_to = (\<lambda>data upstream w. (None, w @ [(data, upstream)])),
     env_recv_from = (\<lambda>w. (TimedOut, w)),
     env_write_all = (\<lambda>_ w. (None, w)), env_flush = (\<lambda>w. (None, w)) \<rparr>"

theorem trojan_relay_chunking_independent_witness:
  "relay_trojan_udp silent_env (map Chunk [[1, 8, 8, 8], [8, 0, 53, 0, 1, 13, 10, 9]]) [] =
   relay_trojan_udp silent_env [Chunk (concat [[1, 8, 8, 8], [8, 0, 53, 0, 1, 13, 10, 9]])] []"
proof (rule trojan_relay_chunking_independent)
  have fst1: "from_be [8, 8, 8, 8] = (0x08080808 :: u32)" "from_be [0, 53] = (53 :: u16)" "from_be [0, 1] = (1 :: u16)"
    by code_simp+
  have t: "trojan_parse_udp_datagram [1, 8, 8, 8, 8, 0, 53, 0, 1, 13, 10, 9] = Ok (Ipv4 0x08080808 53, [9], 12)"
    "trojan_parse_udp_datagram [1, 8, 8, 8] = Err (Protocol (''Trojan UDP'' @ '': truncated IPv4 address''))"
    "trojan_parse_udp_datagram [] = Err (Protocol ''Trojan UDP datagram too short'')"
    by (simp_all add: trojan_parse_udp_datagram_def decode_socks5_address_def MAX_UDP_PAYLOAD_LEN_def fst1 Let_def)
  show "fst (relay_trojan_udp silent_env (map Chunk [[1, 8, 8, 8], [8, 0, 53, 0, 1, 13, 10, 9]]) [])
          \<noteq> Err (Protocol OVERFLOW_MSG)"
    by (simp add: relay_trojan_udp_def io_then_def transport_io_def compact_acc_def trojan_drain.simps t
        relay_one_datagram_def exchange_udp_datagram_def io_lift_def silent_env_def)
qed simp

end
