(* ===== verification/Vless.thy ===== *)
theory Vless
  imports Addresses User_Limits
begin

text \<open>
  The VLESS protocol (crates/blackwire-protocol/src/vless): the request codec (codec.rs), the user
  registry (registry.rs) and the inbound handler up to the point where the connection is handed on
  (inbound.rs).

  The parser of the protobuf addons works with a \<^verbatim>\<open>usize\<close> cursor, a 64-bit word that wraps in a
  release build, and its loop is not bounded by anything but that cursor.  It is therefore a
  \<open>partial_function\<close> on words, whose value is \<open>None\<close> when the loop does not end and \<open>Panic\<close> when a
  slice is out of range.  Both happen for headers that the theory exhibits; a header produced by
  the encoder is always read back.
\<close>

section \<open>Constants and data\<close>

definition CMD_TCP :: u8 where "CMD_TCP = 0x01"
definition CMD_UDP :: u8 where "CMD_UDP = 0x02"
definition CMD_MUX :: u8 where "CMD_MUX = 0x03"
definition MUX_COOL_DOMAIN :: string where "MUX_COOL_DOMAIN = ''v1.mux.cool''"
definition VLESS_ATYP_IPV4 :: u8 where "VLESS_ATYP_IPV4 = 0x01"
definition VLESS_ATYP_DOMAIN :: u8 where "VLESS_ATYP_DOMAIN = 0x02"
definition VLESS_ATYP_IPV6 :: u8 where "VLESS_ATYP_IPV6 = 0x03"
definition VLESS_VERSION :: u8 where "VLESS_VERSION = 0x00"

lemmas vless_const_defs [simp] =
  CMD_TCP_def CMD_UDP_def CMD_MUX_def VLESS_ATYP_IPV4_def VLESS_ATYP_DOMAIN_def VLESS_ATYP_IPV6_def
  VLESS_VERSION_def

datatype vless_command = CmdTcp | CmdUdp | CmdMux

record vless_request =
  vl_uuid :: bytes
  vl_command :: vless_command
  vl_dest :: address
  vl_flow :: string

section \<open>Variable-length integers\<close>

function varint_loop :: "bytes \<Rightarrow> u64 \<Rightarrow> u64 \<Rightarrow> nat \<Rightarrow> u64 option \<times> u64" where
  "varint_loop data cursor result shift =
     (if cursor < word_of_nat (length data) then
        let byte = data ! unat cursor;
            cursor = cursor + 1;
            result = result OR push_bit shift (ucast (byte AND 0x7f)) in
        if byte AND 0x80 = 0 then (Some result, cursor)
        else
          let shift = shift + 7 in
          if shift \<ge> 64 then (None, cursor)
          else varint_loop data cursor result shift
      else (None, cursor))"
  by pat_completeness auto
termination by (relation "measure (\<lambda>(data, cursor, result, shift). 64 - shift)") auto

definition read_varint :: "bytes \<Rightarrow> u64 \<Rightarrow> u64 option \<times> u64" where
  "read_varint data cursor = varint_loop data cursor 0 0"

function put_varint :: "bytes \<Rightarrow> u64 \<Rightarrow> bytes" where
  "put_varint buf v =
     (if v \<ge> 0x80 then put_varint (buf @ [ucast v OR 0x80]) (drop_bit 7 v)
      else buf @ [ucast v])"
  by pat_completeness auto
termination
proof (relation "measure (\<lambda>(buf, v). unat v)")
  fix buf :: bytes and v :: u64
  assume "v \<ge> 0x80"
  then have "unat v \<ge> 128" by (simp add: word_le_nat_alt)
  then show "((buf @ [ucast v OR 0x80], drop_bit 7 v), buf, v) \<in> measure (\<lambda>(buf, v). unat v)"
    by (simp add: unat_drop_bit del: drop_bit_eq_div)
qed simp

section \<open>Addons\<close>

partial_function (option) parse_flow_loop :: "bytes \<Rightarrow> u64 \<Rightarrow> string res option" where
  "parse_flow_loop data cursor =
     (if cursor < word_of_nat (length data) then
        (case read_varint data cursor of
           (None, _) \<Rightarrow> Some (Ok [])
         | (Some tag, cursor) \<Rightarrow>
             let field_number = (ucast (drop_bit 3 tag) :: u32);
                 wire_type = (ucast (tag AND 0x07) :: u8) in
             if wire_type = 2 then
               (case read_varint data cursor of
                  (None, _) \<Rightarrow> Some (Ok [])
                | (Some len, cursor) \<Rightarrow>
                    if cursor + len > word_of_nat (length data) then Some (Ok [])
                    else if field_number = 1 then
                      (case slice data (unat cursor) (unat (cursor + len)) of
                         Ok raw \<Rightarrow>
                           (case from_utf8 raw of
                              Some s \<Rightarrow> Some (Ok s)
                            | None \<Rightarrow> parse_flow_loop data (cursor + len))
                       | _ \<Rightarrow> Some Panic)
                    else parse_flow_loop data (cursor + len))
             else if wire_type = 0 then
               (case read_varint data cursor of
                  (None, _) \<Rightarrow> Some (Ok [])
                | (Some _, cursor) \<Rightarrow> parse_flow_loop data cursor)
             else if wire_type = 1 then parse_flow_loop data (saturating_add cursor 8)
             else if wire_type = 5 then parse_flow_loop data (saturating_add cursor 4)
             else Some (Ok []))
      else Some (Ok []))"

definition parse_flow_from_addons :: "bytes \<Rightarrow> string res option" where
  "parse_flow_from_addons data = parse_flow_loop data 0"

section \<open>Request codec\<close>

definition read_address :: "bytes \<Rightarrow> u8 \<Rightarrow> u16 \<Rightarrow> (address \<times> bytes) res" where
  "read_address reader atyp p =
     (if atyp = VLESS_ATYP_IPV4 then
        and_then (read_exact 4 reader) (\<lambda>(buf, reader). Ok (Ipv4 (from_be buf) p, reader))
      else if atyp = VLESS_ATYP_IPV6 then
        and_then (read_exact 16 reader) (\<lambda>(buf, reader). Ok (Ipv6 (from_be buf) p, reader))
      else if atyp = VLESS_ATYP_DOMAIN then
        and_then (read_u8 reader) (\<lambda>(len, reader).
        and_then (read_exact (unat len) reader) (\<lambda>(name, reader).
        and_then (ok_or (from_utf8 name) (Protocol ''domain name is not valid UTF-8'')) (\<lambda>domain.
        Ok (Domain domain p, reader))))
      else Err (Protocol (''unknown VLESS ATYP '' @ fmt_hex atyp)))"

definition command_of_byte :: "u8 \<Rightarrow> vless_command res" where
  "command_of_byte b =
     (if b = CMD_TCP then Ok CmdTcp
      else if b = CMD_UDP then Ok CmdUdp
      else if b = CMD_MUX then Ok CmdMux
      else Err (Protocol (''unknown VLESS CMD '' @ fmt_hex b)))"

fun byte_of_command :: "vless_command \<Rightarrow> u8" where
  "byte_of_command CmdTcp = CMD_TCP"
| "byte_of_command CmdUdp = CMD_UDP"
| "byte_of_command CmdMux = CMD_MUX"

definition vless_decode_request :: "bytes \<Rightarrow> (vless_request \<times> bytes) res option" where
  "vless_decode_request reader =
     div_then (Some (read_u8 reader)) (\<lambda>(ver, reader).
     if ver \<noteq> VLESS_VERSION
     then Some (Err (Protocol (''VLESS version '' @ fmt_hex ver @ '' not supported'')))
     else
       div_then (Some (read_exact 16 reader)) (\<lambda>(uuid, reader).
       div_then (Some (read_u8 reader)) (\<lambda>(addons_len, reader).
       div_then
         (if unat addons_len > 0 then
            div_then (Some (read_exact (unat addons_len) reader)) (\<lambda>(addons_buf, reader).
            div_then (parse_flow_from_addons addons_buf) (\<lambda>flow. Some (Ok (flow, reader))))
          else Some (Ok ([], reader))) (\<lambda>(flow, reader).
       div_then (Some (read_u8 reader)) (\<lambda>(cmd_byte, reader).
       div_then (Some (command_of_byte cmd_byte)) (\<lambda>cmd.
       div_then
         (if cmd = CmdMux then Some (Ok (Domain MUX_COOL_DOMAIN 0, reader))
          else
            div_then (Some (read_u16 reader)) (\<lambda>(p, reader).
            div_then (Some (read_u8 reader)) (\<lambda>(atyp, reader).
            Some (read_address reader atyp p)))) (\<lambda>(d, reader).
       Some (Ok (\<lparr> vl_uuid = uuid, vl_command = cmd, vl_dest = d, vl_flow = flow \<rparr>, reader)))))))))"

fun put_address :: "bytes \<Rightarrow> address \<Rightarrow> bytes res" where
  "put_address buf (Ipv4 ip _) = Ok (buf @ [VLESS_ATYP_IPV4] @ to_be 4 ip)"
| "put_address buf (Ipv6 ip _) = Ok (buf @ [VLESS_ATYP_IPV6] @ to_be 16 ip)"
| "put_address buf (Domain name _) =
     and_then (domain_wire_len name) (\<lambda>len. Ok (buf @ [VLESS_ATYP_DOMAIN, len] @ as_bytes name))"

definition vless_encode_request :: "bytes \<Rightarrow> string \<Rightarrow> vless_command \<Rightarrow> address \<Rightarrow> bytes res" where
  "vless_encode_request uuid flow cmd d =
     (let buf = [VLESS_VERSION] @ uuid in
      and_then
        (if flow = [] then Ok (buf @ [0])
         else
           let addons = [0x0A];
               addons = put_varint addons (word_of_nat (length (as_bytes flow)));
               addons = addons @ as_bytes flow in
           if length addons > 255 then Err (Protocol ''VLESS addons too long'')
           else Ok (buf @ [word_of_nat (length addons)] @ addons)) (\<lambda>buf.
      let buf = buf @ [byte_of_command cmd] in
      if cmd \<noteq> CmdMux then put_address (buf @ to_be 2 (port d)) d
      else Ok buf))"

definition encode_address_port :: "address \<Rightarrow> bytes res" where
  "encode_address_port d = put_address (to_be 2 (port d)) d"

definition address_port_wire_len :: "bytes \<Rightarrow> nat res" where
  "address_port_wire_len data =
     (if length data < 4 then Err (Protocol ''VLESS UDP address too short'')
      else
        and_then (idx data 2) (\<lambda>atyp.
        and_then
          (if atyp = VLESS_ATYP_IPV4 then Ok 4
           else if atyp = VLESS_ATYP_IPV6 then Ok 16
           else if atyp = VLESS_ATYP_DOMAIN then
             and_then (idx data 3) (\<lambda>b.
             let name_len = unat b in
             if length data < 4 + name_len then Err (Protocol ''VLESS UDP address truncated'')
             else
               and_then (slice data 4 (4 + name_len)) (\<lambda>raw.
               and_then (ok_or (from_utf8 raw) (Protocol ''domain name is not valid UTF-8'')) (\<lambda>name.
               and_then (domain_wire_len name) (\<lambda>_.
               Ok (1 + name_len)))))
           else Err (Protocol (''VLESS UDP: unsupported address type '' @ fmt_hex atyp))) (\<lambda>addr_len.
        Ok (2 + 1 + addr_len))))"

definition read_err :: "proxy_error \<Rightarrow> proxy_error" where
  "read_err e = Protocol ''failed to fill whole buffer''"

definition decode_address_sync :: "bytes \<Rightarrow> u8 \<Rightarrow> u16 \<Rightarrow> address res" where
  "decode_address_sync cursor atyp p =
     (if atyp = VLESS_ATYP_IPV4 then
        and_then (map_err (read_exact 4 cursor) read_err) (\<lambda>(buf, cursor). Ok (Ipv4 (from_be buf) p))
      else if atyp = VLESS_ATYP_IPV6 then
        and_then (map_err (read_exact 16 cursor) read_err) (\<lambda>(buf, cursor). Ok (Ipv6 (from_be buf) p))
      else if atyp = VLESS_ATYP_DOMAIN then
        and_then (map_err (read_u8 cursor) read_err) (\<lambda>(len, cursor).
        and_then (map_err (read_exact (unat len) cursor) read_err) (\<lambda>(name, cursor).
        and_then (ok_or (from_utf8 name) (Protocol ''domain name is not valid UTF-8'')) (\<lambda>domain.
        Ok (Domain domain p))))
      else Err (Protocol (''unknown VLESS ATYP '' @ fmt_hex atyp)))"

definition decode_address_port_with_len :: "bytes \<Rightarrow> (address \<times> nat) res" where
  "decode_address_port_with_len data =
     (if length data < 4 then Err (Protocol ''VLESS UDP address too short'')
      else
        and_then (slice data 0 2) (\<lambda>p.
        and_then (idx data 2) (\<lambda>atyp.
        and_then (address_port_wire_len data) (\<lambda>consumed.
        if length data < consumed then Err (Protocol ''VLESS UDP address truncated'')
        else
          and_then (slice data 3 (length data)) (\<lambda>cursor.
          and_then (decode_address_sync cursor atyp (from_be p)) (\<lambda>addr.
          Ok (addr, consumed)))))))"

definition decode_address_port :: "bytes \<Rightarrow> address res" where
  "decode_address_port data = and_then (decode_address_port_with_len data) (\<lambda>(addr, _). Ok addr)"

definition encode_response :: bytes where
  "encode_response = [VLESS_VERSION, 0x00]"

section \<open>User registry\<close>

record vless_user =
  vu_email :: string
  vu_uuid :: bytes
  vu_flow :: string

type_synonym vless_registry = "bytes \<rightharpoonup> vless_user"

definition normalise_uuid :: "bytes \<Rightarrow> bytes" where
  "normalise_uuid uuid =
     (let uuid = uuid[6 := (uuid ! 6 AND 0x0F) OR 0x40] in
      uuid[8 := (uuid ! 8 AND 0x3F) OR 0x80])"

definition add_user :: "vless_user \<Rightarrow> vless_registry \<Rightarrow> vless_registry" where
  "add_user user r = r(normalise_uuid (vu_uuid user) \<mapsto> user)"

definition vless_validate :: "vless_registry \<Rightarrow> bytes \<Rightarrow> vless_user option" where
  "vless_validate r uuid = r (normalise_uuid uuid)"

definition clear_users :: "vless_registry \<Rightarrow> vless_registry" where
  "clear_users r = Map.empty"

definition remove_user_by_email :: "string \<Rightarrow> vless_registry \<Rightarrow> bool \<times> vless_registry" where
  "remove_user_by_email email r =
     ((\<exists>k\<in>dom r. vu_email (the (r k)) = email),
      (\<lambda>k. case r k of Some u \<Rightarrow> if vu_email u = email then None else Some u | None \<Rightarrow> None))"

section \<open>Inbound handler\<close>

text \<open>
  The outcome of \<^verbatim>\<open>handle\<close>: drop the connection, forward everything received so far and the rest of
  the stream to the fallback backend, or serve the request after writing the response header.  The
  recording reader keeps every byte the decoder consumed, so what the fallback receives is the
  consumed prefix followed by the unread rest; a header that could not be parsed is forwarded from
  its first byte.  Writes to the client are assumed to succeed.
\<close>

datatype vless_outcome =
    Dropped
  | FallbackTo socket_addr bytes
  | ServeUdp string bytes "permit option"
  | ServeMux string bool bytes "permit option"
  | ServeTcp string bool address bytes "permit option"

fun is_mux_cool_dest :: "address \<Rightarrow> bool" where
  "is_mux_cool_dest (Domain host _) = (host = MUX_COOL_DOMAIN)"
| "is_mux_cool_dest _ = False"

definition is_mux_request :: "vless_command \<Rightarrow> address \<Rightarrow> bool" where
  "is_mux_request cmd d = (cmd = CmdMux \<or> is_mux_cool_dest d)"

definition do_fallback :: "socket_addr option \<Rightarrow> bytes \<Rightarrow> bytes \<Rightarrow> vless_outcome" where
  "do_fallback fb stream header_bytes =
     (case fb of
        None \<Rightarrow> Dropped
      | Some addr \<Rightarrow> FallbackTo addr (header_bytes @ stream))"

definition reject_or_fallback :: "socket_addr option \<Rightarrow> bytes \<Rightarrow> bytes \<Rightarrow> vless_outcome" where
  "reject_or_fallback fb stream header_bytes =
     (case fb of
        Some _ \<Rightarrow> do_fallback fb stream header_bytes
      | None \<Rightarrow> Dropped)"

definition handle_vless ::
  "vless_registry \<Rightarrow> socket_addr option \<Rightarrow> limiter option \<Rightarrow> bytes \<Rightarrow>
     (vless_outcome \<times> limiter option) res option" where
  "handle_vless registry fb user_limiter stream =
     (case vless_decode_request stream of
        None \<Rightarrow> None
      | Some Panic \<Rightarrow> Some Panic
      | Some (Err e) \<Rightarrow> Some (Ok (do_fallback fb [] stream, user_limiter))
      | Some (Ok (req, rest)) \<Rightarrow>
          let header_buf = (if fb = None then [] else take (length stream - length rest) stream) in
          (case vless_validate registry (vl_uuid req) of
             None \<Rightarrow> Some (Ok (reject_or_fallback fb rest header_buf, user_limiter))
           | Some user \<Rightarrow>
               if vl_flow req \<noteq> [] \<and> vl_flow req \<noteq> vu_flow user
               then Some (Ok (reject_or_fallback fb rest header_buf, user_limiter))
               else
                 let (permit, user_limiter) =
                   (case user_limiter of
                      None \<Rightarrow> (Some None, None)
                    | Some l \<Rightarrow> (case try_acquire (Some (vu_email user)) l of
                                    (Some p, l') \<Rightarrow> (Some (Some p), Some l')
                                  | (None, l') \<Rightarrow> (None, Some l'))) in
                 (case permit of
                    None \<Rightarrow> Some (Ok (Dropped, user_limiter))
                  | Some permit \<Rightarrow>
                      if vl_command req = CmdUdp
                      then Some (Ok (ServeUdp (vu_email user) rest permit, user_limiter))
                      else
                        let vision = (vl_flow req = ''xtls-rprx-vision'') in
                        if is_mux_request (vl_command req) (vl_dest req)
                        then Some (Ok (ServeMux (vu_email user) vision rest permit, user_limiter))
                        else Some (Ok (ServeTcp (vu_email user) vision (vl_dest req) rest permit,
                                       user_limiter)))))"

section \<open>Variable-length integers are read back\<close>

declare varint_loop.simps [simp del] put_varint.simps [simp del]

lemma put_varint_append: "put_varint (xs @ ys) v = xs @ put_varint ys v"
  by (induction ys v rule: put_varint.induct)
    (simp add: put_varint.simps [of "xs @ _"] put_varint.simps)

lemma bit_u8_masks: "bit (0x7f :: int) n \<longleftrightarrow> n < 7" "bit (0x80 :: int) n \<longleftrightarrow> n = 7"
proof -
  have "(mask 7 :: int) = 0x7f" by (simp add: mask_eq_exp_minus_1)
  then show "bit (0x7f :: int) n \<longleftrightarrow> n < 7" using bit_mask_iff [of 7 n, where 'a = int] by auto
  show "bit (0x80 :: int) n \<longleftrightarrow> n = 7" using bit_exp_iff [of 7 n, where 'a = int] by auto
qed

lemma varint_bytes:
  fixes v :: u64
  shows "ucast ((ucast v :: u8) AND 0x7f) = take_bit 7 v"
    and "ucast (((ucast v :: u8) OR 0x80) AND 0x7f) = take_bit 7 v"
    and "((ucast v :: u8) OR 0x80) AND 0x80 \<noteq> 0"
    and "v < 0x80 \<Longrightarrow> (ucast v :: u8) AND 0x80 = 0"
proof -
  have m: "x AND 0x7f = take_bit 7 x" "(x OR 0x80) AND 0x7f = take_bit 7 x" for x :: u8
    by (rule bit_word_eqI, auto simp: bit_simps bit_u8_masks)+
  show "ucast ((ucast v :: u8) AND 0x7f) = take_bit 7 v"
    unfolding m by (rule bit_word_eqI) (auto simp: bit_simps)
  show "ucast (((ucast v :: u8) OR 0x80) AND 0x7f) = take_bit 7 v"
    unfolding m by (rule bit_word_eqI) (auto simp: bit_simps)
  have "bit (((ucast v :: u8) OR 0x80) AND 0x80) 7"
    by (simp add: bit_simps bit_u8_masks)
  then show "((ucast v :: u8) OR 0x80) AND 0x80 \<noteq> 0" by auto
  assume "v < 0x80"
  then have "unat v < 2 ^ 7" by (simp add: word_less_nat_alt)
  then have "take_bit 7 v = v" by (rule take_bit_small)
  then have "\<not> bit v 7" by (metis bit_take_bit_iff less_irrefl)
  then show "(ucast v :: u8) AND 0x80 = 0"
    by (intro bit_word_eqI) (auto simp: bit_simps bit_u8_masks)
qed

lemma varint_combine:
  "r OR push_bit s (take_bit 7 v) OR push_bit (s + 7) (drop_bit 7 v) = r OR push_bit s (v :: u64)"
proof (rule bit_word_eqI)
  fix n assume "n < LENGTH(64)"
  then show "bit (r OR push_bit s (take_bit 7 v) OR push_bit (s + 7) (drop_bit 7 v)) n =
      bit (r OR push_bit s v) n"
    by (cases "n < s + 7") (auto simp: bit_simps)
qed

lemma put_varint_unfold:
  "put_varint [] v = (if v \<ge> 0x80 then (ucast v OR 0x80) # put_varint [] (drop_bit 7 v) else [ucast v])"
  using put_varint_append [of "[ucast v OR 0x80]" "[]"] by (simp add: put_varint.simps [of "[]" v])

lemma varint_loop_step:
  assumes "i < length data" "length data < 2 ^ 63"
  shows "varint_loop data (word_of_nat i) r s =
     (let r' = r OR push_bit s (ucast (data ! i AND 0x7f)) in
      if data ! i AND 0x80 = 0 then (Some r', word_of_nat (Suc i))
      else if s + 7 \<ge> 64 then (None, word_of_nat (Suc i))
      else varint_loop data (word_of_nat (Suc i)) r' (s + 7))"
proof -
  have "unat (word_of_nat i :: u64) = i" "unat (word_of_nat (length data) :: u64) = length data"
    using assms by (simp_all add: unat_of_nat)
  then show ?thesis using assms(1)
    by (subst varint_loop.simps) (simp add: word_less_nat_alt Let_def add.commute)
qed

lemma varint_loop_put:
  assumes "length (pre @ put_varint [] v @ rest) < 2 ^ 63" "unat v < 2 ^ (64 - s)" "s < 64"
  shows "varint_loop (pre @ put_varint [] v @ rest) (word_of_nat (length pre)) r s =
           (Some (r OR push_bit s v), word_of_nat (length pre + length (put_varint [] v)))"
  using assms
proof (induction "unat v" arbitrary: v pre r s rule: less_induct)
  case less
  show ?case
  proof (cases "v \<ge> 0x80")
    case True
    let ?b = "ucast v OR 0x80 :: u8" and ?v = "drop_bit 7 v"
    have un: "put_varint [] v = ?b # put_varint [] ?v" using True by (simp add: put_varint_unfold [of v])
    have v128: "128 \<le> unat v" using True by (simp add: word_le_nat_alt)
    have s7: "s + 7 < 64"
    proof (rule ccontr)
      assume "\<not> s + 7 < 64"
      then have "64 - s \<le> 7" by simp
      then have "(2::nat) ^ (64 - s) \<le> 2 ^ 7" by (intro power_increasing) simp_all
      then show False using less.prems(2) v128 by simp
    qed
    have "unat ?v < 2 ^ (64 - (s + 7))"
    proof -
      have "64 - s = (64 - (s + 7)) + 7" using s7 by simp
      then have "(2::nat) ^ (64 - s) = 2 ^ (64 - (s + 7)) * 2 ^ 7" by (simp only: power_add)
      then show ?thesis using less.prems(2) by (simp add: unat_drop_bit less_mult_imp_div_less)
    qed
    moreover have "unat ?v < unat v" using v128 by (simp add: unat_drop_bit)
    moreover have "length ((pre @ [?b]) @ put_varint [] ?v @ rest) < 2 ^ 63"
      using less.prems(1) un by simp
    ultimately have ih: "varint_loop ((pre @ [?b]) @ put_varint [] ?v @ rest)
          (word_of_nat (length (pre @ [?b]))) r' (s + 7) =
        (Some (r' OR push_bit (s + 7) ?v), word_of_nat (length (pre @ [?b]) + length (put_varint [] ?v)))" for r'
      using less.hyps s7 by blast
    let ?data = "pre @ put_varint [] v @ rest"
    have "varint_loop ?data (word_of_nat (length pre)) r s =
        varint_loop ?data (word_of_nat (Suc (length pre))) (r OR push_bit s (take_bit 7 v)) (s + 7)"
      using varint_loop_step [of "length pre" ?data r s] less.prems(1) s7 un varint_bytes(2,3) [of v]
      by (simp add: Let_def)
    then show ?thesis
      using ih [of "r OR push_bit s (take_bit 7 v)"] un varint_combine [of r s v]
      by (simp add: or.assoc)
  next
    case False
    then have un: "put_varint [] v = [ucast v]" and lt: "v < 0x80" by (simp_all add: put_varint_unfold [of v])
    have "unat v < 2 ^ 7" using lt by (simp add: word_less_nat_alt)
    then have tb: "take_bit 7 v = v" by (rule take_bit_small)
    show ?thesis
      using varint_loop_step [of "length pre" "pre @ put_varint [] v @ rest" r s] less.prems(1) un
        varint_bytes(1) [of v] varint_bytes(4) [OF lt] tb
      by (simp add: Let_def)
  qed
qed

lemma read_varint_put:
  "length (pre @ put_varint [] v @ rest) < 2 ^ 63 \<Longrightarrow>
     read_varint (pre @ put_varint [] v @ rest) (word_of_nat (length pre)) =
       (Some v, word_of_nat (length pre + length (put_varint [] v)))"
  using varint_loop_put [of pre v rest 0 0] unsigned_less [where w = v and 'a = nat]
  by (simp add: read_varint_def)

section \<open>Codec lemmas\<close>

lemma unat_add_of_nat:
  "a + b < 2 ^ 63 \<Longrightarrow> (word_of_nat a :: u64) + word_of_nat b = word_of_nat (a + b)"
  by simp

lemma unat_of_nat_u64: "n < 2 ^ 63 \<Longrightarrow> unat (word_of_nat n :: u64) = n"
  by (simp add: unat_of_nat)

lemma parse_flow_encoded:
  assumes "rust_string flow" "length (put_varint [0x0A] (word_of_nat (length flow)) @ as_bytes flow) \<le> 255"
  shows "parse_flow_from_addons (put_varint [0x0A] (word_of_nat (length flow)) @ as_bytes flow) = Some (Ok flow)"
proof -
  let ?n = "word_of_nat (length flow) :: u64"
  let ?pv = "put_varint [] ?n"
  let ?data = "[0x0A] @ ?pv @ as_bytes flow"
  have data: "put_varint [0x0A] ?n @ as_bytes flow = ?data"
    using put_varint_append [of "[0x0A]" "[]" ?n] by simp
  have small: "length ?data \<le> 255" using assms(2) unfolding data .
  have tag: "read_varint ?data 0 = (Some 10, 1)"
    using read_varint_put [of "[]" 10 "?pv @ as_bytes flow"] small
    by (simp add: put_varint_unfold [of 10])
  have len: "read_varint ?data 1 = (Some ?n, word_of_nat (1 + length ?pv))"
    using read_varint_put [of "[0x0A]" ?n "as_bytes flow"] small by simp
  have lt: "(0 :: u64) < word_of_nat (length ?data)"
    using small by (simp add: word_less_nat_alt unat_of_nat_u64 del: of_nat_Suc of_nat_add)
  have sum: "word_of_nat (1 + length ?pv) + ?n = (word_of_nat (length ?data) :: u64)" by simp
  have cur: "unat (word_of_nat (1 + length ?pv) :: u64) = 1 + length ?pv"
    "unat (word_of_nat (length ?data) :: u64) = length ?data"
    using small by (simp_all add: unat_of_nat_u64 del: of_nat_Suc of_nat_add)
  have sl: "slice ?data (1 + length ?pv) (length ?data) = Ok (as_bytes flow)"
    by (simp add: slice_def)
  have fields: "ucast (drop_bit 3 (10 :: u64)) = (1 :: u32)" "ucast ((10 :: u64) AND 7) = (2 :: u8)"
    by simp_all
  show ?thesis
    unfolding data parse_flow_from_addons_def
    by (subst parse_flow_loop.simps)
      (simp only: lt tag len sum cur sl fields Let_def if_True if_False prod.case option.case res.case
        less_irrefl from_utf8_as_bytes [OF assms(1)] refl simp_thms)
qed

lemma read_address_put:
  assumes "wf_address a" "put_address [] a = Ok bs"
  shows "bs \<noteq> [] \<and> read_address (tl bs @ rest) (hd bs) (port a) = Ok (a, rest)"
  using assms by (cases a) (auto simp: read_address_def and_then_Ok_iff domain_wire_len_Ok_iff)

lemma put_address_buf: "put_address buf a = and_then (put_address [] a) (\<lambda>bs. Ok (buf @ bs))"
  by (cases a) (auto simp: and_then_assoc)

lemma put_address_nonempty: "put_address [] a = Ok bs \<Longrightarrow> 2 \<le> length bs"
  by (cases a) (auto simp: and_then_Ok_iff)

lemma vless_dec_enc:
  assumes "wf_address a" "encode_address_port a = Ok bs"
  shows "decode_address_port_with_len (bs @ rest) = Ok (a, length bs)"
  using assms
  by (cases a)
    (auto simp: encode_address_port_def decode_address_port_with_len_def address_port_wire_len_def
      decode_address_sync_def and_then_Ok_iff domain_wire_len_def nth_append split: if_splits)

lemma vless_dec_bound: "decode_address_port_with_len buf = Ok (a, n) \<Longrightarrow> n \<le> length buf"
  by (auto simp: decode_address_port_with_len_def and_then_Ok_iff split: if_splits)

interpretation vless_addr: wire_codec encode_address_port decode_address_port_with_len wf_address
  by unfold_locales (simp_all add: vless_dec_enc vless_dec_bound)

lemma vless_decode_encode_request:
  assumes uuid: "length uuid = 16" and flow: "rust_string flow" and d: "wf_address d"
    and enc: "vless_encode_request uuid flow cmd d = Ok bs"
  shows "vless_decode_request (bs @ rest) =
     Some (Ok (\<lparr> vl_uuid = uuid, vl_command = cmd,
                 vl_dest = (if cmd = CmdMux then Domain MUX_COOL_DOMAIN 0 else d), vl_flow = flow \<rparr>, rest))"
proof -
  let ?addons = "if flow = [] then [] else put_varint [0x0A] (word_of_nat (length flow)) @ as_bytes flow"
  let ?tl = "if cmd = CmdMux then Ok [] else and_then (put_address [] d) (\<lambda>a. Ok (to_be 2 (port d) @ a))"
  from enc obtain tl where tl: "?tl = Ok tl" and len: "length ?addons \<le> 255"
    and bs: "bs = [0] @ uuid @ [word_of_nat (length ?addons)] @ ?addons @ [byte_of_command cmd] @ tl"
    by (auto simp: vless_encode_request_def Let_def put_address_buf [of "x # xs" for x xs] and_then_Ok_iff
        split: if_splits)
  have cmd: "command_of_byte (byte_of_command cmd) = Ok cmd"
    by (cases cmd) (simp_all add: command_of_byte_def)
  have al: "unat (word_of_nat (length ?addons) :: u8) = length ?addons" using len by simp
  have fl: "parse_flow_from_addons ?addons = Some (Ok flow)" if "flow \<noteq> []"
    using parse_flow_encoded [OF flow] len that by simp
  have addons: "(if length ?addons > 0 then
            div_then (Some (read_exact (length ?addons) (?addons @ r))) (\<lambda>(addons_buf, reader).
            div_then (parse_flow_from_addons addons_buf) (\<lambda>flow. Some (Ok (flow, reader))))
          else Some (Ok ([], ?addons @ r))) = Some (Ok (flow, r))" for r
    using fl by auto
  have dest: "(if cmd = CmdMux then Some (Ok (Domain MUX_COOL_DOMAIN 0, tl @ rest))
          else
            div_then (Some (read_u16 (tl @ rest))) (\<lambda>(p, reader).
            div_then (Some (read_u8 reader)) (\<lambda>(atyp, reader).
            Some (read_address reader atyp p)))) =
        Some (Ok (if cmd = CmdMux then Domain MUX_COOL_DOMAIN 0 else d, rest))"
  proof (cases "cmd = CmdMux")
    case True
    then show ?thesis using tl by simp
  next
    case False
    with tl obtain a where a: "put_address [] d = Ok a" "tl = to_be 2 (port d) @ a"
      by (auto simp: and_then_Ok_iff)
    then obtain atyp data where "a = atyp # data" by (cases a) (auto dest: put_address_nonempty)
    then show ?thesis using False a read_address_put [OF d a(1), of rest] by simp
  qed
  have dec: "vless_decode_request (([0] @ uuid @ [n] @ addons @ [byte_of_command cmd] @ tl) @ rest) =
      Some (Ok (\<lparr> vl_uuid = uuid, vl_command = cmd,
                  vl_dest = (if cmd = CmdMux then Domain MUX_COOL_DOMAIN 0 else d), vl_flow = flow \<rparr>, rest))"
    if "unat n = length addons"
      "\<And>r. (if length addons > 0 then
              div_then (Some (read_exact (length addons) (addons @ r))) (\<lambda>(addons_buf, reader).
              div_then (parse_flow_from_addons addons_buf) (\<lambda>flow. Some (Ok (flow, reader))))
            else Some (Ok ([], addons @ r))) = Some (Ok (flow, r))" for n :: u8 and addons
    unfolding vless_decode_request_def
    using that uuid cmd dest by (simp only: append_assoc append_Cons append_Nil read_u8_Cons div_then.simps
        read_exact_append prod.case vless_const_defs simp_thms if_False)
  show ?thesis unfolding bs by (rule dec [OF al addons])
qed

section \<open>Addons that make the parser fail\<close>

definition looping_addons :: bytes where
  "looping_addons = [0x12, 0xF5, 0xFF, 0xFF, 0xFF, 0xFF, 0xFF, 0xFF, 0xFF, 0xFF, 0x01]"

lemma looping_addons_step:
  "read_varint looping_addons 0 = (Some 0x12, 1)"
  "read_varint looping_addons 1 = (Some (-11), 11)"
  by code_simp+

lemma parse_flow_looping: "parse_flow_from_addons looping_addons = None"
proof -
  have "d \<noteq> looping_addons \<or> c \<noteq> 0" if "parse_flow_loop d c = Some y" for d c y
  proof (rule parse_flow_loop.raw_induct [where P = "\<lambda>d c y. d \<noteq> looping_addons \<or> c \<noteq> 0", OF _ that])
    fix loop d c y
    assume ih: "\<And>d c y. loop d c = Some y \<Longrightarrow> d \<noteq> looping_addons \<or> c \<noteq> 0"
      and body: "(if c < word_of_nat (length d) then
        (case read_varint d c of
           (None, _) \<Rightarrow> Some (Ok [])
         | (Some tag, c) \<Rightarrow>
             let field_number = (ucast (drop_bit 3 tag) :: u32);
                 wire_type = (ucast (tag AND 0x07) :: u8) in
             if wire_type = 2 then
               (case read_varint d c of
                  (None, _) \<Rightarrow> Some (Ok [])
                | (Some len, c) \<Rightarrow>
                    if c + len > word_of_nat (length d) then Some (Ok [])
                    else if field_number = 1 then
                      (case slice d (unat c) (unat (c + len)) of
                         Ok raw \<Rightarrow>
                           (case from_utf8 raw of Some s \<Rightarrow> Some (Ok s) | None \<Rightarrow> loop d (c + len))
                       | _ \<Rightarrow> Some Panic)
                    else loop d (c + len))
             else if wire_type = 0 then
               (case read_varint d c of (None, _) \<Rightarrow> Some (Ok []) | (Some _, c) \<Rightarrow> loop d c)
             else if wire_type = 1 then loop d (saturating_add c 8)
             else if wire_type = 5 then loop d (saturating_add c 4)
             else Some (Ok []))
      else Some (Ok [])) = Some y"
    have len: "length looping_addons = 11" by (simp add: looping_addons_def)
    show "d \<noteq> looping_addons \<or> c \<noteq> 0"
    proof (rule ccontr)
      assume "\<not> (d \<noteq> looping_addons \<or> c \<noteq> 0)"
      then have "loop looping_addons 0 = Some y"
        using body len by (simp add: looping_addons_step Let_def)
      then show False using ih by blast
    qed
  qed
  then show ?thesis unfolding parse_flow_from_addons_def by (cases "parse_flow_loop looping_addons 0") auto
qed

definition panicking_addons :: bytes where
  "panicking_addons = [0x0A, 0xFF, 0xFF, 0xFF, 0xFF, 0xFF, 0xFF, 0xFF, 0xFF, 0xFF, 0x01]"

lemma panicking_addons_step:
  "read_varint panicking_addons 0 = (Some 0x0A, 1)"
  "read_varint panicking_addons 1 = (Some (-1), 11)"
  by code_simp+

lemma parse_flow_panicking: "parse_flow_from_addons panicking_addons = Some Panic"
proof -
  have "length panicking_addons = 11" by (simp add: panicking_addons_def)
  then show ?thesis unfolding parse_flow_from_addons_def
    by (subst parse_flow_loop.simps) (simp add: panicking_addons_step Let_def slice_def)
qed

section \<open>The decoder consumes a prefix\<close>

lemma div_then_Ok_iff: "div_then m f = Some (Ok y) \<longleftrightarrow> (\<exists>x. m = Some (Ok x) \<and> f x = Some (Ok y))"
  by (cases "(m, f)" rule: div_then.cases) auto

lemma read_address_suffix: "read_address s atyp p = Ok (a, rest) \<Longrightarrow> suffix rest s"
  by (auto simp: read_address_def and_then_Ok_iff read_exact_Ok_iff read_u8_Ok_iff
      intro: suffix_ConsI suffix_appendI split: if_splits)

lemma read_u16_suffix: "read_u16 s = Ok (a, rest) \<Longrightarrow> suffix rest s"
  by (auto simp: read_u16_def and_then_Ok_iff read_exact_Ok_iff intro: suffix_appendI)

lemma vless_decode_suffix: "vless_decode_request s = Some (Ok (req, rest)) \<Longrightarrow> suffix rest s"
  unfolding vless_decode_request_def
  by (auto simp: div_then_Ok_iff read_exact_Ok_iff read_u8_Ok_iff
      dest!: read_u16_suffix read_address_suffix split: if_splits
      intro!: suffix_ConsI suffix_appendI elim: suffix_order.trans suffix_ConsD)

lemma suffix_take_append: "suffix rest s \<Longrightarrow> take (length s - length rest) s @ rest = s"
  by (auto simp: suffix_def)

lemma vless_decode_addons_diverge:
  assumes "length uuid = 16" "parse_flow_from_addons addons = None" "0 < length addons" "length addons < 256"
  shows "vless_decode_request (0 # uuid @ word_of_nat (length addons) # addons @ rest) = None"
  using assms by (simp add: vless_decode_request_def)

lemma normalise_uuid_idem: "length uuid = 16 \<Longrightarrow> normalise_uuid (normalise_uuid uuid) = normalise_uuid uuid"
proof -
  assume "length uuid = 16"
  moreover have "((x AND 0x0F) OR 0x40) AND 0x0F OR 0x40 = (x AND 0x0F) OR 0x40" for x :: u8
    by (rule bit_word_eqI) (auto simp: bit_simps)
  moreover have "((x AND 0x3F) OR 0x80) AND 0x3F OR 0x80 = (x AND 0x3F) OR 0x80" for x :: u8
    by (rule bit_word_eqI) (auto simp: bit_simps)
  ultimately show ?thesis by (simp add: normalise_uuid_def list_update_swap)
qed

lemma fold_add_user_Some:
  "fold add_user us r k = Some u \<Longrightarrow> (u \<in> set us \<and> normalise_uuid (vu_uuid u) = k) \<or> r k = Some u"
proof (induction us arbitrary: r)
  case (Cons a us)
  then have "(u \<in> set us \<and> normalise_uuid (vu_uuid u) = k) \<or> add_user a r k = Some u" by simp
  then show ?case by (auto simp: add_user_def split: if_splits)
qed simp

fun served_user :: "vless_outcome \<Rightarrow> string option" where
  "served_user (ServeUdp u _ _) = Some u"
| "served_user (ServeMux u _ _ _) = Some u"
| "served_user (ServeTcp u _ _ _ _) = Some u"
| "served_user _ = None"

lemma handle_vless_served:
  assumes "handle_vless registry fb lim stream = Some (Ok (out, lim'))" "served_user out = Some email"
  shows "\<exists>req rest u. vless_decode_request stream = Some (Ok (req, rest)) \<and>
           registry (normalise_uuid (vl_uuid req)) = Some u \<and> vu_email u = email \<and>
           (vl_flow req = [] \<or> vl_flow req = vu_flow u)"
  using assms
  by (auto simp: handle_vless_def vless_validate_def do_fallback_def reject_or_fallback_def Let_def
      split: option.splits res.splits prod.splits if_splits)

section \<open>Properties\<close>

text \<open>C2: the handler serves a connection only for a registered user whose identifier, after
  normalisation of the version and variant bits, is the one in the header, and only if the header
  names no flow or that user's flow.\<close>

theorem vless_serves_registered_users_only:
  assumes "handle_vless (fold add_user us Map.empty) fb lim stream = Some (Ok (out, lim'))"
    and "served_user out = Some email"
  shows "\<exists>req rest u. vless_decode_request stream = Some (Ok (req, rest)) \<and> u \<in> set us \<and>
           normalise_uuid (vu_uuid u) = normalise_uuid (vl_uuid req) \<and> vu_email u = email \<and>
           (vl_flow req = [] \<or> vl_flow req = vu_flow u)"
  using handle_vless_served [OF assms] fold_add_user_Some [where r = Map.empty] by fastforce

definition sample_user :: vless_user where
  "sample_user = \<lparr> vu_email = ''a@b'', vu_uuid = replicate 16 7, vu_flow = [] \<rparr>"

lemma sample_request:
  "vless_decode_request (0 # replicate 16 7 @ [0, 1, 1, 187, 1, 8, 8, 8, 8, 42]) =
     Some (Ok (\<lparr> vl_uuid = replicate 16 7, vl_command = CmdTcp, vl_dest = Ipv4 0x08080808 443, vl_flow = [] \<rparr>, [42]))"
  by code_simp

theorem vless_serves_registered_users_only_witness:
  "\<exists>req rest u. vless_decode_request (0 # replicate 16 7 @ [0, 1, 1, 187, 1, 8, 8, 8, 8, 42]) = Some (Ok (req, rest)) \<and>
     u \<in> set [sample_user] \<and> normalise_uuid (vu_uuid u) = normalise_uuid (vl_uuid req) \<and> vu_email u = ''a@b'' \<and>
     (vl_flow req = [] \<or> vl_flow req = vu_flow u)"
  by (rule vless_serves_registered_users_only
      [where fb = None and lim = None and out = "ServeTcp ''a@b'' False (Ipv4 0x08080808 443) [42] None" and lim' = None])
    (simp_all add: handle_vless_def sample_request vless_validate_def add_user_def sample_user_def
      is_mux_request_def Let_def)



text \<open>C30: a header whose addons are the eleven bytes \<open>looping_addons\<close> makes the handler loop
  forever, whatever user identifier precedes them, whatever follows, and whoever is registered:
  the length field wraps the parser's cursor back to zero.\<close>

theorem vless_addons_hang_before_authentication:
  assumes "length uuid = 16"
  shows "handle_vless registry fb lim (0 # uuid @ 11 # looping_addons @ rest) = None"
  using vless_decode_addons_diverge [OF assms parse_flow_looping, of rest]
  by (simp add: handle_vless_def looping_addons_def)

theorem vless_addons_hang_before_authentication_witness:
  "handle_vless Map.empty None None (0 # replicate 16 0 @ 11 # looping_addons @ []) = None"
  by (rule vless_addons_hang_before_authentication) simp

text \<open>Addons whose length field is the largest 64-bit integer make the parser slice out of
  range, so that the task handling the connection panics.\<close>

lemma vless_addons_panic: "parse_flow_from_addons panicking_addons = Some Panic"
  by (rule parse_flow_panicking)

end
