(* ===== verification/Mux.thy ===== *)
theory Mux
  imports Vless
begin

text \<open>
  Mux.Cool framing and the demultiplexer of the VLESS inbound
  (crates/blackwire-protocol/src/vless/mux.rs), and the VLESS UDP packet header (vless/udp.rs).

  Frames are functions on byte lists.  The demultiplexer \<open>relay_mux_cool\<close> is a loop over a state
  that records the three session tables, the active XUDP flow and the set of reader tasks that are
  still running, so that one can say which task belongs to which session.  Opening, writing and
  sending are operations on a world state that the caller supplies.
\<close>

section \<open>Frames\<close>

definition XUDP_SESSION_ID :: u16 where "XUDP_SESSION_ID = 0"
definition OPT_DATA :: u8 where "OPT_DATA = 0x01"
definition MAX_META_LEN :: nat where "MAX_META_LEN = 512"
definition MAX_DATA_LEN :: nat where "MAX_DATA_LEN = 512 * 1024"

datatype session_status = New | Keep | End | KeepAlive

fun status_byte :: "session_status \<Rightarrow> u8" where
  "status_byte New = 0x01"
| "status_byte Keep = 0x02"
| "status_byte End = 0x03"
| "status_byte KeepAlive = 0x04"

definition status_from_byte :: "u8 \<Rightarrow> session_status res" where
  "status_from_byte b =
     (if b = 0x01 then Ok New
      else if b = 0x02 then Ok Keep
      else if b = 0x03 then Ok End
      else if b = 0x04 then Ok KeepAlive
      else Err (Protocol (''mux: unknown session status '' @ fmt_hex b)))"

datatype target_network = TargetTcp | TargetUdp

fun network_byte :: "target_network \<Rightarrow> u8" where
  "network_byte TargetTcp = 0x01"
| "network_byte TargetUdp = 0x02"

definition network_from_byte :: "u8 \<Rightarrow> target_network res" where
  "network_from_byte b =
     (if b = 0x01 then Ok TargetTcp
      else if b = 0x02 then Ok TargetUdp
      else Err (Protocol (''mux: unknown target network '' @ fmt_hex b)))"

record frame_metadata =
  fm_session_id :: u16
  fm_status :: session_status
  fm_option :: u8
  fm_target :: "(target_network \<times> address) option"
  fm_global_id :: "bytes option"

definition encode_new_metadata :: "u16 \<Rightarrow> address \<Rightarrow> u8 \<Rightarrow> bytes res" where
  "encode_new_metadata session_id d opt =
     and_then (encode_address_port d) (\<lambda>a.
     Ok (to_be 2 session_id @ [status_byte New, opt, network_byte TargetTcp] @ a))"

definition encode_end_metadata :: "u16 \<Rightarrow> u8 \<Rightarrow> bytes" where
  "encode_end_metadata session_id opt = to_be 2 session_id @ [status_byte End, opt]"

definition encode_new_metadata_xudp :: "address \<Rightarrow> bytes \<Rightarrow> u8 \<Rightarrow> bytes res" where
  "encode_new_metadata_xudp d global_id opt =
     and_then (encode_address_port d) (\<lambda>a.
     Ok (to_be 2 XUDP_SESSION_ID @ [status_byte New, opt, network_byte TargetUdp] @ a @ global_id))"

definition encode_keep_metadata_udp :: "u16 \<Rightarrow> address \<Rightarrow> u8 \<Rightarrow> bytes res" where
  "encode_keep_metadata_udp session_id d opt =
     and_then (encode_address_port d) (\<lambda>a.
     Ok (to_be 2 session_id @ [status_byte Keep, opt, network_byte TargetUdp] @ a))"

definition encode_keep_metadata :: "u16 \<Rightarrow> u8 \<Rightarrow> bytes" where
  "encode_keep_metadata session_id opt = to_be 2 session_id @ [status_byte Keep, opt]"

definition encode_frame :: "bytes \<Rightarrow> bytes option \<Rightarrow> bytes res" where
  "encode_frame metadata payload =
     (if length metadata > MAX_META_LEN then Err (Protocol ''mux: metadata too long'')
      else
        let out = to_be 2 (word_of_nat (length metadata) :: u16) @ metadata in
        case payload of
          None \<Rightarrow> Ok out
        | Some data \<Rightarrow>
            if length data > MAX_DATA_LEN then Err (Protocol ''mux: payload too long'')
            else Ok (out @ to_be 2 (word_of_nat (length data) :: u16) @ data))"

fun skip_extensions :: "nat \<Rightarrow> bytes \<Rightarrow> bytes res" where
  "skip_extensions 0 rest = Ok rest"
| "skip_extensions (Suc n) [] = Ok []"
| "skip_extensions (Suc n) (b # rest) =
     (if b = 0 then skip_extensions n rest
      else
        and_then (network_from_byte b) (\<lambda>_.
        and_then (decode_address_port_with_len rest) (\<lambda>(_, consumed).
        and_then (slice rest consumed (length rest)) (\<lambda>rest.
        skip_extensions n rest))))"

definition skip_mux_inbound_extensions :: "bytes \<Rightarrow> bytes res" where
  "skip_mux_inbound_extensions rest = skip_extensions 2 rest"

definition parse_metadata :: "bytes \<Rightarrow> frame_metadata res" where
  "parse_metadata meta =
     (if length meta < 4 then Err (Protocol ''mux: metadata too short'')
      else
        and_then (slice meta 0 2) (\<lambda>sid.
        and_then (idx meta 2) (\<lambda>st.
        and_then (status_from_byte st) (\<lambda>status.
        and_then (idx meta 3) (\<lambda>option.
        and_then (slice meta 4 (length meta)) (\<lambda>rest.
        and_then
          (if status = New then
             if rest = [] then Err (Protocol ''mux: New missing target'')
             else
               and_then (idx rest 0) (\<lambda>b.
               and_then (network_from_byte b) (\<lambda>network.
               and_then (slice rest 1 (length rest)) (\<lambda>rest.
               and_then (decode_address_port_with_len rest) (\<lambda>(addr, consumed).
               and_then (slice rest consumed (length rest)) (\<lambda>rest.
               and_then (if network = TargetTcp then skip_mux_inbound_extensions rest else Ok rest) (\<lambda>rest.
               if network = TargetUdp \<and> option AND OPT_DATA \<noteq> 0 \<and> length rest \<ge> 8 then
                 and_then (slice rest 0 8) (\<lambda>gid. Ok (Some (network, addr), Some gid))
               else Ok (Some (network, addr), None)))))))
           else if status = Keep \<and> rest \<noteq> [] \<and> network_from_byte (hd rest) = Ok TargetUdp then
             and_then (idx rest 0) (\<lambda>b.
             and_then (network_from_byte b) (\<lambda>network.
             and_then (slice rest 1 (length rest)) (\<lambda>rest.
             and_then (decode_address_port_with_len rest) (\<lambda>(addr, _).
             Ok (Some (network, addr), None)))))
           else Ok (None, None)) (\<lambda>(target, global_id).
        Ok \<lparr> fm_session_id = from_be sid, fm_status = status, fm_option = option,
             fm_target = target, fm_global_id = global_id \<rparr>)))))))"

definition is_xudp_metadata :: "frame_metadata \<Rightarrow> bool" where
  "is_xudp_metadata meta =
     (fm_session_id meta = XUDP_SESSION_ID \<and>
      (case fm_target meta of Some (TargetUdp, _) \<Rightarrow> True | _ \<Rightarrow> False) \<and>
      (fm_status meta = Keep \<or> (fm_status meta = New \<and> fm_global_id meta \<noteq> None)))"

definition parse_frame :: "bytes \<Rightarrow> (frame_metadata \<times> bytes option \<times> nat) res" where
  "parse_frame buf =
     (if length buf < 2 then Err (Protocol ''mux: frame too short'')
      else
        and_then (slice buf 0 2) (\<lambda>l.
        let meta_len = unat (from_be l :: u16) in
        if meta_len > MAX_META_LEN then Err (Protocol (''mux: invalid metadata length '' @ fmt_dec meta_len))
        else
          let need = 2 + meta_len in
          if length buf < need then Err (Protocol ''mux: truncated metadata'')
          else
            and_then (slice buf 2 need) (\<lambda>mb.
            and_then (parse_metadata mb) (\<lambda>meta.
            if fm_option meta AND OPT_DATA \<noteq> 0 then
              if length buf < need + 2 then Err (Protocol ''mux: truncated payload length'')
              else
                and_then (slice buf need (need + 2)) (\<lambda>d.
                let data_len = unat (from_be d :: u16) in
                if data_len > MAX_DATA_LEN then Err (Protocol (''mux: invalid payload length '' @ fmt_dec data_len))
                else
                  let consumed = need + (2 + data_len) in
                  if length buf < consumed then Err (Protocol ''mux: truncated payload'')
                  else
                    and_then (slice buf (need + 2) consumed) (\<lambda>data.
                    Ok (meta, Some data, consumed)))
            else Ok (meta, None, need)))))"

definition read_mux_frame :: "bytes \<Rightarrow> (frame_metadata \<times> bytes option \<times> bytes) res" where
  "read_mux_frame reader =
     and_then (read_u16 reader) (\<lambda>(l, reader).
     let meta_len = unat l in
     if meta_len > MAX_META_LEN then Err (Protocol (''mux: invalid metadata length '' @ fmt_dec meta_len))
     else
       and_then (read_exact meta_len reader) (\<lambda>(mb, reader).
       and_then (parse_metadata mb) (\<lambda>meta.
       if fm_option meta AND OPT_DATA \<noteq> 0 then
         and_then (read_u16 reader) (\<lambda>(d, reader).
         let data_len = unat d in
         if data_len > MAX_DATA_LEN then Err (Protocol (''mux: invalid payload length '' @ fmt_dec data_len))
         else
           and_then (if data_len > 0 then read_exact data_len reader else Ok ([], reader)) (\<lambda>(data, reader).
           Ok (meta, Some data, reader)))
       else Ok (meta, None, reader))))"

text \<open>The writer appends to the stream; on an oversized payload the metadata is already out.\<close>

definition write_mux_frame :: "bytes \<Rightarrow> bytes \<Rightarrow> bytes option \<Rightarrow> bytes \<times> unit res" where
  "write_mux_frame writer metadata payload =
     (if length metadata > MAX_META_LEN then (writer, Err (Protocol ''mux: metadata too long''))
      else
        let writer = writer @ to_be 2 (word_of_nat (length metadata) :: u16) @ metadata in
        case payload of
          None \<Rightarrow> (writer, Ok ())
        | Some data \<Rightarrow>
            if length data > MAX_DATA_LEN then (writer, Err (Protocol ''mux: payload too long''))
            else (writer @ to_be 2 (word_of_nat (length data) :: u16) @ data, Ok ()))"

section \<open>VLESS UDP packets\<close>

definition read_udp_header :: "bytes \<Rightarrow> (address \<times> bytes) res" where
  "read_udp_header reader =
     and_then (read_u16 reader) (\<lambda>(l, reader).
     let addr_len = unat l in
     if addr_len = 0 \<or> addr_len > 512
     then Err (Protocol (''invalid VLESS UDP address length '' @ fmt_dec addr_len))
     else
       and_then (read_exact addr_len reader) (\<lambda>(addr_buf, reader).
       and_then (decode_address_port addr_buf) (\<lambda>a. Ok (a, reader))))"

definition write_udp_packet :: "bytes \<Rightarrow> address \<Rightarrow> bytes \<Rightarrow> bytes res" where
  "write_udp_packet writer d payload =
     and_then (encode_address_port d) (\<lambda>addr_bytes.
     if length addr_bytes > 65535 then Err (Protocol ''VLESS UDP address too long'')
     else
       let frame = [];
           frame = frame @ to_be 2 (word_of_nat (length addr_bytes) :: u16);
           frame = frame @ addr_bytes;
           frame = frame @ payload in
       Ok (writer @ frame))"

section \<open>The demultiplexer\<close>

text \<open>
  A session keeps the handle of its upstream connection or socket and the number of its reader
  task.  \<open>live_tasks\<close> holds the tasks that were spawned and not aborted.
\<close>

record mux_state =
  sessions :: "u16 \<rightharpoonup> (nat \<times> nat)"
  udp_sessions :: "u16 \<rightharpoonup> (nat \<times> address \<times> nat)"
  xudp_sessions :: "bytes \<rightharpoonup> (nat \<times> nat)"
  active_xudp :: "bytes option"
  live_tasks :: "nat set"
  next_task :: nat

record 'w mux_env =
  mux_connect_outbound :: "address \<Rightarrow> ('w, nat) io"
  mux_write_all :: "nat \<Rightarrow> bytes \<Rightarrow> ('w, unit) io"
  mux_shutdown :: "nat \<Rightarrow> ('w, unit) io"
  mux_resolve_udp_dest :: "address \<Rightarrow> ('w, socket_addr) io"
  mux_bind_udp :: "socket_addr \<Rightarrow> ('w, nat) io"
  mux_udp_connect :: "nat \<Rightarrow> socket_addr \<Rightarrow> ('w, unit) io"
  mux_udp_send :: "nat \<Rightarrow> bytes \<Rightarrow> ('w, unit) io"
  mux_udp_send_to :: "nat \<Rightarrow> bytes \<Rightarrow> socket_addr \<Rightarrow> ('w, unit) io"

type_synonym ('w, 'a) mux_io = "(mux_state \<times> 'w, 'a) io"

definition mux_init :: mux_state where
  "mux_init = \<lparr> sessions = Map.empty, udp_sessions = Map.empty, xudp_sessions = Map.empty,
                active_xudp = None, live_tasks = {}, next_task = 0 \<rparr>"

definition on_world :: "('w, 'a) io \<Rightarrow> ('w, 'a) mux_io" where
  "on_world m = (\<lambda>(st, w). case m w of (r, w') \<Rightarrow> (r, (st, w')))"

definition modify :: "(mux_state \<Rightarrow> mux_state) \<Rightarrow> ('w, unit) mux_io" where
  "modify f = (\<lambda>(st, w). (Ok (), (f st, w)))"

definition with_state :: "(mux_state \<Rightarrow> ('w, 'a) mux_io) \<Rightarrow> ('w, 'a) mux_io" where
  "with_state f = (\<lambda>(st, w). f st (st, w))"

definition ignore_err :: "('w, unit) mux_io \<Rightarrow> ('w, unit) mux_io" where
  "ignore_err m = (\<lambda>s. case m s of (Panic, s') \<Rightarrow> (Panic, s') | (_, s') \<Rightarrow> (Ok (), s'))"

definition with_payload :: "bytes option \<Rightarrow> (bytes \<Rightarrow> ('w, unit) mux_io) \<Rightarrow> ('w, unit) mux_io" where
  "with_payload payload act =
     (case payload of
        Some data \<Rightarrow> if data \<noteq> [] then act data else io_lift (Ok ())
      | None \<Rightarrow> io_lift (Ok ()))"

definition spawn_task :: "(nat \<Rightarrow> mux_state \<Rightarrow> mux_state) \<Rightarrow> mux_state \<Rightarrow> mux_state" where
  "spawn_task register st =
     register (next_task st)
       (st\<lparr> live_tasks := insert (next_task st) (live_tasks st), next_task := Suc (next_task st) \<rparr>)"

definition abort_task :: "nat \<Rightarrow> mux_state \<Rightarrow> mux_state" where
  "abort_task t st = st\<lparr> live_tasks := live_tasks st - {t} \<rparr>"

definition clear_xudp_sessions :: "mux_state \<Rightarrow> mux_state" where
  "clear_xudp_sessions st =
     st\<lparr> live_tasks := live_tasks st - snd ` ran (xudp_sessions st),
         xudp_sessions := Map.empty, active_xudp := None \<rparr>"

definition mux_new :: "'w mux_env \<Rightarrow> frame_metadata \<Rightarrow> bytes option \<Rightarrow> ('w, unit) mux_io" where
  "mux_new env meta payload =
     (if is_xudp_metadata meta then
        (case fm_target meta of
           None \<Rightarrow> io_lift (Err (Protocol ''mux: New without target''))
         | Some (_, d) \<Rightarrow>
             (case fm_global_id meta of
                None \<Rightarrow> io_lift Panic
              | Some global_id \<Rightarrow>
                  io_then (modify clear_xudp_sessions) (\<lambda>_.
                  io_then (on_world (mux_resolve_udp_dest env d)) (\<lambda>upstream.
                  io_then (on_world (mux_bind_udp env upstream)) (\<lambda>socket.
                  io_then (with_payload payload (\<lambda>data. on_world (mux_udp_send_to env socket data upstream))) (\<lambda>_.
                  modify (spawn_task (\<lambda>t st. st\<lparr>
                    xudp_sessions := (xudp_sessions st)(global_id \<mapsto> (socket, t)),
                    active_xudp := Some global_id \<rparr>))))))))
      else
        (case fm_target meta of
           None \<Rightarrow> io_lift (Err (Protocol ''mux: New without target''))
         | Some (TargetTcp, d) \<Rightarrow>
             io_then (on_world (mux_connect_outbound env d)) (\<lambda>upstream.
             io_then (with_payload payload (\<lambda>data. on_world (mux_write_all env upstream data))) (\<lambda>_.
             modify (spawn_task (\<lambda>t st. st\<lparr>
               sessions := (sessions st)(fm_session_id meta \<mapsto> (upstream, t)) \<rparr>))))
         | Some (TargetUdp, d) \<Rightarrow>
             io_then (on_world (mux_resolve_udp_dest env d)) (\<lambda>upstream.
             io_then (on_world (mux_bind_udp env upstream)) (\<lambda>socket.
             io_then (on_world (mux_udp_connect env socket upstream)) (\<lambda>_.
             io_then (with_payload payload (\<lambda>data. on_world (mux_udp_send env socket data))) (\<lambda>_.
             modify (spawn_task (\<lambda>t st. st\<lparr>
               udp_sessions := (udp_sessions st)(fm_session_id meta \<mapsto> (socket, d, t)) \<rparr>))))))))"

definition mux_keep :: "'w mux_env \<Rightarrow> frame_metadata \<Rightarrow> bytes option \<Rightarrow> ('w, unit) mux_io" where
  "mux_keep env meta payload = with_state (\<lambda>st.
     case fm_target meta of
       Some (TargetUdp, d) \<Rightarrow>
         if fm_session_id meta = XUDP_SESSION_ID then
           (case active_xudp st of
              Some gid \<Rightarrow>
                (case xudp_sessions st gid of
                   Some (socket, _) \<Rightarrow>
                     with_payload payload (\<lambda>data.
                       io_then (on_world (mux_resolve_udp_dest env d)) (\<lambda>upstream.
                       on_world (mux_udp_send_to env socket data upstream)))
                 | None \<Rightarrow> io_lift (Ok ()))
            | None \<Rightarrow> io_lift (Ok ()))
         else
           (case udp_sessions st (fm_session_id meta) of
              Some (socket, sdest, _) \<Rightarrow>
                with_payload payload (\<lambda>data.
                  if d = sdest then on_world (mux_udp_send env socket data)
                  else
                    io_then (on_world (mux_resolve_udp_dest env d)) (\<lambda>upstream.
                    on_world (mux_udp_send_to env socket data upstream)))
            | None \<Rightarrow> io_lift (Ok ()))
     | _ \<Rightarrow>
         (case sessions st (fm_session_id meta) of
            Some (upstream, _) \<Rightarrow>
              with_payload payload (\<lambda>data. on_world (mux_write_all env upstream data))
          | None \<Rightarrow>
              (case udp_sessions st (fm_session_id meta) of
                 Some (socket, _, _) \<Rightarrow>
                   with_payload payload (\<lambda>data. on_world (mux_udp_send env socket data))
               | None \<Rightarrow> io_lift (Ok ()))))"

definition mux_end :: "'w mux_env \<Rightarrow> frame_metadata \<Rightarrow> bytes option \<Rightarrow> ('w, unit) mux_io" where
  "mux_end env meta payload =
     (let sid = fm_session_id meta in
      io_then (with_payload payload (\<lambda>data. with_state (\<lambda>st.
        case sessions st sid of
          Some (upstream, _) \<Rightarrow> ignore_err (on_world (mux_write_all env upstream data))
        | None \<Rightarrow>
            (case udp_sessions st sid of
               Some (socket, _, _) \<Rightarrow> ignore_err (on_world (mux_udp_send env socket data))
             | None \<Rightarrow> io_lift (Ok ()))))) (\<lambda>_.
      io_then (with_state (\<lambda>st.
        case sessions st sid of
          Some (upstream, t) \<Rightarrow>
            io_then (modify (\<lambda>st. abort_task t (st\<lparr> sessions := (sessions st)(sid := None) \<rparr>))) (\<lambda>_.
            ignore_err (on_world (mux_shutdown env upstream)))
        | None \<Rightarrow> io_lift (Ok ()))) (\<lambda>_.
      io_then (with_state (\<lambda>st.
        case udp_sessions st sid of
          Some (_, _, t) \<Rightarrow>
            modify (\<lambda>st. abort_task t (st\<lparr> udp_sessions := (udp_sessions st)(sid := None) \<rparr>))
        | None \<Rightarrow> io_lift (Ok ()))) (\<lambda>_.
      if sid = XUDP_SESSION_ID then modify clear_xudp_sessions else io_lift (Ok ())))))"

definition mux_handle :: "'w mux_env \<Rightarrow> frame_metadata \<Rightarrow> bytes option \<Rightarrow> ('w, unit) mux_io" where
  "mux_handle env meta payload =
     (case fm_status meta of
        New \<Rightarrow> mux_new env meta payload
      | Keep \<Rightarrow> mux_keep env meta payload
      | End \<Rightarrow> mux_end env meta payload
      | KeepAlive \<Rightarrow> io_lift (Ok ()))"

definition abort_all :: "mux_state \<Rightarrow> mux_state" where
  "abort_all st = st\<lparr> live_tasks := live_tasks st - snd ` ran (sessions st)
      - (snd \<circ> snd) ` ran (udp_sessions st) - snd ` ran (xudp_sessions st) \<rparr>"

lemma read_mux_frame_shorter: "read_mux_frame s = Ok (meta, payload, rest) \<Longrightarrow> length rest < length s"
  by (auto simp: read_mux_frame_def read_u16_def and_then_Ok_iff read_exact_Ok_iff Let_def split: if_splits)

function relay_mux_cool :: "'w mux_env \<Rightarrow> bytes \<Rightarrow> mux_state \<times> 'w \<Rightarrow> unit res \<times> (mux_state \<times> 'w)" where
  "relay_mux_cool env reader s =
     (case read_mux_frame reader of
        Ok (meta, payload, reader) \<Rightarrow>
          (case mux_handle env meta payload s of
             (Ok _, s') \<Rightarrow> relay_mux_cool env reader s'
           | (Err e, s') \<Rightarrow> (Err e, s')
           | (Panic, s') \<Rightarrow> (Panic, s'))
      | Err (Transport _) \<Rightarrow> (Ok (), (abort_all (fst s), snd s))
      | Err (Protocol m) \<Rightarrow> (Err (Protocol m), s)
      | Err _ \<Rightarrow> (Ok (), (abort_all (fst s), snd s))
      | Panic \<Rightarrow> (Panic, s))"
  by pat_completeness auto
termination
  by (relation "measure (\<lambda>(env, reader, s). length reader)") (auto dest!: read_mux_frame_shorter)

text \<open>The tasks the tables know about, and the live tasks no table knows about.\<close>

datatype task_key = KTcp u16 | KUdp u16 | KXudp bytes

fun task_of :: "mux_state \<Rightarrow> task_key \<Rightarrow> nat option" where
  "task_of st (KTcp sid) = map_option snd (sessions st sid)"
| "task_of st (KUdp sid) = map_option (snd \<circ> snd) (udp_sessions st sid)"
| "task_of st (KXudp gid) = map_option snd (xudp_sessions st gid)"

definition orphans :: "mux_state \<Rightarrow> nat set" where
  "orphans st = live_tasks st - ran (task_of st)"

section \<open>Frame lemmas\<close>

lemma skip_nothing [simp]: "skip_mux_inbound_extensions [] = Ok []"
  by (simp add: skip_mux_inbound_extensions_def numeral_2_eq_2)

lemma parse_new_metadata:
  assumes "wf_address d" "encode_new_metadata sid d opt = Ok meta"
  shows "parse_metadata meta = Ok \<lparr> fm_session_id = sid, fm_status = New, fm_option = opt,
           fm_target = Some (TargetTcp, d), fm_global_id = None \<rparr>"
proof -
  from assms(2) obtain a where a: "encode_address_port d = Ok a"
    and meta: "meta = to_be 2 sid @ [1, opt, 1] @ a"
    by (auto simp: encode_new_metadata_def and_then_Ok_iff)
  have "decode_address_port_with_len a = Ok (d, length a)"
    using vless_addr.dec_enc_exact [OF assms(1) a] .
  then show ?thesis unfolding meta
    by (simp add: parse_metadata_def nth_append status_from_byte_def network_from_byte_def)
qed

lemma parse_keep_metadata:
  "parse_metadata (encode_keep_metadata sid opt) = Ok \<lparr> fm_session_id = sid, fm_status = Keep,
     fm_option = opt, fm_target = None, fm_global_id = None \<rparr>"
  by (simp add: parse_metadata_def encode_keep_metadata_def nth_append status_from_byte_def)

lemma parse_end_metadata:
  "parse_metadata (encode_end_metadata sid opt) = Ok \<lparr> fm_session_id = sid, fm_status = End,
     fm_option = opt, fm_target = None, fm_global_id = None \<rparr>"
  by (simp add: parse_metadata_def encode_end_metadata_def nth_append status_from_byte_def)

lemma parse_keep_metadata_udp:
  assumes "wf_address d" "encode_keep_metadata_udp sid d opt = Ok meta"
  shows "parse_metadata meta = Ok \<lparr> fm_session_id = sid, fm_status = Keep, fm_option = opt,
           fm_target = Some (TargetUdp, d), fm_global_id = None \<rparr>"
proof -
  from assms(2) obtain a where a: "encode_address_port d = Ok a"
    and meta: "meta = to_be 2 sid @ [2, opt, 2] @ a"
    by (auto simp: encode_keep_metadata_udp_def and_then_Ok_iff)
  have "decode_address_port_with_len a = Ok (d, length a)"
    using vless_addr.dec_enc_exact [OF assms(1) a] .
  then show ?thesis unfolding meta
    by (simp add: parse_metadata_def nth_append status_from_byte_def network_from_byte_def)
qed

lemma parse_new_metadata_xudp:
  assumes "wf_address d" "length gid = 8" "opt AND OPT_DATA \<noteq> 0" "encode_new_metadata_xudp d gid opt = Ok meta"
  shows "parse_metadata meta = Ok \<lparr> fm_session_id = XUDP_SESSION_ID, fm_status = New, fm_option = opt,
           fm_target = Some (TargetUdp, d), fm_global_id = Some gid \<rparr>"
proof -
  from assms(4) obtain a where a: "encode_address_port d = Ok a"
    and meta: "meta = to_be 2 XUDP_SESSION_ID @ [1, opt, 2] @ a @ gid"
    by (auto simp: encode_new_metadata_xudp_def and_then_Ok_iff)
  have "decode_address_port_with_len (a @ gid) = Ok (d, length a)"
    using vless_addr.dec_enc [OF assms(1) a] .
  then show ?thesis unfolding meta using assms(2,3)
    by (simp add: parse_metadata_def nth_append status_from_byte_def network_from_byte_def)
qed

lemma encode_frame_Ok_iff:
  "encode_frame meta payload = Ok bs \<longleftrightarrow> length meta \<le> 512 \<and>
     (case payload of
        None \<Rightarrow> bs = to_be 2 (word_of_nat (length meta) :: u16) @ meta
      | Some data \<Rightarrow> length data \<le> 524288 \<and>
          bs = to_be 2 (word_of_nat (length meta) :: u16) @ meta @ to_be 2 (word_of_nat (length data) :: u16) @ data)"
  by (auto simp: encode_frame_def MAX_META_LEN_def MAX_DATA_LEN_def Let_def split: option.splits)

text \<open>What comes back from an encoded frame: the payload length travels modulo \<open>65536\<close>.\<close>

lemma parse_frame_encoded:
  assumes enc: "encode_frame meta payload = Ok bs" and m: "parse_metadata meta = Ok fm"
    and opt: "(payload \<noteq> None) = (fm_option fm AND OPT_DATA \<noteq> 0)"
  shows "parse_frame (bs @ rest) =
     Ok (fm, map_option (\<lambda>data. take (length data mod 65536) data) payload,
         2 + length meta + (case payload of None \<Rightarrow> 0 | Some data \<Rightarrow> 2 + length data mod 65536))"
proof (cases payload)
  case None
  then have bs: "bs = to_be 2 (word_of_nat (length meta) :: u16) @ meta" and len: "length meta \<le> 512"
    using enc by (simp_all add: encode_frame_Ok_iff)
  then show ?thesis using None m opt
    by (simp add: parse_frame_def MAX_META_LEN_def Let_def)
next
  case (Some data)
  then have bs: "bs = to_be 2 (word_of_nat (length meta) :: u16) @ meta @ to_be 2 (word_of_nat (length data) :: u16) @ data"
    and len: "length meta \<le> 512" "length data \<le> 524288"
    using enc by (simp_all add: encode_frame_Ok_iff)
  define k where "k = length data mod 65536"
  have n: "unat (word_of_nat (length data) :: u16) = k"
    by (simp add: unat_of_nat take_bit_eq_mod k_def)
  have le: "k \<le> length data" "k < 65536" by (simp_all add: k_def)
  have "parse_frame (bs @ rest) = Ok (fm, Some (take k data), 2 + length meta + (2 + k))"
    unfolding bs using Some m opt len n le
    by (simp add: parse_frame_def MAX_META_LEN_def MAX_DATA_LEN_def Let_def)
  then show ?thesis using Some by (simp add: k_def)
qed

lemma read_mux_frame_iff:
  "read_mux_frame s = Ok (meta, payload, rest) \<longleftrightarrow>
     (\<exists>n. parse_frame s = Ok (meta, payload, n) \<and> rest = drop n s)"
proof (cases "length s < 2")
  case True
  then show ?thesis by (simp add: read_mux_frame_def parse_frame_def read_u16_def read_exact_def)
next
  case False
  define l where "l = unat (from_be (take 2 s) :: u16)"
  define t where "t = drop 2 s"
  have r16: "read_u16 s = Ok (from_be (take 2 s), t)"
    using False by (simp add: read_u16_def read_exact_def t_def)
  show ?thesis
  proof (cases "l > MAX_META_LEN \<or> length t < l")
    case True
    then show ?thesis using False r16
      by (auto simp: read_mux_frame_def parse_frame_def l_def t_def Let_def read_exact_def)
  next
    case ok: False
    define u where "u = drop l t"
    have p: "parse_frame s = and_then (parse_metadata (take l t)) (\<lambda>meta.
            if fm_option meta AND OPT_DATA \<noteq> 0 then
              if length u < 2 then Err (Protocol ''mux: truncated payload length'')
              else let data_len = unat (from_be (take 2 u) :: u16) in
                if data_len > MAX_DATA_LEN then Err (Protocol (''mux: invalid payload length '' @ fmt_dec data_len))
                else if length u < 2 + data_len then Err (Protocol ''mux: truncated payload'')
                else Ok (meta, Some (take data_len (drop 2 u)), 2 + l + (2 + data_len))
            else Ok (meta, None, 2 + l))"
      using False ok
      by (cases "parse_metadata (take l t)")
        (auto simp: parse_frame_def l_def t_def u_def Let_def less_diff_conv2 add.commute drop_drop)
    have q: "read_mux_frame s = and_then (parse_metadata (take l t)) (\<lambda>meta.
            if fm_option meta AND OPT_DATA \<noteq> 0 then
              if length u < 2 then Err (Io UnexpectedEof)
              else let data_len = unat (from_be (take 2 u) :: u16) in
                if data_len > MAX_DATA_LEN then Err (Protocol (''mux: invalid payload length '' @ fmt_dec data_len))
                else if length u < 2 + data_len then Err (Io UnexpectedEof)
                else Ok (meta, Some (take data_len (drop 2 u)), drop data_len (drop 2 u))
            else Ok (meta, None, u))"
      using False ok r16
      by (cases "parse_metadata (take l t)")
        (auto simp: read_mux_frame_def l_def u_def Let_def read_exact_def read_u16_def)
    show ?thesis unfolding p q
      by (cases "parse_metadata (take l t)")
        (auto simp: Let_def u_def t_def drop_drop add.commute add.left_commute)
  qed
qed

section \<open>Ownership of reader tasks\<close>

definition owns :: "('k \<rightharpoonup> nat) \<Rightarrow> nat set \<Rightarrow> nat \<Rightarrow> bool" where
  "owns m live n = (inj_on m (dom m) \<and> ran m \<subseteq> live \<and> live \<subseteq> {..<n})"

lemma owns_inj: "owns m live n \<Longrightarrow> m j = Some t \<Longrightarrow> m k = Some t \<Longrightarrow> j = k"
  unfolding owns_def by (metis domI inj_onD)

lemma ownsI:
  assumes "\<And>j k t. m j = Some t \<Longrightarrow> m k = Some t \<Longrightarrow> j = k" "ran m \<subseteq> live" "live \<subseteq> {..<n}"
  shows "owns m live n"
proof -
  have "inj_on m (dom m)" using assms(1) by (intro inj_onI) (metis domD)
  then show ?thesis using assms(2,3) by (simp add: owns_def)
qed

lemma owns_spawn:
  assumes "owns m live n"
  shows "owns (m(k \<mapsto> n)) (insert n live) (Suc n)"
    "m k = None \<Longrightarrow> insert n live - ran (m(k \<mapsto> n)) = live - ran m"
proof -
  have fresh: "n \<notin> ran m" "n \<notin> live" using assms(1) by (auto simp: owns_def)
  have ne: "m j \<noteq> Some n" for j using fresh by (auto simp: ran_def)
  show "owns (m(k \<mapsto> n)) (insert n live) (Suc n)"
  proof (rule ownsI)
    fix i j t
    assume "(m(k \<mapsto> n)) i = Some t" "(m(k \<mapsto> n)) j = Some t"
    then show "i = j" using ne owns_inj [OF assms, of i t j] by (auto split: if_splits)
  next
    have "ran (m(k \<mapsto> n)) \<subseteq> insert n (ran m)" by (auto simp: ran_def split: if_splits)
    then show "ran (m(k \<mapsto> n)) \<subseteq> insert n live" using assms by (auto simp: owns_def)
    show "insert n live \<subseteq> {..<Suc n}" using assms by (auto simp: owns_def)
  qed
  show "m k = None \<Longrightarrow> insert n live - ran (m(k \<mapsto> n)) = live - ran m"
    using fresh by auto
qed

lemma owns_replace:
  assumes "owns m live n" "m k = Some t"
  shows "t \<in> insert n live - ran (m(k \<mapsto> n))"
proof -
  have "t \<in> live" "t < n" using assms by (auto simp: owns_def ran_def)
  moreover have "t \<notin> ran (m(k \<mapsto> n))"
  proof
    assume "t \<in> ran (m(k \<mapsto> n))"
    then obtain j where "(m(k \<mapsto> n)) j = Some t" by (auto simp: ran_def)
    then have "j \<noteq> k" "m j = Some t" using \<open>t < n\<close> by (auto split: if_splits)
    then show False using owns_inj [OF assms(1) _ assms(2)] by blast
  qed
  ultimately show ?thesis by simp
qed

lemma owns_release:
  assumes "owns m live n" "\<And>k. k \<in> K \<Longrightarrow> m' k = None" "\<And>k. k \<notin> K \<Longrightarrow> m' k = m k"
    and "T = {t. \<exists>k\<in>K. m k = Some t}"
  shows "owns m' (live - T) n" "(live - T) - ran m' = live - ran m"
proof -
  have sub: "m' k = Some t \<Longrightarrow> m k = Some t \<and> k \<notin> K" for k t
    using assms(2) [of k] assms(3) [of k] by (metis option.distinct(1))
  note inj = owns_inj [OF assms(1)]
  have ran': "ran m' = ran m - T"
  proof (rule set_eqI)
    fix t
    show "t \<in> ran m' \<longleftrightarrow> t \<in> ran m - T"
    proof
      assume "t \<in> ran m'"
      then obtain k where "m' k = Some t" by (auto simp: ran_def)
      then have k: "m k = Some t" "k \<notin> K" using sub by auto
      then show "t \<in> ran m - T" unfolding assms(4) using inj [OF k(1)] by (blast intro: ranI)
    next
      assume "t \<in> ran m - T"
      then obtain k where "m k = Some t" "k \<notin> K" using assms(4) by (auto simp: ran_def)
      then show "t \<in> ran m'" using assms(3) by (metis ranI)
    qed
  qed
  show "owns m' (live - T) n"
  proof (rule ownsI)
    show "m' j = Some t \<Longrightarrow> m' k = Some t \<Longrightarrow> j = k" for j k t using sub inj by blast
    show "ran m' \<subseteq> live - T" using assms(1) unfolding ran' owns_def by blast
    show "live - T \<subseteq> {..<n}" using assms(1) unfolding owns_def by blast
  qed
  have "T \<subseteq> ran m" unfolding assms(4) by (blast intro: ranI)
  then show "(live - T) - ran m' = live - ran m" unfolding ran' by blast
qed

definition xudp_single :: "mux_state \<Rightarrow> bool" where
  "xudp_single st = (dom (xudp_sessions st) = set_option (active_xudp st))"

definition mux_inv :: "mux_state \<Rightarrow> bool" where
  "mux_inv st = (owns (task_of st) (live_tasks st) (next_task st) \<and> xudp_single st)"

definition hoare :: "(mux_state \<Rightarrow> bool) \<Rightarrow> ('w, 'a) mux_io \<Rightarrow> (mux_state \<Rightarrow> bool) \<Rightarrow> bool" where
  "hoare P m Q = (\<forall>st w r st' w'. P st \<longrightarrow> m (st, w) = (r, (st', w')) \<longrightarrow> Q st')"

named_theorems hoare_rules

lemma hoare_lift [hoare_rules]: "hoare P (io_lift r) P"
  by (simp add: hoare_def io_lift_def)

lemma hoare_on_world [hoare_rules]: "hoare P (on_world m) P"
  by (auto simp: hoare_def on_world_def split: prod.splits)

lemma hoare_ignore [hoare_rules]: "hoare P m P \<Longrightarrow> hoare P (ignore_err m) P"
  unfolding hoare_def
proof (intro allI impI)
  fix st w r st' w'
  assume h: "\<forall>st w r st' w'. P st \<longrightarrow> m (st, w) = (r, st', w') \<longrightarrow> P st'"
    and P: "P st" and run: "ignore_err m (st, w) = (r, st', w')"
  obtain r1 st1 w1 where m: "m (st, w) = (r1, st1, w1)" by (metis prod.exhaust)
  then have "st' = st1" using run by (cases r1) (auto simp: ignore_err_def)
  then show "P st'" using h P m by blast
qed

lemma hoare_payload [hoare_rules]: "(\<And>data. hoare P (act data) P) \<Longrightarrow> hoare P (with_payload payload act) P"
  by (auto simp: with_payload_def hoare_lift split: option.splits)

lemma hoare_modify: "(\<And>st. P st \<Longrightarrow> Q (f st)) \<Longrightarrow> hoare P (modify f) Q"
  by (simp add: hoare_def modify_def)

lemma hoare_then:
  assumes "hoare P m R" "\<And>x. hoare R (f x) Q" "\<And>st. R st \<Longrightarrow> Q st"
  shows "hoare P (io_then m f) Q"
  unfolding hoare_def
proof (intro allI impI)
  fix st w r st' w'
  assume P: "P st" and run: "io_then m f (st, w) = (r, st', w')"
  obtain r1 st1 w1 where m: "m (st, w) = (r1, st1, w1)" by (metis prod.exhaust)
  then have R: "R st1" using assms(1) P unfolding hoare_def by blast
  show "Q st'"
  proof (cases r1)
    case (Ok x)
    then have "f x (st1, w1) = (r, st', w')" using run m by (simp add: io_then_def)
    then show ?thesis using assms(2) R unfolding hoare_def by blast
  qed (use run m R assms(3) in \<open>auto simp: io_then_def\<close>)
qed

lemma hoare_then_same [hoare_rules]:
  "hoare P m P \<Longrightarrow> (\<And>x. hoare P (f x) P) \<Longrightarrow> hoare P (io_then m f) P"
  by (rule hoare_then) auto

lemma task_of_simps:
  "task_of (st\<lparr> live_tasks := L, next_task := n \<rparr>) = task_of st"
  "task_of (st\<lparr> live_tasks := L \<rparr>) = task_of st"
  "task_of (st\<lparr> active_xudp := a \<rparr>) = task_of st"
  "task_of (st\<lparr> sessions := (sessions st)(sid \<mapsto> (u, t)) \<rparr>) = (task_of st)(KTcp sid \<mapsto> t)"
  "task_of (st\<lparr> udp_sessions := (udp_sessions st)(sid \<mapsto> (u, d, t)) \<rparr>) = (task_of st)(KUdp sid \<mapsto> t)"
  "task_of (st\<lparr> xudp_sessions := (xudp_sessions st)(g \<mapsto> (u, t)) \<rparr>) = (task_of st)(KXudp g \<mapsto> t)"
  "task_of (st\<lparr> sessions := (sessions st)(sid := None) \<rparr>) = (task_of st)(KTcp sid := None)"
  "task_of (st\<lparr> udp_sessions := (udp_sessions st)(sid := None) \<rparr>) = (task_of st)(KUdp sid := None)"
  by (rule ext, rename_tac k, case_tac k; simp)+

lemma owns_release1:
  assumes "owns m live n" "m k = Some t"
  shows "owns (m(k := None)) (live - {t}) n" "(live - {t}) - ran (m(k := None)) = live - ran m"
proof -
  have "{t} = {t. \<exists>j\<in>{k}. m j = Some t}" using assms(2) by auto
  from owns_release [OF assms(1) _ _ this, of "m(k := None)"]
  show "owns (m(k := None)) (live - {t}) n" "(live - {t}) - ran (m(k := None)) = live - ran m"
    by simp_all
qed

definition tasks_ok :: "nat set \<Rightarrow> mux_state \<Rightarrow> bool" where
  "tasks_ok orph st = (mux_inv st \<and> orphans st = orph)"

lemma clear_xudp_ok:
  assumes "mux_inv st"
  shows "mux_inv (clear_xudp_sessions st)" "orphans (clear_xudp_sessions st) = orphans st"
proof -
  let ?m' = "task_of (clear_xudp_sessions st)"
  have o: "owns (task_of st) (live_tasks st) (next_task st)" using assms by (simp add: mux_inv_def)
  have T: "snd ` ran (xudp_sessions st) = {t. \<exists>k\<in>range KXudp. task_of st k = Some t}"
    by (auto simp: ran_def image_iff) force+
  have m': "k \<in> range KXudp \<Longrightarrow> ?m' k = None" "k \<notin> range KXudp \<Longrightarrow> ?m' k = task_of st k" for k
    by (cases k; auto simp: clear_xudp_sessions_def)+
  note rel = owns_release [OF o m' T]
  then show "mux_inv (clear_xudp_sessions st)"
    by (simp add: mux_inv_def) (simp add: clear_xudp_sessions_def xudp_single_def)
  show "orphans (clear_xudp_sessions st) = orphans st"
    using rel(2) by (simp add: orphans_def) (simp add: clear_xudp_sessions_def)
qed

lemma abort_ok:
  assumes "mux_inv st" "sessions st sid = Some (u, t)"
  shows "mux_inv (abort_task t (st\<lparr> sessions := (sessions st)(sid := None) \<rparr>))"
    "orphans (abort_task t (st\<lparr> sessions := (sessions st)(sid := None) \<rparr>)) = orphans st"
  using owns_release1 [of "task_of st" "live_tasks st" "next_task st" "KTcp sid" t] assms
  by (simp_all add: mux_inv_def xudp_single_def abort_task_def orphans_def task_of_simps)

lemma abort_udp_ok:
  assumes "mux_inv st" "udp_sessions st sid = Some (u, d, t)"
  shows "mux_inv (abort_task t (st\<lparr> udp_sessions := (udp_sessions st)(sid := None) \<rparr>))"
    "orphans (abort_task t (st\<lparr> udp_sessions := (udp_sessions st)(sid := None) \<rparr>)) = orphans st"
  using owns_release1 [of "task_of st" "live_tasks st" "next_task st" "KUdp sid" t] assms
  by (simp_all add: mux_inv_def xudp_single_def abort_task_def orphans_def task_of_simps)

lemma hoare_weaken: "hoare P m Q \<Longrightarrow> (\<And>st. P' st \<Longrightarrow> P st) \<Longrightarrow> hoare P' m Q"
  unfolding hoare_def by blast

lemma hoare_with_state:
  assumes "\<And>st0. hoare (\<lambda>st. P st \<and> st = st0) (f st0) Q"
  shows "hoare P (with_state f) Q"
  using assms unfolding hoare_def with_state_def by simp

lemma hoare_with_state_same [hoare_rules]: "(\<And>st0. hoare P (f st0) P) \<Longrightarrow> hoare P (with_state f) P"
  by (rule hoare_with_state) (blast intro: hoare_weaken)

lemma hoare_if [hoare_rules]: "hoare P m Q \<Longrightarrow> hoare P m' Q \<Longrightarrow> hoare P (if b then m else m') Q"
  by simp

lemma hoare_case_option [hoare_rules]:
  "hoare P m Q \<Longrightarrow> (\<And>x. hoare P (f x) Q) \<Longrightarrow> hoare P (case_option m f x) Q"
  by (cases x) simp_all

lemma hoare_case_prod [hoare_rules]: "(\<And>a b. hoare P (f a b) Q) \<Longrightarrow> hoare P (case_prod f x) Q"
  by (cases x) simp

lemma hoare_case_network [hoare_rules]:
  "hoare P m Q \<Longrightarrow> hoare P m' Q \<Longrightarrow> hoare P (case_target_network m m' n) Q"
  by (cases n) simp_all

lemma hoare_keep: "hoare P (mux_keep env meta payload) P"
  unfolding mux_keep_def by (intro hoare_rules)

lemma hoare_end: "hoare (tasks_ok orph) (mux_end env meta payload) (tasks_ok orph)"
proof -
  let ?P = "tasks_ok orph" and ?sid = "fm_session_id meta"
  have tcp: "hoare ?P (with_state (\<lambda>st.
        case sessions st ?sid of
          Some (upstream, t) \<Rightarrow>
            io_then (modify (\<lambda>st. abort_task t (st\<lparr> sessions := (sessions st)(?sid := None) \<rparr>))) (\<lambda>_.
            ignore_err (on_world (mux_shutdown env upstream)))
        | None \<Rightarrow> io_lift (Ok ()))) ?P"
  proof (rule hoare_with_state)
    fix st0
    show "hoare (\<lambda>st. ?P st \<and> st = st0) (case sessions st0 ?sid of
          Some (upstream, t) \<Rightarrow>
            io_then (modify (\<lambda>st. abort_task t (st\<lparr> sessions := (sessions st)(?sid := None) \<rparr>))) (\<lambda>_.
            ignore_err (on_world (mux_shutdown env upstream)))
        | None \<Rightarrow> io_lift (Ok ())) ?P"
    proof (cases "sessions st0 ?sid")
      case None
      then show ?thesis by (auto intro: hoare_weaken [OF hoare_lift])
    next
      case (Some ut)
      obtain u t where ut: "ut = (u, t)" by (cases ut)
      have "hoare (\<lambda>st. ?P st \<and> st = st0)
          (modify (\<lambda>st. abort_task t (st\<lparr> sessions := (sessions st)(?sid := None) \<rparr>))) ?P"
        using abort_ok Some ut by (intro hoare_modify) (auto simp: tasks_ok_def)
      then show ?thesis using Some ut by (auto intro!: hoare_then intro: hoare_rules)
    qed
  qed
  have udp: "hoare ?P (with_state (\<lambda>st.
        case udp_sessions st ?sid of
          Some (_, _, t) \<Rightarrow>
            modify (\<lambda>st. abort_task t (st\<lparr> udp_sessions := (udp_sessions st)(?sid := None) \<rparr>))
        | None \<Rightarrow> io_lift (Ok ()))) ?P"
  proof (rule hoare_with_state)
    fix st0
    show "hoare (\<lambda>st. ?P st \<and> st = st0) (case udp_sessions st0 ?sid of
          Some (_, _, t) \<Rightarrow>
            modify (\<lambda>st. abort_task t (st\<lparr> udp_sessions := (udp_sessions st)(?sid := None) \<rparr>))
        | None \<Rightarrow> io_lift (Ok ())) ?P"
    proof (cases "udp_sessions st0 ?sid")
      case None
      then show ?thesis by (auto intro: hoare_weaken [OF hoare_lift])
    next
      case (Some x)
      then show ?thesis using abort_udp_ok
        by (cases x) (auto simp: tasks_ok_def intro!: hoare_modify)
    qed
  qed
  have clr: "hoare ?P (modify clear_xudp_sessions) ?P"
    using clear_xudp_ok by (intro hoare_modify) (auto simp: tasks_ok_def)
  show ?thesis unfolding mux_end_def Let_def
    by (intro hoare_then_same tcp udp clr) (intro hoare_rules clr)+
qed

lemma spawn_tcp_ok:
  assumes "mux_inv st"
    and st': "st' = spawn_task (\<lambda>t st. st\<lparr> sessions := (sessions st)(sid \<mapsto> (u, t)) \<rparr>) st"
  shows "mux_inv st'" "sessions st sid = None \<Longrightarrow> orphans st' = orphans st"
  using owns_spawn [of "task_of st" "live_tasks st" "next_task st" "KTcp sid"] assms(1)
    task_of_simps(4) [of "st\<lparr> live_tasks := insert (next_task st) (live_tasks st), next_task := Suc (next_task st) \<rparr>" sid u "next_task st"]
  by (simp_all add: st' spawn_task_def mux_inv_def xudp_single_def orphans_def task_of_simps)

lemma spawn_udp_ok:
  assumes "mux_inv st"
    and st': "st' = spawn_task (\<lambda>t st. st\<lparr> udp_sessions := (udp_sessions st)(sid \<mapsto> (u, d, t)) \<rparr>) st"
  shows "mux_inv st'" "udp_sessions st sid = None \<Longrightarrow> orphans st' = orphans st"
  using owns_spawn [of "task_of st" "live_tasks st" "next_task st" "KUdp sid"] assms(1)
    task_of_simps(5) [of "st\<lparr> live_tasks := insert (next_task st) (live_tasks st), next_task := Suc (next_task st) \<rparr>" sid u d "next_task st"]
  by (simp_all add: st' spawn_task_def mux_inv_def xudp_single_def orphans_def task_of_simps)

lemma spawn_xudp_ok:
  assumes "mux_inv st" "xudp_sessions st = Map.empty"
    and st': "st' = spawn_task (\<lambda>t st. st\<lparr> xudp_sessions := (xudp_sessions st)(g \<mapsto> (u, t)), active_xudp := Some g \<rparr>) st"
  shows "mux_inv st'" "orphans st' = orphans st"
  using owns_spawn [of "task_of st" "live_tasks st" "next_task st" "KXudp g"] assms(1,2)
    task_of_simps(6) [of "st\<lparr> live_tasks := insert (next_task st) (live_tasks st), next_task := Suc (next_task st) \<rparr>" g u "next_task st"]
  by (simp_all add: st' spawn_task_def mux_inv_def xudp_single_def orphans_def task_of_simps)

text \<open>The key a \<open>New\<close> frame registers under when it opens an ordinary session.\<close>

definition new_key :: "frame_metadata \<Rightarrow> task_key option" where
  "new_key meta =
     (if fm_status meta \<noteq> New \<or> is_xudp_metadata meta then None
      else case fm_target meta of
        Some (TargetTcp, _) \<Rightarrow> Some (KTcp (fm_session_id meta))
      | Some (TargetUdp, _) \<Rightarrow> Some (KUdp (fm_session_id meta))
      | None \<Rightarrow> None)"

lemma hoare_new_xudp:
  assumes "is_xudp_metadata meta"
  shows "hoare (tasks_ok orph) (mux_new env meta payload) (tasks_ok orph)"
proof -
  let ?R = "\<lambda>st. tasks_ok orph st \<and> xudp_sessions st = Map.empty"
  have clr: "hoare (tasks_ok orph) (modify clear_xudp_sessions) ?R"
    using clear_xudp_ok by (intro hoare_modify) (auto simp: tasks_ok_def clear_xudp_sessions_def)
  have spawn: "hoare ?R (modify (spawn_task (\<lambda>t st. st\<lparr> xudp_sessions := (xudp_sessions st)(g \<mapsto> (u, t)),
      active_xudp := Some g \<rparr>))) (tasks_ok orph)" for g u
    using spawn_xudp_ok by (intro hoare_modify) (auto simp: tasks_ok_def)
  have pre: "hoare ?R (on_world m) ?R" "hoare ?R (with_payload payload (\<lambda>d. on_world (n d))) ?R" for m n
    by (intro hoare_rules)+
  show ?thesis using assms unfolding mux_new_def
    by (auto split: option.splits intro!: hoare_lift hoare_then [OF clr] hoare_then [OF pre(1)]
        hoare_then [OF pre(2)] spawn)
qed

lemma hoare_new_plain:
  assumes plain: "\<not> is_xudp_metadata meta"
    and keep: "\<And>st u. P st \<Longrightarrow> Q st"
    and tcp: "\<And>d st u. fm_target meta = Some (TargetTcp, d) \<Longrightarrow> P st \<Longrightarrow>
      Q (spawn_task (\<lambda>t st. st\<lparr> sessions := (sessions st)(fm_session_id meta \<mapsto> (u, t)) \<rparr>) st)"
    and udp: "\<And>d st u. fm_target meta = Some (TargetUdp, d) \<Longrightarrow> P st \<Longrightarrow>
      Q (spawn_task (\<lambda>t st. st\<lparr> udp_sessions := (udp_sessions st)(fm_session_id meta \<mapsto> (u, d, t)) \<rparr>) st)"
  shows "hoare P (mux_new env meta payload) Q"
proof -
  have pre: "hoare P (on_world m) P" "hoare P (with_payload payload (\<lambda>d. on_world (n d))) P" for m n
    by (intro hoare_rules)+
  have err: "hoare P (io_lift r) Q" for r using keep by (simp add: hoare_def io_lift_def)
  show ?thesis using plain unfolding mux_new_def
    by (auto split: option.splits target_network.splits intro!: err hoare_then [OF pre(1)]
        hoare_then [OF pre(2)] hoare_modify tcp udp intro: keep)
qed

lemma hoare_tasks_inv:
  assumes "\<And>orph. hoare (tasks_ok orph) m (tasks_ok orph)"
  shows "hoare mux_inv m mux_inv"
  unfolding hoare_def
proof (intro allI impI)
  fix st w r st' w'
  assume "mux_inv st" and run: "m (st, w) = (r, st', w')"
  then have "tasks_ok (orphans st) st" by (simp add: tasks_ok_def)
  then have "tasks_ok (orphans st) st'" using assms [of "orphans st"] run unfolding hoare_def by blast
  then show "mux_inv st'" by (simp add: tasks_ok_def)
qed

lemma mux_step_inv: "hoare mux_inv (mux_handle env meta payload) mux_inv"
proof (cases "fm_status meta")
  case New
  show ?thesis
  proof (cases "is_xudp_metadata meta")
    case True
    show ?thesis using New hoare_tasks_inv [OF hoare_new_xudp [OF True]] by (simp add: mux_handle_def)
  next
    case False
    then show ?thesis using New spawn_tcp_ok(1) spawn_udp_ok(1)
      by (auto simp: mux_handle_def intro!: hoare_new_plain)
  qed
next
  case Keep
  then show ?thesis by (simp add: mux_handle_def hoare_keep)
next
  case End
  then show ?thesis using hoare_tasks_inv [OF hoare_end] by (simp add: mux_handle_def)
next
  case KeepAlive
  then show ?thesis by (simp add: mux_handle_def hoare_lift)
qed

lemma mux_step_orphans:
  assumes "\<And>k. new_key meta = Some k \<Longrightarrow> task_of st k = None" "mux_inv st"
    and run: "mux_handle env meta payload (st, w) = (r, st', w')"
  shows "orphans st' = orphans st"
proof -
  let ?P = "\<lambda>s. tasks_ok (orphans st) s \<and> s = st"
  have "hoare ?P (mux_handle env meta payload) (tasks_ok (orphans st))"
  proof (cases "fm_status meta")
    case New
    show ?thesis
    proof (cases "is_xudp_metadata meta")
      case True
      then show ?thesis using New hoare_weaken [OF hoare_new_xudp [OF True], of ?P "orphans st"]
        by (simp add: mux_handle_def)
    next
      case False
      have k: "fm_target meta = Some (TargetTcp, d) \<Longrightarrow> sessions st (fm_session_id meta) = None"
        "fm_target meta = Some (TargetUdp, d) \<Longrightarrow> udp_sessions st (fm_session_id meta) = None" for d
        using assms(1) New False by (auto simp: new_key_def)
      show ?thesis using New False k spawn_tcp_ok spawn_udp_ok
        by (auto simp: mux_handle_def tasks_ok_def intro!: hoare_new_plain)
    qed
  next
    case Keep
    then show ?thesis using hoare_weaken [OF hoare_keep, of ?P "tasks_ok (orphans st)"]
      by (simp add: mux_handle_def)
  next
    case End
    then show ?thesis using hoare_weaken [OF hoare_end, of ?P "orphans st"]
      by (simp add: mux_handle_def)
  next
    case KeepAlive
    then show ?thesis using hoare_weaken [OF hoare_lift, of ?P "tasks_ok (orphans st)"]
      by (simp add: mux_handle_def)
  qed
  moreover have "?P st" using assms(2) by (simp add: tasks_ok_def)
  ultimately have "tasks_ok (orphans st) st'" using run unfolding hoare_def by blast
  then show ?thesis by (simp add: tasks_ok_def)
qed

declare relay_mux_cool.simps [simp del]


lemma xudp_single_abort_all [simp]: "xudp_single (abort_all st) = xudp_single st"
  by (simp add: xudp_single_def abort_all_def)

lemma relay_mux_cool_xudp:
  "mux_inv (fst s) \<Longrightarrow> relay_mux_cool env reader s = (r, st', w') \<Longrightarrow>
     xudp_single st'"
proof (induction env reader s rule: relay_mux_cool.induct)
  case (1 env reader s)
  obtain st w where s: "s = (st, w)" by (cases s)
  show ?case
  proof (cases "read_mux_frame reader")
    case (Ok x)
    obtain meta payload rest where x: "x = (meta, payload, rest)" by (cases x)
    obtain r1 st1 w1 where h: "mux_handle env meta payload s = (r1, st1, w1)" by (metis prod.exhaust)
    have inv: "mux_inv st1" using mux_step_inv "1.prems"(1) h s unfolding hoare_def by (metis fst_conv)
    show ?thesis
    proof (cases r1)
      case (Ok u)
      then show ?thesis
        using "1.IH" [OF \<open>read_mux_frame reader = _\<close> x [symmetric] refl, of "Ok u" "(st1, w1)" u] h inv
          "1.prems"(2) x \<open>read_mux_frame reader = _\<close>
        by (simp add: relay_mux_cool.simps [of env reader s])
    qed (use h inv "1.prems"(2) x Ok in \<open>auto simp: relay_mux_cool.simps [of env reader s] mux_inv_def\<close>)
  next
    case (Err e)
    then show ?thesis using "1.prems" s
      by (cases e) (auto simp: relay_mux_cool.simps [of env reader "(st, w)"] mux_inv_def)
  next
    case Panic
    then show ?thesis using "1.prems" s
      by (auto simp: relay_mux_cool.simps [of env reader "(st, w)"] mux_inv_def)
  qed
qed

lemma mux_inv_init: "mux_inv mux_init"
proof -
  have "task_of mux_init k = None" for k by (cases k) (simp_all add: mux_init_def)
  then have "task_of mux_init = Map.empty" by auto
  then show ?thesis by (simp add: mux_inv_def owns_def xudp_single_def) (simp add: mux_init_def)
qed

lemma encode_address_port_length: "encode_address_port d = Ok a \<Longrightarrow> 4 \<le> length a \<and> length a \<le> 259"
  by (cases d) (auto simp: encode_address_port_def and_then_Ok_iff domain_wire_len_Ok_iff)

section \<open>Properties\<close>

text \<open>A frame that opens a TCP sub-connection and carries a payload exactly when its option says so
  is parsed back to the same session, option and destination; its payload comes back exactly if it
  is shorter than 65536 bytes.  The encoder accepts up to 512 KiB but writes the length in sixteen
  bits, so that a longer payload is cut to its length modulo 65536.\<close>

lemma mux_new_frame_roundtrip:
  assumes "wf_address d" "encode_new_metadata sid d opt = Ok meta"
    and "encode_frame meta payload = Ok bs" "(payload \<noteq> None) = (opt AND OPT_DATA \<noteq> 0)"
  shows "\<exists>payload' n. parse_frame (bs @ rest) =
       Ok (\<lparr> fm_session_id = sid, fm_status = New, fm_option = opt,
             fm_target = Some (TargetTcp, d), fm_global_id = None \<rparr>, payload', n) \<and>
     (payload' = payload \<longleftrightarrow> (case payload of None \<Rightarrow> True | Some data \<Rightarrow> length data < 65536)) \<and>
     (payload' = payload \<longrightarrow> n = length bs) \<and>
     payload' = map_option (\<lambda>data. take (length data mod 65536) data) payload"
proof -
  let ?p = "map_option (\<lambda>data. take (length data mod 65536) data) payload"
  have "take (length data mod 65536) data = data \<longleftrightarrow> length data < 65536" for data :: bytes
  proof -
    have "length data mod 65536 < 65536" by simp
    then show ?thesis by (cases "length data < 65536") (simp, metis linorder_not_less order_less_le_trans take_all_iff)
  qed
  then have "?p = payload \<longleftrightarrow> (case payload of None \<Rightarrow> True | Some data \<Rightarrow> length data < 65536)"
    by (cases payload) simp_all
  then show ?thesis
    using parse_frame_encoded [OF assms(3) parse_new_metadata [OF assms(1,2)], of rest] assms(3,4)
    by (auto simp: encode_frame_Ok_iff split: option.splits)
qed

text \<open>Whatever a client sends and whatever the network does, the demultiplexer keeps at most one
  XUDP flow, and it is the one recorded as active.\<close>

lemma mux_single_xudp_flow:
  "case relay_mux_cool env reader (mux_init, w) of (r, st, w') \<Rightarrow>
     dom (xudp_sessions st) = set_option (active_xudp st)"
proof (cases "relay_mux_cool env reader (mux_init, w)")
  case (fields r st w')
  then show ?thesis using relay_mux_cool_xudp [of "(mux_init, w)"] mux_inv_init
    by (auto simp: xudp_single_def)
qed

text \<open>Handling a frame loses no reader task: in a well-formed state, unless the frame opens a
  session under an identifier that is still in use, every live task that no session table refers to
  afterwards was already such a task before.\<close>

lemma mux_frame_loses_no_task:
  assumes "mux_inv st" "mux_handle env meta payload (st, w) = (r, st', w')"
    and "\<And>k. new_key meta = Some k \<Longrightarrow> task_of st k = None"
  shows "mux_inv st' \<and> orphans st' = orphans st"
proof -
  have "mux_inv st'"
    using mux_step_inv [of env meta payload] assms(1,2) unfolding hoare_def by blast
  then show ?thesis using mux_step_orphans [OF assms(3,1,2)] by simp
qed

definition sample_mux_env :: "unit mux_env" where
  "sample_mux_env = \<lparr>
     mux_connect_outbound = (\<lambda>_. io_lift (Ok 0)), mux_write_all = (\<lambda>_ _. io_lift (Ok ())),
     mux_shutdown = (\<lambda>_. io_lift (Ok ())), mux_resolve_udp_dest = (\<lambda>_. io_lift (Err Timeout)),
     mux_bind_udp = (\<lambda>_. io_lift (Ok 0)), mux_udp_connect = (\<lambda>_ _. io_lift (Ok ())),
     mux_udp_send = (\<lambda>_ _. io_lift (Ok ())), mux_udp_send_to = (\<lambda>_ _ _. io_lift (Ok ())) \<rparr>"

definition sample_new :: frame_metadata where
  "sample_new = \<lparr> fm_session_id = 1, fm_status = New, fm_option = 0,
     fm_target = Some (TargetTcp, Ipv4 0x01020304 80), fm_global_id = None \<rparr>"

definition sample_frame :: bytes where
  "sample_frame = [0, 12, 0, 1, 1, 0, 1, 0, 80, 1, 1, 2, 3, 4]"

lemma sample_frame_read:
  "read_mux_frame (sample_frame @ rest) = Ok (sample_new, None, rest)"
proof -
  have "parse_metadata [0, 1, 1, 0, 1, 0, 80, 1, 1, 2, 3, 4] = Ok sample_new" by code_simp
  moreover have "read_u16 (0 # 12 # xs) = Ok (12, xs)" for xs
    by (simp add: read_u16_def read_exact_def from_be_def)
  ultimately show ?thesis
    by (simp add: read_mux_frame_def sample_frame_def MAX_META_LEN_def Let_def read_exact_def)
      (simp add: sample_new_def)
qed


text \<open>The header of a VLESS UDP packet is read back with its destination, leaving exactly the
  payload on the stream.\<close>

lemma vless_udp_packet_roundtrip:
  assumes "wf_address d" "write_udp_packet [] d payload = Ok bs"
  shows "read_udp_header bs = Ok (d, payload)"
proof -
  from assms(2) obtain a where a: "encode_address_port d = Ok a"
    and bs: "bs = to_be 2 (word_of_nat (length a) :: u16) @ a @ payload"
    by (auto simp: write_udp_packet_def and_then_Ok_iff Let_def split: if_splits)
  show ?thesis
    using vless_addr.dec_enc_exact [OF assms(1) a] encode_address_port_length [OF a] bs
    by (auto simp: read_udp_header_def decode_address_port_def Let_def)
qed

end
