(* ===== verification/Ip_Match.thy ===== *)
theory Ip_Match
  imports Addresses
begin

text \<open>
  Matching an address against a list of CIDR ranges: \<^verbatim>\<open>IpMatcher\<close>
  (crates/blackwire-app/src/router.rs) and \<^verbatim>\<open>GeoIpMatcher\<close> with the conversion of geoip.dat entries
  (crates/blackwire-app/src/geo/geoip.rs, geo/proto.rs).

  The network type comes from the \<^verbatim>\<open>ipnet\<close> crate.  Its operations are the fields of the record
  \<open>ipnet\<close>, an argument of the matchers; the locale \<open>ipnet_laws\<close> states what its documentation
  promises: a range is an interval of addresses, and ranges are ordered by address and then by
  prefix length.  \<open>cidr_ops\<close> is a direct definition of that behaviour, and the locale is
  interpreted on it.

  Both matchers look at no more than the four ranges before the probe.  The theory shows that this
  is always sound, that it is complete for ranges that do not overlap, and that it misses addresses
  for nested ranges and for ranges written with host bits.
\<close>

section \<open>The order on addresses\<close>

instantiation ip_addr :: linorder
begin

fun less_eq_ip_addr :: "ip_addr \<Rightarrow> ip_addr \<Rightarrow> bool" where
  "less_eq_ip_addr (V4 a) (V4 b) = (a \<le> b)"
| "less_eq_ip_addr (V4 _) (V6 _) = True"
| "less_eq_ip_addr (V6 _) (V4 _) = False"
| "less_eq_ip_addr (V6 a) (V6 b) = (a \<le> b)"

definition less_ip_addr :: "ip_addr \<Rightarrow> ip_addr \<Rightarrow> bool" where
  "less_ip_addr x y = (x \<le> y \<and> \<not> y \<le> (x :: ip_addr))"

instance
proof
  fix x y z :: ip_addr
  show "(x < y) = (x \<le> y \<and> \<not> y \<le> x)" by (simp add: less_ip_addr_def)
  show "x \<le> x" by (cases x) auto
  show "x \<le> y \<Longrightarrow> y \<le> z \<Longrightarrow> x \<le> z" by (cases x; cases y; cases z) auto
  show "x \<le> y \<Longrightarrow> y \<le> x \<Longrightarrow> x = y" by (cases x; cases y) auto
  show "x \<le> y \<or> y \<le> x" by (cases x; cases y) auto
qed

end

section \<open>The matchers\<close>

record 'net ipnet =
  ipnet_new :: "ip_addr \<Rightarrow> u8 \<Rightarrow> 'net option"
  ipnet_contains :: "'net \<Rightarrow> ip_addr \<Rightarrow> bool"
  ipnet_le :: "'net \<Rightarrow> 'net \<Rightarrow> bool"

definition partition_point :: "('a \<Rightarrow> bool) \<Rightarrow> 'a list \<Rightarrow> nat" where
  "partition_point p xs = length (takeWhile p xs)"

fun insert_sorted :: "('a \<Rightarrow> 'a \<Rightarrow> bool) \<Rightarrow> 'a \<Rightarrow> 'a list \<Rightarrow> 'a list" where
  "insert_sorted le x [] = [x]"
| "insert_sorted le x (y # ys) = (if le x y then x # y # ys else y # insert_sorted le x ys)"

definition sort_ranges :: "('a \<Rightarrow> 'a \<Rightarrow> bool) \<Rightarrow> 'a list \<Rightarrow> 'a list" where
  "sort_ranges le xs = foldr (insert_sorted le) xs []"

fun full_prefix :: "ip_addr \<Rightarrow> u8" where
  "full_prefix (V4 _) = 32"
| "full_prefix (V6 _) = 128"

fun parse_ranges :: "(string \<Rightarrow> 'net option) \<Rightarrow> string list \<Rightarrow> 'net list option" where
  "parse_ranges parse [] = Some []"
| "parse_ranges parse (r # rs) =
     (case parse r of
        None \<Rightarrow> None
      | Some net \<Rightarrow> (case parse_ranges parse rs of None \<Rightarrow> None | Some nets \<Rightarrow> Some (net # nets)))"

definition ip_matcher_new :: "'net ipnet \<Rightarrow> (string \<Rightarrow> 'net option) \<Rightarrow> string list \<Rightarrow> 'net list option" where
  "ip_matcher_new ops parse ranges =
     (case parse_ranges parse ranges of
        None \<Rightarrow> None
      | Some parsed \<Rightarrow> Some (sort_ranges (ipnet_le ops) parsed))"

definition ip_matches :: "'net ipnet \<Rightarrow> 'net list \<Rightarrow> ip_addr \<Rightarrow> bool" where
  "ip_matches ops ranges ip =
     (if ranges = [] then False
      else case ipnet_new ops ip (full_prefix ip) of
        None \<Rightarrow> list_ex (\<lambda>net. ipnet_contains ops net ip) ranges
      | Some probe \<Rightarrow>
          let idx = partition_point (\<lambda>net. ipnet_le ops net probe) ranges in
          list_ex (\<lambda>net. ipnet_contains ops net ip) (rev (drop (idx - 4) (take idx ranges))))"

definition MAX_OVERLAP_SCAN :: nat where "MAX_OVERLAP_SCAN = 4"

record cidr =
  cidr_ip :: bytes
  cidr_prefix :: u32

record geo_ip =
  geo_country_code :: string
  geo_cidr :: "cidr list"
  geo_inverse_match :: bool

definition parse_cidr :: "'net ipnet \<Rightarrow> cidr \<Rightarrow> 'net option" where
  "parse_cidr ops c =
     (let prefix = (ucast (cidr_prefix c) :: u8) in
      if length (cidr_ip c) = 4 then ipnet_new ops (V4 (from_be (cidr_ip c))) prefix
      else if length (cidr_ip c) = 16 then ipnet_new ops (V6 (from_be (cidr_ip c))) prefix
      else None)"

definition geoip_from_proto :: "'net ipnet \<Rightarrow> geo_ip \<Rightarrow> 'net list" where
  "geoip_from_proto ops entry =
     sort_ranges (ipnet_le ops) (List.map_filter (parse_cidr ops) (geo_cidr entry))"

definition geoip_from_ranges :: "'net ipnet \<Rightarrow> 'net list \<Rightarrow> 'net list" where
  "geoip_from_ranges ops ranges = sort_ranges (ipnet_le ops) ranges"

definition match_ip :: "'net ipnet \<Rightarrow> 'net list \<Rightarrow> ip_addr \<Rightarrow> bool" where
  "match_ip ops ranges ip =
     (if ranges = [] then False
      else case ipnet_new ops ip (full_prefix ip) of
        None \<Rightarrow> list_ex (\<lambda>net. ipnet_contains ops net ip) ranges
      | Some probe \<Rightarrow>
          let idx = partition_point (\<lambda>net. ipnet_le ops net probe) ranges;
              start = idx - MAX_OVERLAP_SCAN in
          list_ex (\<lambda>net. ipnet_contains ops net ip) (rev (drop start (take idx ranges))))"

section \<open>What the ipnet crate documents\<close>

locale ipnet_laws =
  fixes ops :: "'net ipnet"
    and addr :: "'net \<Rightarrow> ip_addr"
    and prefix_len :: "'net \<Rightarrow> u8"
    and network :: "'net \<Rightarrow> ip_addr"
    and broadcast :: "'net \<Rightarrow> ip_addr"
  assumes le_iff: "ipnet_le ops n m \<longleftrightarrow> addr n < addr m \<or> (addr n = addr m \<and> prefix_len n \<le> prefix_len m)"
    and contains_iff: "ipnet_contains ops n ip \<longleftrightarrow> network n \<le> ip \<and> ip \<le> broadcast n"
    and addr_in: "network n \<le> addr n" "addr n \<le> broadcast n"
    and new_full: "\<exists>n. ipnet_new ops ip (full_prefix ip) = Some n \<and> addr n = ip \<and> prefix_len n = full_prefix ip"
    and prefix_bound: "prefix_len n \<le> full_prefix (addr n)"
begin

lemma contains_le_probe:
  assumes "ipnet_new ops ip (full_prefix ip) = Some probe" "network n = addr n" "ipnet_contains ops n ip"
  shows "ipnet_le ops n probe"
proof -
  have p: "addr probe = ip" "prefix_len probe = full_prefix ip" using new_full [of ip] assms(1) by auto
  have "addr n \<le> ip" using assms(2,3) by (simp add: contains_iff)
  then show ?thesis using p prefix_bound [of n] unfolding le_iff by (cases "addr n = ip") auto
qed

text \<open>In a sorted list without overlaps only the last range not above the probe can contain it.\<close>

lemma last_candidate:
  assumes probe: "ipnet_new ops ip (full_prefix ip) = Some probe"
    and srt: "sorted_wrt (ipnet_le ops) (xs @ n # ys)"
    and tr: "\<And>m. m \<in> set (n # ys) \<Longrightarrow> network m = addr m"
    and disj: "\<And>m. m \<in> set ys \<Longrightarrow> \<not> ipnet_contains ops n (addr m)"
    and n: "ipnet_contains ops n ip" and m: "m \<in> set ys"
  shows "\<not> ipnet_le ops m probe"
proof
  assume le: "ipnet_le ops m probe"
  have p: "addr probe = ip" using new_full [of ip] probe by auto
  have "addr m \<le> ip" using le p by (auto simp: le_iff)
  moreover have "addr n \<le> addr m" using srt m by (auto simp: sorted_wrt_append le_iff)
  moreover have "network n = addr n" "ip \<le> broadcast n" using tr n by (simp_all add: contains_iff)
  ultimately have "ipnet_contains ops n (addr m)" by (simp add: contains_iff)
  then show False using disj m by blast
qed

lemma candidates_complete:
  assumes probe: "ipnet_new ops ip (full_prefix ip) = Some probe"
    and srt: "sorted_wrt (ipnet_le ops) ranges"
    and tr: "\<And>m. m \<in> set ranges \<Longrightarrow> network m = addr m"
    and disj: "\<And>n m. n \<in> set ranges \<Longrightarrow> m \<in> set ranges \<Longrightarrow> n \<noteq> m \<Longrightarrow> \<not> ipnet_contains ops n (addr m)"
    and dist: "distinct ranges"
    and n: "n \<in> set ranges" "ipnet_contains ops n ip"
  shows "\<exists>xs ys. ranges = xs @ n # ys \<and> partition_point (\<lambda>m. ipnet_le ops m probe) ranges = Suc (length xs)"
proof -
  obtain xs ys where r: "ranges = xs @ n # ys" using n(1) by (meson split_list)
  have len: "ipnet_le ops n probe" using contains_le_probe [OF probe tr [OF n(1)] n(2)] .
  have trans: "ipnet_le ops a b \<Longrightarrow> ipnet_le ops b c \<Longrightarrow> ipnet_le ops a c" for a b c
    by (auto simp: le_iff)
  have xs: "m \<in> set xs \<Longrightarrow> ipnet_le ops m probe" for m
    using srt r len trans by (auto simp: sorted_wrt_append)
  have "m \<in> set ys \<Longrightarrow> \<not> ipnet_le ops m probe" for m
    using last_candidate [OF probe, of xs n ys] srt r tr disj dist n(2) by auto
  then have "takeWhile (\<lambda>m. ipnet_le ops m probe) ranges = xs @ [n]"
    using xs len r by (cases ys) (auto simp: takeWhile_append2)
  then show ?thesis using r by (auto simp: partition_point_def)
qed

lemma ip_matches_iff_disjoint:
  assumes "sorted_wrt (ipnet_le ops) ranges" "distinct ranges"
    and "\<And>m. m \<in> set ranges \<Longrightarrow> network m = addr m"
    and "\<And>n m. n \<in> set ranges \<Longrightarrow> m \<in> set ranges \<Longrightarrow> n \<noteq> m \<Longrightarrow> \<not> ipnet_contains ops n (addr m)"
  shows "ip_matches ops ranges ip \<longleftrightarrow> (\<exists>n\<in>set ranges. ipnet_contains ops n ip)"
proof
  assume "ip_matches ops ranges ip"
  then show "\<exists>n\<in>set ranges. ipnet_contains ops n ip"
    by (auto simp: ip_matches_def list_ex_iff Let_def dest: in_set_dropD in_set_takeD
        split: if_splits option.splits)
next
  assume "\<exists>n\<in>set ranges. ipnet_contains ops n ip"
  then obtain n where n: "n \<in> set ranges" "ipnet_contains ops n ip" by blast
  obtain probe where p: "ipnet_new ops ip (full_prefix ip) = Some probe" using new_full by blast
  obtain xs ys where r: "ranges = xs @ n # ys"
    "partition_point (\<lambda>m. ipnet_le ops m probe) ranges = Suc (length xs)"
    using candidates_complete [OF p assms(1) assms(3,4) assms(2) n] by blast
  have "n \<in> set (drop (Suc (length xs) - 4) (take (Suc (length xs)) ranges))"
    using r(1) by (cases "length xs < 3") (auto simp: not_less)
  then show "ip_matches ops ranges ip"
    using p r n by (auto simp: ip_matches_def list_ex_iff Let_def)
qed

end

section \<open>Facts of every list of ranges\<close>

lemma mset_insert_sorted: "set (insert_sorted le x ys) = insert x (set ys)"
  by (induction ys) auto

lemma set_sort_ranges [simp]: "set (sort_ranges le xs) = set xs"
  by (induction xs) (simp_all add: sort_ranges_def mset_insert_sorted)

lemma distinct_insert_sorted: "distinct (insert_sorted le x ys) \<longleftrightarrow> x \<notin> set ys \<and> distinct ys"
  by (induction ys) (auto simp: mset_insert_sorted)

lemma distinct_sort_ranges [simp]: "distinct (sort_ranges le xs) = distinct xs"
proof (induction xs)
  case (Cons x xs)
  then show ?case
    using set_sort_ranges [of le xs] by (simp add: sort_ranges_def distinct_insert_sorted)
qed (simp add: sort_ranges_def)

lemma sorted_insert_sorted:
  assumes "\<And>a b. le a b \<or> le b a" "\<And>a b c. le a b \<Longrightarrow> le b c \<Longrightarrow> le a c" "sorted_wrt le ys"
  shows "sorted_wrt le (insert_sorted le x ys)"
  using assms(3)
proof (induction ys)
  case (Cons y ys)
  then show ?case using assms(1) [of x y] assms(2) by (auto simp: mset_insert_sorted)
qed simp

lemma sorted_sort_ranges:
  assumes "\<And>a b. le a b \<or> le b a" "\<And>a b c. le a b \<Longrightarrow> le b c \<Longrightarrow> le a c"
  shows "sorted_wrt le (sort_ranges le xs)"
  by (induction xs) (simp_all add: sort_ranges_def sorted_insert_sorted [OF assms])

lemma parse_ranges_Some: "map parse rs = map Some nets \<Longrightarrow> parse_ranges parse rs = Some nets"
proof (induction rs arbitrary: nets)
  case (Cons r rs)
  then obtain net nets' where n: "nets = net # nets'" by (cases nets) auto
  show ?case using Cons.IH [of nets'] Cons.prems unfolding n by simp
qed simp

lemma parse_ranges_None_iff: "parse_ranges parse rs = None \<longleftrightarrow> None \<in> parse ` set rs"
  by (induction rs) (auto split: option.splits intro: rev_image_eqI)

lemma match_ip_eq_ip_matches: "match_ip = ip_matches"
  unfolding match_ip_def ip_matches_def MAX_OVERLAP_SCAN_def Let_def ..

text \<open>An address that matches lies in one of the ranges, whatever the list and the crate.\<close>

lemma ip_matches_sound:
  "ip_matches ops ranges ip \<Longrightarrow> \<exists>n\<in>set ranges. ipnet_contains ops n ip"
  by (auto simp: ip_matches_def list_ex_iff Let_def dest: in_set_dropD in_set_takeD
      split: if_splits option.splits)

context ipnet_laws
begin

lemma ranges_sorted: "sorted_wrt (ipnet_le ops) (sort_ranges (ipnet_le ops) xs)"
  by (rule sorted_sort_ranges) (auto simp: le_iff)

lemma new_matches_iff:
  assumes "ip_matcher_new ops parse rs = Some ranges"
    and "map parse rs = map Some nets" "distinct nets"
    and "\<And>m. m \<in> set nets \<Longrightarrow> network m = addr m"
    and "\<And>n m. n \<in> set nets \<Longrightarrow> m \<in> set nets \<Longrightarrow> n \<noteq> m \<Longrightarrow> \<not> ipnet_contains ops n (addr m)"
  shows "ip_matches ops ranges ip \<longleftrightarrow> (\<exists>n\<in>set nets. ipnet_contains ops n ip)"
proof -
  have r: "ranges = sort_ranges (ipnet_le ops) nets"
    using assms(1) parse_ranges_Some [OF assms(2)] by (simp add: ip_matcher_new_def)
  show ?thesis unfolding r
    using ip_matches_iff_disjoint [of "sort_ranges (ipnet_le ops) nets"] ranges_sorted assms(3-5) by simp
qed

end

section \<open>A direct definition of the crate's operations\<close>

text \<open>
  A range is an address with its prefix length; a length above the address width stands for the
  full width (\<open>cidr_new\<close> never builds one).
\<close>

definition cidr_plen :: "ip_addr \<times> u8 \<Rightarrow> u8" where
  "cidr_plen n = min (snd n) (full_prefix (fst n))"

fun cidr_new :: "ip_addr \<Rightarrow> u8 \<Rightarrow> (ip_addr \<times> u8) option" where
  "cidr_new ip p = (if p \<le> full_prefix ip then Some (ip, p) else None)"

definition cidr_network :: "ip_addr \<times> u8 \<Rightarrow> ip_addr" where
  "cidr_network n =
     (case fst n of
        V4 a \<Rightarrow> V4 (a AND NOT (mask (32 - unat (cidr_plen n))))
      | V6 a \<Rightarrow> V6 (a AND NOT (mask (128 - unat (cidr_plen n)))))"

definition cidr_broadcast :: "ip_addr \<times> u8 \<Rightarrow> ip_addr" where
  "cidr_broadcast n =
     (case fst n of
        V4 a \<Rightarrow> V4 (a OR mask (32 - unat (cidr_plen n)))
      | V6 a \<Rightarrow> V6 (a OR mask (128 - unat (cidr_plen n))))"

definition cidr_ops :: "(ip_addr \<times> u8) ipnet" where
  "cidr_ops =
     \<lparr>ipnet_new = cidr_new,
      ipnet_contains = (\<lambda>n ip. cidr_network n \<le> ip \<and> ip \<le> cidr_broadcast n),
      ipnet_le = (\<lambda>n m. fst n < fst m \<or> (fst n = fst m \<and> cidr_plen n \<le> cidr_plen m))\<rparr>"

interpretation cidr: ipnet_laws cidr_ops fst cidr_plen cidr_network cidr_broadcast
proof unfold_locales
  fix n :: "ip_addr \<times> u8" and ip
  show "cidr_network n \<le> fst n"
    by (auto simp: cidr_network_def word_and_le2 split: ip_addr.splits)
  show "fst n \<le> cidr_broadcast n"
    by (auto simp: cidr_broadcast_def le_word_or2 split: ip_addr.splits)
  show "\<exists>n. ipnet_new cidr_ops ip (full_prefix ip) = Some n \<and> fst n = ip \<and> cidr_plen n = full_prefix ip"
    by (simp add: cidr_ops_def cidr_plen_def)
qed (simp_all add: cidr_ops_def cidr_plen_def)

section \<open>Correctness\<close>

text \<open>A rule's IP matcher built from ranges that are written with their network address and do
  not overlap accepts exactly the addresses of those ranges, although it inspects only the four
  ranges before the probe.  The ipnet crate is the argument \<open>ops\<close> with its documented laws.\<close>

lemma ip_matcher_exact_on_disjoint_ranges:
  assumes "ipnet_laws ops addr plen network broadcast"
    and "ip_matcher_new ops parse rs = Some ranges"
    and "map parse rs = map Some nets" "distinct nets"
    and "\<And>m. m \<in> set nets \<Longrightarrow> network m = addr m"
    and "\<And>n m. n \<in> set nets \<Longrightarrow> m \<in> set nets \<Longrightarrow> n \<noteq> m \<Longrightarrow> \<not> ipnet_contains ops n (addr m)"
  shows "ip_matches ops ranges ip \<longleftrightarrow> (\<exists>n\<in>set nets. ipnet_contains ops n ip)"
  using ipnet_laws.new_matches_iff [OF assms] .

definition demo_parse :: "string \<Rightarrow> (ip_addr \<times> u8) option" where
  "demo_parse s =
     (if s = ''10.0.0.0/8'' then Some (V4 0x0A000000, 8)
      else if s = ''192.168.1.0/24'' then Some (V4 0xC0A80100, 24)
      else if s = ''192.168.1.10/24'' then Some (V4 0xC0A8010A, 24)
      else None)"

definition nested_ranges :: "(ip_addr \<times> u8) list" where
  "nested_ranges =
     [(V4 0x0A000000, 8), (V4 0x0A010000, 16), (V4 0x0A020000, 16), (V4 0x0A030000, 16), (V4 0x0A040000, 16)]"

text \<open>Two kinds of listed addresses are missed.  With 10.0.0.0/8 and four /16 ranges inside it
  the address 10.9.0.1 is in a listed range, and \<open>match_ip\<close> answers that it is not: only the four /16
  ranges before it are inspected.  And the matcher for 192.168.1.10/24 rejects 192.168.1.5, which the
  range contains: the ranges are ordered by the address as written and the search stops before it.\<close>

lemma ip_range_search_misses_addresses:
  "ipnet_contains cidr_ops (V4 0x0A000000, 8) (V4 0x0A090001) \<and>
   (V4 0x0A000000, 8) \<in> set (geoip_from_ranges cidr_ops nested_ranges) \<and>
   \<not> match_ip cidr_ops (geoip_from_ranges cidr_ops nested_ranges) (V4 0x0A090001) \<and>
   ip_matcher_new cidr_ops demo_parse [''192.168.1.10/24''] = Some [(V4 0xC0A8010A, 24)] \<and>
   ipnet_contains cidr_ops (V4 0xC0A8010A, 24) (V4 0xC0A80105) \<and>
   \<not> ip_matches cidr_ops [(V4 0xC0A8010A, 24)] (V4 0xC0A80105)"
  by code_simp

end
