(* ===== verification/Domain_Match.thy ===== *)
theory Domain_Match
  imports BW_Prelude
begin

text \<open>
  Matching a domain name: \<^verbatim>\<open>DomainMatcher\<close> (crates/blackwire-app/src/router.rs) and
  \<^verbatim>\<open>GeoSiteMatcher\<close> with the geosite.dat entries it is built from (geo/geosite.rs, geo/proto.rs).

  Strings are their UTF-8 bytes.  The Unicode table behind \<^verbatim>\<open>str::to_lowercase\<close> is an argument; the
  keyword and regular-expression engines (crates aho-corasick and regex) are the record
  \<open>engines\<close>, with what their documentation promises in the locale \<open>engine_laws\<close>.
\<close>

section \<open>The matchers\<close>

record ('kw, 're) engines =
  aho_build :: "bool \<Rightarrow> string list \<Rightarrow> 'kw option"
  aho_is_match :: "'kw \<Rightarrow> string \<Rightarrow> bool"
  regexset_new :: "string list \<Rightarrow> 're option"
  regexset_empty :: "'re"
  regexset_is_match :: "'re \<Rightarrow> string \<Rightarrow> bool"
  regex_new_ok :: "string \<Rightarrow> bool"

record ('kw, 're) domain_matcher =
  dm_full :: "string set"
  dm_suffix :: "string set"
  dm_keyword :: "'kw"
  dm_regex :: "'re"

lemma find_char_bound: "find_char c xs = Some i \<Longrightarrow> i < length xs"
  by (induction xs arbitrary: i) (auto split: if_splits)

function suffix_walk :: "string set \<Rightarrow> string \<Rightarrow> nat \<Rightarrow> bool" where
  "suffix_walk sfx lower start =
     (if start < length lower then
        if drop start lower \<in> sfx then True
        else case find_char CHR ''.'' (drop start lower) of
               Some dot \<Rightarrow> suffix_walk sfx lower (start + (dot + 1))
             | None \<Rightarrow> False
      else False)"
  by pat_completeness auto
termination
  by (relation "measure (\<lambda>(_, lower, start). length lower - start)") auto

declare suffix_walk.simps [simp del]

definition domain_matcher_new ::
  "('kw, 're) engines \<Rightarrow> (string \<Rightarrow> string) \<Rightarrow> string list \<Rightarrow> string list \<Rightarrow> string list \<Rightarrow> string list
     \<Rightarrow> ('kw, 're) domain_matcher option" where
  "domain_matcher_new eng to_lowercase full sfx keywords regexes =
     (case aho_build eng True keywords of
        None \<Rightarrow> None
      | Some keyword \<Rightarrow>
          (case regexset_new eng regexes of
             None \<Rightarrow> None
           | Some regex \<Rightarrow>
               Some \<lparr>dm_full = set (map to_lowercase full), dm_suffix = set (map to_lowercase sfx),
                     dm_keyword = keyword, dm_regex = regex\<rparr>))"

definition lower_lazily :: "(string \<Rightarrow> string) \<Rightarrow> string \<Rightarrow> string" where
  "lower_lazily to_lowercase domain =
     (if list_ex is_ascii_uppercase domain then to_lowercase domain else domain)"

definition domain_matches ::
  "('kw, 're) engines \<Rightarrow> (string \<Rightarrow> string) \<Rightarrow> ('kw, 're) domain_matcher \<Rightarrow> string \<Rightarrow> bool" where
  "domain_matches eng to_lowercase dm domain =
     (let lower = lower_lazily to_lowercase domain in
      if lower \<in> dm_full dm then True
      else if suffix_walk (dm_suffix dm) lower 0 then True
      else if aho_is_match eng (dm_keyword dm) lower then True
      else if regexset_is_match eng (dm_regex dm) lower then True
      else False)"

datatype domain_type = Plain | Regex | DomainSuffix | Full

definition domain_type_try_from :: "int \<Rightarrow> domain_type option" where
  "domain_type_try_from t =
     (if t = 0 then Some Plain else if t = 1 then Some Regex
      else if t = 2 then Some DomainSuffix else if t = 3 then Some Full else None)"

record geo_domain =
  gd_type :: int
  gd_value :: string

record geo_site =
  gs_country_code :: string
  gs_domain :: "geo_domain list"

record site_parts =
  sp_full :: "string set"
  sp_suffix :: "string set"
  sp_keywords :: "string list"
  sp_regexes :: "string list"

definition geosite_add :: "(string \<Rightarrow> string) \<Rightarrow> geo_domain \<Rightarrow> site_parts \<Rightarrow> site_parts" where
  "geosite_add to_lowercase d p =
     (case (case domain_type_try_from (gd_type d) of None \<Rightarrow> Plain | Some t \<Rightarrow> t) of
        Full \<Rightarrow> p\<lparr>sp_full := insert (to_lowercase (gd_value d)) (sp_full p)\<rparr>
      | DomainSuffix \<Rightarrow> p\<lparr>sp_suffix := insert (to_lowercase (gd_value d)) (sp_suffix p)\<rparr>
      | Plain \<Rightarrow> p\<lparr>sp_keywords := sp_keywords p @ [to_lowercase (gd_value d)]\<rparr>
      | Regex \<Rightarrow> p\<lparr>sp_regexes := sp_regexes p @ [gd_value d]\<rparr>)"

definition geosite_regex :: "('kw, 're) engines \<Rightarrow> string list \<Rightarrow> 're" where
  "geosite_regex eng patterns =
     (case regexset_new eng patterns of
        Some rs \<Rightarrow> rs
      | None \<Rightarrow>
          let valid = filter (regex_new_ok eng) patterns in
          (case regexset_new eng valid of Some rs \<Rightarrow> rs | None \<Rightarrow> regexset_empty eng))"

definition geosite_from_proto ::
  "('kw, 're) engines \<Rightarrow> (string \<Rightarrow> string) \<Rightarrow> geo_site \<Rightarrow> ('kw, 're) domain_matcher res" where
  "geosite_from_proto eng to_lowercase entry =
     (let p = fold (geosite_add to_lowercase) (gs_domain entry)
                \<lparr>sp_full = {}, sp_suffix = {}, sp_keywords = [], sp_regexes = []\<rparr> in
      and_then
        (case aho_build eng True (sp_keywords p) of
           Some kw \<Rightarrow> Ok kw
         | None \<Rightarrow> (case aho_build eng False [] of Some kw \<Rightarrow> Ok kw | None \<Rightarrow> Panic))
        (\<lambda>keyword.
           Ok \<lparr>dm_full = sp_full p, dm_suffix = sp_suffix p, dm_keyword = keyword,
               dm_regex = geosite_regex eng (sp_regexes p)\<rparr>))"

definition geosite_from_parts ::
  "('kw, 're) engines \<Rightarrow> (string \<Rightarrow> string) \<Rightarrow> string list \<Rightarrow> string list \<Rightarrow> string list \<Rightarrow> string list
     \<Rightarrow> ('kw, 're) domain_matcher option" where
  "geosite_from_parts eng to_lowercase full sfx keywords regexes =
     (case aho_build eng True keywords of
        None \<Rightarrow> None
      | Some keyword \<Rightarrow>
          (case regexset_new eng regexes of
             None \<Rightarrow> None
           | Some regex \<Rightarrow>
               Some \<lparr>dm_full = set (map to_lowercase full), dm_suffix = set (map to_lowercase sfx),
                     dm_keyword = keyword, dm_regex = regex\<rparr>))"

definition match_domain ::
  "('kw, 're) engines \<Rightarrow> (string \<Rightarrow> string) \<Rightarrow> ('kw, 're) domain_matcher \<Rightarrow> string \<Rightarrow> bool" where
  "match_domain eng to_lowercase m domain =
     (let lower = lower_lazily to_lowercase domain in
      if lower \<in> dm_full m then True
      else if suffix_walk (dm_suffix m) lower 0 then True
      else if aho_is_match eng (dm_keyword m) lower then True
      else if regexset_is_match eng (dm_regex m) lower then True
      else False)"

section \<open>The suffix walk\<close>

text \<open>The reference: a name is the domain \<open>s\<close> or a subdomain of it.\<close>

definition in_domain :: "string \<Rightarrow> string \<Rightarrow> bool" where
  "in_domain s name \<longleftrightarrow> s \<noteq> [] \<and> (name = s \<or> suffix (CHR ''.'' # s) name)"

lemma find_char_None: "find_char c xs = None \<longleftrightarrow> c \<notin> set xs"
  by (induction xs) auto

lemma find_char_Some:
  "find_char c xs = Some i \<Longrightarrow> \<exists>p t. xs = p @ c # t \<and> length p = i \<and> c \<notin> set p"
proof (induction xs arbitrary: i)
  case (Cons x xs)
  show ?case
  proof (cases "x = c")
    case True
    then show ?thesis using Cons.prems by auto
  next
    case False
    then obtain j where j: "find_char c xs = Some j" "i = Suc j" using Cons.prems by auto
    obtain p t where "xs = p @ c # t" "length p = j" "c \<notin> set p" using Cons.IH [OF j(1)] by blast
    then show ?thesis using False j(2) by (intro exI [of _ "x # p"] exI [of _ t]) auto
  qed
qed simp

lemma suffix_after_first:
  assumes "c \<notin> set p" "s \<noteq> []"
  shows "suffix (c # s) (p @ c # t) \<longleftrightarrow> t = s \<or> suffix (c # s) t"
proof
  assume "suffix (c # s) (p @ c # t)"
  then obtain q where q: "p @ c # t = q @ c # s" by (auto simp: suffix_def)
  show "t = s \<or> suffix (c # s) t"
    using q assms
    by (auto simp: append_eq_append_conv2 append_eq_Cons_conv Cons_eq_append_conv suffix_def)
next
  assume "t = s \<or> suffix (c # s) t"
  then show "suffix (c # s) (p @ c # t)"
    by (auto simp: suffix_def intro: exI [of _ "p @ c # _"])
qed

lemma suffix_walk_iff: "suffix_walk S lower start \<longleftrightarrow> (\<exists>s\<in>S. in_domain s (drop start lower))"
proof (induction S lower start rule: suffix_walk.induct)
  case (1 S lower start)
  show ?case
  proof (cases "start < length lower \<and> drop start lower \<notin> S")
    case False
    then show ?thesis
      by (cases "start < length lower")
        (auto simp: suffix_walk.simps [of S lower start] in_domain_def suffix_def
          intro: bexI [of _ "drop start lower"])
  next
    case True
    show ?thesis
    proof (cases "find_char CHR ''.'' (drop start lower)")
      case None
      then have "\<not> suffix (CHR ''.'' # s) (drop start lower)" for s
        by (auto simp: find_char_None suffix_def)
      then show ?thesis using True None by (auto simp: suffix_walk.simps [of S lower start] in_domain_def)
    next
      case (Some dot)
      obtain p t where p: "drop start lower = p @ CHR ''.'' # t" "length p = dot" "CHR ''.'' \<notin> set p"
        using find_char_Some [OF Some] by blast
      have "drop (start + (dot + 1)) lower = drop (dot + 1) (drop start lower)" by (simp add: add.commute)
      then have t: "drop (start + (dot + 1)) lower = t" using p by simp
      have "in_domain s (drop start lower) \<longleftrightarrow> drop start lower = s \<or> in_domain s t" if "s \<noteq> []" for s
        using that p suffix_after_first [OF p(3) that] by (auto simp: in_domain_def)
      then have "(\<exists>s\<in>S. in_domain s (drop start lower)) \<longleftrightarrow> (\<exists>s\<in>S. in_domain s t)"
        using True by (metis in_domain_def)
      then show ?thesis using 1 True Some t by (simp add: suffix_walk.simps [of S lower start])
    qed
  qed
qed

section \<open>What the matching engines document\<close>

definition contains_ignoring_ascii_case :: "string \<Rightarrow> string \<Rightarrow> bool" where
  "contains_ignoring_ascii_case k s \<longleftrightarrow> sublist (map ascii_lower k) (map ascii_lower s)"

locale engine_laws =
  fixes eng :: "('kw, 're) engines"
    and regex_is_match :: "string \<Rightarrow> string \<Rightarrow> bool"
  assumes aho_match: "aho_build eng True ks = Some a \<Longrightarrow>
      aho_is_match eng a s \<longleftrightarrow> (\<exists>k\<in>set ks. contains_ignoring_ascii_case k s)"
    and regexset_match: "regexset_new eng ps = Some r \<Longrightarrow>
      regexset_is_match eng r s \<longleftrightarrow> (\<exists>p\<in>set ps. regex_is_match p s)"
    and regexset_valid: "regexset_new eng ps = Some r \<Longrightarrow> p \<in> set ps \<Longrightarrow> regex_new_ok eng p"
begin

lemma new_matches:
  assumes "domain_matcher_new eng to_lowercase full sfx keywords regexes = Some dm"
    and "name = lower_lazily to_lowercase domain"
  shows "domain_matches eng to_lowercase dm domain \<longleftrightarrow>
     name \<in> to_lowercase ` set full \<or> (\<exists>s\<in>set sfx. in_domain (to_lowercase s) name) \<or>
     (\<exists>k\<in>set keywords. contains_ignoring_ascii_case k name) \<or> (\<exists>p\<in>set regexes. regex_is_match p name)"
  using assms
  by (auto simp: domain_matcher_new_def domain_matches_def Let_def suffix_walk_iff aho_match
      regexset_match split: option.splits)

end

lemma match_domain_eq: "match_domain = domain_matches"
  unfolding match_domain_def domain_matches_def ..

lemma geosite_from_parts_eq: "geosite_from_parts = domain_matcher_new"
  unfolding geosite_from_parts_def domain_matcher_new_def ..

text \<open>What one geosite.dat entry accepts; an unknown type is read as a keyword.\<close>

definition geo_domain_accepts ::
  "(string \<Rightarrow> string) \<Rightarrow> (string \<Rightarrow> string \<Rightarrow> bool) \<Rightarrow> geo_domain \<Rightarrow> string \<Rightarrow> bool" where
  "geo_domain_accepts to_lowercase regex_ok d name \<longleftrightarrow>
     (let v = gd_value d in
      if gd_type d = 1 then regex_ok v name
      else if gd_type d = 2 then in_domain (to_lowercase v) name
      else if gd_type d = 3 then name = to_lowercase v
      else contains_ignoring_ascii_case (to_lowercase v) name)"

definition parts_accept :: "(string \<Rightarrow> string \<Rightarrow> bool) \<Rightarrow> site_parts \<Rightarrow> string \<Rightarrow> bool" where
  "parts_accept regex_ok p name \<longleftrightarrow>
     name \<in> sp_full p \<or> (\<exists>s\<in>sp_suffix p. in_domain s name) \<or>
     (\<exists>k\<in>set (sp_keywords p). contains_ignoring_ascii_case k name) \<or>
     (\<exists>r\<in>set (sp_regexes p). regex_ok r name)"

lemma parts_accept_add:
  "parts_accept rx (geosite_add lc d p) name \<longleftrightarrow> geo_domain_accepts lc rx d name \<or> parts_accept rx p name"
  by (auto simp: parts_accept_def geosite_add_def geo_domain_accepts_def domain_type_try_from_def Let_def)

lemma parts_accept_fold:
  "parts_accept rx (fold (geosite_add lc) ds p) name \<longleftrightarrow>
     (\<exists>d\<in>set ds. geo_domain_accepts lc rx d name) \<or> parts_accept rx p name"
  by (induction ds arbitrary: p) (auto simp: parts_accept_add)

context engine_laws
begin

lemma geosite_regex_match:
  assumes "regexset_new eng (filter (regex_new_ok eng) ps) \<noteq> None"
  shows "regexset_is_match eng (geosite_regex eng ps) s \<longleftrightarrow>
    (\<exists>p\<in>set ps. regex_new_ok eng p \<and> regex_is_match p s)"
  using assms
  by (cases "regexset_new eng ps") (auto simp: geosite_regex_def regexset_match dest: regexset_valid)

lemma from_proto_matches:
  assumes "\<And>ks. aho_build eng True ks \<noteq> None"
    and "\<And>ps. (\<forall>p\<in>set ps. regex_new_ok eng p) \<Longrightarrow> regexset_new eng ps \<noteq> None"
  shows "\<exists>m. geosite_from_proto eng to_lowercase entry = Ok m \<and>
    (match_domain eng to_lowercase m domain \<longleftrightarrow>
      (\<exists>d\<in>set (gs_domain entry). geo_domain_accepts to_lowercase
         (\<lambda>p s. regex_new_ok eng p \<and> regex_is_match p s) d (lower_lazily to_lowercase domain)))"
proof -
  let ?p0 = "\<lparr>sp_full = {}, sp_suffix = {}, sp_keywords = [], sp_regexes = []\<rparr>"
  let ?p = "fold (geosite_add to_lowercase) (gs_domain entry) ?p0"
  let ?rx = "\<lambda>p s. regex_new_ok eng p \<and> regex_is_match p s"
  let ?n = "lower_lazily to_lowercase domain"
  obtain kw where kw: "aho_build eng True (sp_keywords ?p) = Some kw" using assms(1) by blast
  let ?m = "\<lparr>dm_full = sp_full ?p, dm_suffix = sp_suffix ?p, dm_keyword = kw,
             dm_regex = geosite_regex eng (sp_regexes ?p)\<rparr>"
  have "geosite_from_proto eng to_lowercase entry = Ok ?m"
    by (simp add: geosite_from_proto_def Let_def kw)
  moreover have "match_domain eng to_lowercase ?m domain \<longleftrightarrow> parts_accept ?rx ?p ?n"
    using geosite_regex_match [OF assms(2)] aho_match [OF kw]
    by (auto simp: match_domain_def parts_accept_def Let_def suffix_walk_iff)
  moreover have "parts_accept ?rx ?p ?n \<longleftrightarrow> (\<exists>d\<in>set (gs_domain entry). geo_domain_accepts to_lowercase ?rx d ?n)"
    unfolding parts_accept_fold by (simp add: parts_accept_def)
  ultimately show ?thesis by blast
qed

end

section \<open>A direct definition of the engines\<close>

text \<open>
  Keywords are searched for one by one, and the pattern language is restricted to literals (a
  pattern that starts with an opening parenthesis is malformed).
\<close>

fun literal_regex_ok :: "string \<Rightarrow> bool" where
  "literal_regex_ok [] = True"
| "literal_regex_ok (c # _) = (c \<noteq> CHR ''('')"

definition literal_engines :: "(bool \<times> string list, string list) engines" where
  "literal_engines =
     \<lparr>aho_build = (\<lambda>ci ks. Some (ci, ks)),
      aho_is_match = (\<lambda>(ci, ks) s. list_ex
         (\<lambda>k. if ci then contains_ignoring_ascii_case k s else sublist k s) ks),
      regexset_new = (\<lambda>ps. if list_all literal_regex_ok ps then Some ps else None),
      regexset_empty = [],
      regexset_is_match = (\<lambda>ps s. list_ex (\<lambda>p. sublist p s) ps),
      regex_new_ok = literal_regex_ok\<rparr>"

interpretation literal: engine_laws literal_engines sublist
  by unfold_locales
    (auto simp: literal_engines_def list_ex_iff list_all_iff split: if_splits)

section \<open>Correctness\<close>

text \<open>C27: a domain matcher accepts exactly the names that one of its patterns describes: a full
  pattern equal to the name, a suffix pattern that is the name or a parent domain of it at a label
  boundary, a keyword inside it, or a regular expression it matches.  The name is lower-cased first
  when it has an ASCII capital.\<close>

theorem domain_matcher_exact:
  assumes "engine_laws eng regex_is_match"
    and "domain_matcher_new eng to_lowercase full sfx keywords regexes = Some dm"
    and "name = lower_lazily to_lowercase domain"
  shows "domain_matches eng to_lowercase dm domain \<longleftrightarrow>
     name \<in> to_lowercase ` set full \<or> (\<exists>s\<in>set sfx. in_domain (to_lowercase s) name) \<or>
     (\<exists>k\<in>set keywords. contains_ignoring_ascii_case k name) \<or> (\<exists>p\<in>set regexes. regex_is_match p name)"
  by (rule engine_laws.new_matches [OF assms])

theorem domain_matcher_exact_witness:
  "domain_matches literal_engines (map ascii_lower)
     \<lparr>dm_full = {}, dm_suffix = {''example.com''}, dm_keyword = (True, []), dm_regex = []\<rparr> ''A.Example.com''
   \<and> \<not> domain_matches literal_engines (map ascii_lower)
     \<lparr>dm_full = {}, dm_suffix = {''example.com''}, dm_keyword = (True, []), dm_regex = []\<rparr> ''badexample.com''"
proof -
  let ?dm = "\<lparr>dm_full = {}, dm_suffix = {''example.com''}, dm_keyword = (True, []), dm_regex = []\<rparr>"
  have new: "domain_matcher_new literal_engines (map ascii_lower) [] [''Example.com''] [] [] = Some ?dm"
    by (simp add: domain_matcher_new_def literal_engines_def) code_simp
  have l1: "lower_lazily (map ascii_lower) ''A.Example.com'' = ''a.example.com''" by code_simp
  have l2: "lower_lazily (map ascii_lower) ''badexample.com'' = ''badexample.com''" by code_simp
  have s: "map ascii_lower ''Example.com'' = ''example.com''" by code_simp
  have d1: "in_domain ''example.com'' ''a.example.com''"
    by (auto simp: in_domain_def suffix_def intro: exI [of _ "''a''"])
  have d2: "\<not> in_domain ''example.com'' ''badexample.com''"
    by (auto simp: in_domain_def suffix_def append_eq_Cons_conv Cons_eq_append_conv)
  show ?thesis
    using domain_matcher_exact [OF literal.engine_laws_axioms new l1 [symmetric]] d1
      domain_matcher_exact [OF literal.engine_laws_axioms new l2 [symmetric]] d2
    unfolding list.set image_empty bex_simps bex_empty s by blast
qed

text \<open>Loading a geosite.dat group never fails, and the matcher accepts exactly the names that
  one of the group's entries describes by its type; entries whose regular expression does not
  compile are skipped and take nothing else with them.  The hypotheses are that keyword automata
  and sets of well-formed patterns always build.\<close>

lemma geosite_matcher_exact:
  assumes "engine_laws eng regex_is_match"
    and "\<And>ks. aho_build eng True ks \<noteq> None"
    and "\<And>ps. (\<forall>p\<in>set ps. regex_new_ok eng p) \<Longrightarrow> regexset_new eng ps \<noteq> None"
  shows "\<exists>m. geosite_from_proto eng to_lowercase entry = Ok m \<and>
    (match_domain eng to_lowercase m domain \<longleftrightarrow>
      (\<exists>d\<in>set (gs_domain entry). geo_domain_accepts to_lowercase
         (\<lambda>p s. regex_new_ok eng p \<and> regex_is_match p s) d (lower_lazily to_lowercase domain)))"
  by (rule engine_laws.from_proto_matches [OF assms])

end
