(* ===== verification/Router.thy ===== *)
theory Router
  imports Ip_Match Domain_Match
begin

text \<open>
  Routing: compiled rules, the live router with its decision cache and hot swap
  (crates/blackwire-app/src/router.rs), and the dispatcher's use of it for the three domain
  strategies (\<^verbatim>\<open>pick_route_xray\<close> and \<^verbatim>\<open>resolve_domain_ips\<close> in dispatcher.rs).

  An instant is a number of milliseconds.  The hash function behind \<^verbatim>\<open>DefaultHasher\<close>, whose algorithm
  the standard library leaves open, is the argument \<open>hash\<close>; the answers of the DNS module and of
  the system resolver are the record \<open>dns_answers\<close>.  The decision cache is a map.
\<close>

section \<open>Rules\<close>

record ('net, 'kw, 're) match_env =
  me_net :: "'net ipnet"
  me_eng :: "('kw, 're) engines"
  me_lower :: "string \<Rightarrow> string"

record ('net, 'kw, 're) compiled_rule =
  cr_outbound_tag :: string
  cr_domain_matcher :: "('kw, 're) domain_matcher option"
  cr_geosite_codes :: "string list"
  cr_ip_matcher :: "'net list option"
  cr_geoip_codes :: "string list"
  cr_port_ranges :: "(u16 \<times> u16) list"
  cr_inbound_tags :: "string list"
  cr_protocols :: "string list"
  cr_users :: "string list"

record routing_context =
  rc_dest :: address
  rc_network :: network
  rc_inbound_tag :: string
  rc_user :: "string option"
  rc_sniffed_protocol :: "string option"
  rc_sniffed_domain :: "string option"

definition matches_with_geo ::
  "('net, 'kw, 're) match_env \<Rightarrow> ('net, 'kw, 're) compiled_rule \<Rightarrow> routing_context
     \<Rightarrow> (string \<rightharpoonup> 'net list) \<Rightarrow> (string \<rightharpoonup> ('kw, 're) domain_matcher) \<Rightarrow> bool" where
  "matches_with_geo env rule ctx geoip geosite =
     (if cr_inbound_tags rule \<noteq> [] \<and> \<not> list_ex (\<lambda>t. t = rc_inbound_tag ctx) (cr_inbound_tags rule)
      then False
      else if cr_protocols rule \<noteq> [] \<and>
        (case rc_sniffed_protocol ctx of
           None \<Rightarrow> True
         | Some proto \<Rightarrow> \<not> list_ex (\<lambda>p. p = proto) (cr_protocols rule))
      then False
      else if cr_users rule \<noteq> [] \<and>
        (case rc_user ctx of None \<Rightarrow> True | Some user \<Rightarrow> \<not> list_ex (\<lambda>u. u = user) (cr_users rule))
      then False
      else if cr_port_ranges rule \<noteq> [] \<and>
        \<not> list_ex (\<lambda>(lo, hi). port (rc_dest ctx) \<ge> lo \<and> port (rc_dest ctx) \<le> hi) (cr_port_ranges rule)
      then False
      else if (cr_domain_matcher rule \<noteq> None \<or> cr_geosite_codes rule \<noteq> []) \<and>
        (case (case rc_dest ctx of Domain name _ \<Rightarrow> Some name | _ \<Rightarrow> rc_sniffed_domain ctx) of
           None \<Rightarrow> True
         | Some name \<Rightarrow>
             let literal_ok = (case cr_domain_matcher rule of
                   None \<Rightarrow> False | Some dm \<Rightarrow> domain_matches (me_eng env) (me_lower env) dm name);
                 geosite_ok = list_ex (\<lambda>code. case geosite code of
                   None \<Rightarrow> False | Some m \<Rightarrow> match_domain (me_eng env) (me_lower env) m name)
                   (cr_geosite_codes rule)
             in \<not> (literal_ok \<or> geosite_ok))
      then False
      else if (cr_ip_matcher rule \<noteq> None \<or> cr_geoip_codes rule \<noteq> []) \<and>
        (case ip_of (rc_dest ctx) of
           None \<Rightarrow> True
         | Some ip \<Rightarrow>
             let literal_ok = (case cr_ip_matcher rule of
                   None \<Rightarrow> False | Some im \<Rightarrow> ip_matches (me_net env) im ip);
                 geoip_ok = list_ex (\<lambda>code. case geoip code of
                   None \<Rightarrow> False | Some m \<Rightarrow> match_ip (me_net env) m ip) (cr_geoip_codes rule)
             in \<not> (literal_ok \<or> geoip_ok))
      then False
      else True)"

definition rule_matches ::
  "('net, 'kw, 're) match_env \<Rightarrow> ('net, 'kw, 're) compiled_rule \<Rightarrow> routing_context \<Rightarrow> bool" where
  "rule_matches env rule ctx = matches_with_geo env rule ctx Map.empty Map.empty"

record ('net, 'kw, 're) router_inner =
  ri_rules :: "('net, 'kw, 're) compiled_rule list"
  ri_default_tag :: string
  ri_geoip :: "string \<rightharpoonup> 'net list"
  ri_geosite :: "string \<rightharpoonup> ('kw, 're) domain_matcher"
  ri_domain_strategy :: "string option"
  ri_has_ip_rules :: bool

definition rules_have_ip :: "('net, 'kw, 're) compiled_rule list \<Rightarrow> bool" where
  "rules_have_ip rules = list_ex (\<lambda>r. cr_ip_matcher r \<noteq> None \<or> cr_geoip_codes r \<noteq> []) rules"

fun first_match ::
  "('net, 'kw, 're) match_env \<Rightarrow> ('net, 'kw, 're) router_inner \<Rightarrow> routing_context
     \<Rightarrow> ('net, 'kw, 're) compiled_rule list \<Rightarrow> string \<times> bool" where
  "first_match env inner ctx [] = (ri_default_tag inner, False)"
| "first_match env inner ctx (rule # rules) =
     (if matches_with_geo env rule ctx (ri_geoip inner) (ri_geosite inner)
      then (cr_outbound_tag rule, True)
      else first_match env inner ctx rules)"

definition pick_route_match_uncached ::
  "('net, 'kw, 're) match_env \<Rightarrow> ('net, 'kw, 're) router_inner \<Rightarrow> routing_context \<Rightarrow> string \<times> bool" where
  "pick_route_match_uncached env inner ctx = first_match env inner ctx (ri_rules inner)"

section \<open>The live router\<close>

type_synonym instant = nat

definition ROUTE_CACHE_TTL :: nat where "ROUTE_CACHE_TTL = 30000"
definition ROUTE_CACHE_HEALTH_TTL :: nat where "ROUTE_CACHE_HEALTH_TTL = 250"

datatype hash_input = HashAddress address | HashStr string | HashOptStr "string option"

record route_cache_key =
  rk_dest_hash :: u64
  rk_port :: u16
  rk_network :: network
  rk_inbound_tag_hash :: u64
  rk_user_hash :: u64
  rk_sniffed_protocol_hash :: u64
  rk_sniffed_domain_hash :: u64

definition from_context :: "(hash_input \<Rightarrow> u64) \<Rightarrow> routing_context \<Rightarrow> route_cache_key" where
  "from_context hash ctx =
     \<lparr>rk_dest_hash = hash (HashAddress (rc_dest ctx)),
      rk_port = port (rc_dest ctx),
      rk_network = rc_network ctx,
      rk_inbound_tag_hash = hash (HashStr (rc_inbound_tag ctx)),
      rk_user_hash = hash (HashOptStr (rc_user ctx)),
      rk_sniffed_protocol_hash = hash (HashOptStr (rc_sniffed_protocol ctx)),
      rk_sniffed_domain_hash = hash (HashOptStr (rc_sniffed_domain ctx))\<rparr>"

record route_cache_entry =
  re_route :: string
  re_matched :: bool
  re_expires_at :: instant
  re_generation :: u64

definition route_cache_ttl :: "string \<Rightarrow> nat" where
  "route_cache_ttl tag =
     (if prefix ''auto-'' tag \<or> sublist ''balancer'' tag then ROUTE_CACHE_HEALTH_TTL else ROUTE_CACHE_TTL)"

record ('net, 'kw, 're) live_router =
  lr_inner :: "('net, 'kw, 're) router_inner"
  lr_cache :: "route_cache_key \<rightharpoonup> route_cache_entry"
  lr_generation :: u64

definition router_inner_new ::
  "('net, 'kw, 're) compiled_rule list \<Rightarrow> string \<Rightarrow> (string \<rightharpoonup> 'net list)
     \<Rightarrow> (string \<rightharpoonup> ('kw, 're) domain_matcher) \<Rightarrow> string option \<Rightarrow> ('net, 'kw, 're) router_inner" where
  "router_inner_new rules default_tag geoip geosite strategy =
     \<lparr>ri_rules = rules, ri_default_tag = default_tag, ri_geoip = geoip, ri_geosite = geosite,
      ri_domain_strategy = strategy, ri_has_ip_rules = rules_have_ip rules\<rparr>"

definition live_router_new :: "('net, 'kw, 're) router_inner \<Rightarrow> ('net, 'kw, 're) live_router" where
  "live_router_new inner = \<lparr>lr_inner = inner, lr_cache = Map.empty, lr_generation = 0\<rparr>"

text \<open>The three writes of a swap, in the order of the code.\<close>

definition swap_bump :: "('net, 'kw, 're) live_router \<Rightarrow> ('net, 'kw, 're) live_router" where
  "swap_bump r = r\<lparr>lr_generation := lr_generation r + 1\<rparr>"

definition swap_clear :: "('net, 'kw, 're) live_router \<Rightarrow> ('net, 'kw, 're) live_router" where
  "swap_clear r = r\<lparr>lr_cache := Map.empty\<rparr>"

definition swap_store ::
  "('net, 'kw, 're) router_inner \<Rightarrow> ('net, 'kw, 're) live_router \<Rightarrow> ('net, 'kw, 're) live_router" where
  "swap_store inner r = r\<lparr>lr_inner := inner\<rparr>"

definition router_swap ::
  "('net, 'kw, 're) router_inner \<Rightarrow> ('net, 'kw, 're) live_router \<Rightarrow> ('net, 'kw, 're) live_router" where
  "router_swap inner r = swap_store inner (swap_clear (swap_bump r))"

text \<open>One decision: the cache lookup under a generation read before it, and the insertion after the
  rules were evaluated.  \<open>now\<close> and \<open>later\<close> are the two readings of the clock.\<close>

definition cache_lookup ::
  "('net, 'kw, 're) live_router \<Rightarrow> route_cache_key \<Rightarrow> u64 \<Rightarrow> instant \<Rightarrow> (string \<times> bool) option" where
  "cache_lookup r key generation now =
     (case lr_cache r key of
        None \<Rightarrow> None
      | Some entry \<Rightarrow>
          if re_generation entry = generation \<and> re_expires_at entry > now
          then Some (re_route entry, re_matched entry) else None)"

definition cache_insert ::
  "route_cache_key \<Rightarrow> string \<times> bool \<Rightarrow> u64 \<Rightarrow> instant \<Rightarrow> ('net, 'kw, 're) live_router
     \<Rightarrow> ('net, 'kw, 're) live_router" where
  "cache_insert key decision generation later r =
     r\<lparr>lr_cache := (lr_cache r)(key \<mapsto>
         \<lparr>re_route = fst decision, re_matched = snd decision,
          re_expires_at = later + route_cache_ttl (fst decision), re_generation = generation\<rparr>)\<rparr>"

definition pick_route_match ::
  "('net, 'kw, 're) match_env \<Rightarrow> (hash_input \<Rightarrow> u64) \<Rightarrow> instant \<Rightarrow> instant
     \<Rightarrow> ('net, 'kw, 're) live_router \<Rightarrow> routing_context
     \<Rightarrow> (string \<times> bool) \<times> ('net, 'kw, 're) live_router" where
  "pick_route_match env hash now later r ctx =
     (let key = from_context hash ctx;
          generation = lr_generation r
      in case cache_lookup r key generation now of
           Some decision \<Rightarrow> (decision, r)
         | None \<Rightarrow>
             let decision = pick_route_match_uncached env (lr_inner r) ctx
             in (decision, cache_insert key decision generation later r))"

definition pick_route ::
  "('net, 'kw, 're) match_env \<Rightarrow> (hash_input \<Rightarrow> u64) \<Rightarrow> instant \<Rightarrow> instant
     \<Rightarrow> ('net, 'kw, 're) live_router \<Rightarrow> routing_context
     \<Rightarrow> string res \<times> ('net, 'kw, 're) live_router" where
  "pick_route env hash now later r ctx =
     (let (decision, r') = pick_route_match env hash now later r ctx in (Ok (fst decision), r'))"

section \<open>Rules: reference semantics\<close>

definition restricted :: "'a list \<Rightarrow> ('a \<Rightarrow> bool) \<Rightarrow> bool" where
  "restricted allowed ok \<longleftrightarrow> allowed = [] \<or> (\<exists>x. x \<in> set allowed \<and> ok x)"

definition routing_name :: "routing_context \<Rightarrow> string option" where
  "routing_name ctx = (case rc_dest ctx of Domain name _ \<Rightarrow> Some name | _ \<Rightarrow> rc_sniffed_domain ctx)"

definition rule_matchers :: "'m option \<Rightarrow> string list \<Rightarrow> (string \<rightharpoonup> 'm) \<Rightarrow> 'm set" where
  "rule_matchers literal codes geo = set_option literal \<union> {m. \<exists>code. code \<in> set codes \<and> geo code = Some m}"

text \<open>A rule applies when each of its restrictions is absent or met; the literal patterns and the
  geo codes of one kind are alternatives.\<close>

definition rule_applies ::
  "('net, 'kw, 're) match_env \<Rightarrow> (string \<rightharpoonup> 'net list) \<Rightarrow> (string \<rightharpoonup> ('kw, 're) domain_matcher)
     \<Rightarrow> routing_context \<Rightarrow> ('net, 'kw, 're) compiled_rule \<Rightarrow> bool" where
  "rule_applies env geoip geosite ctx rule \<longleftrightarrow>
     restricted (cr_inbound_tags rule) (\<lambda>t. t = rc_inbound_tag ctx) \<and>
     restricted (cr_protocols rule) (\<lambda>p. rc_sniffed_protocol ctx = Some p) \<and>
     restricted (cr_users rule) (\<lambda>u. rc_user ctx = Some u) \<and>
     restricted (cr_port_ranges rule) (\<lambda>(lo, hi). port (rc_dest ctx) \<in> {lo..hi}) \<and>
     (cr_domain_matcher rule = None \<and> cr_geosite_codes rule = [] \<or>
      (\<exists>name m. routing_name ctx = Some name \<and>
         m \<in> rule_matchers (cr_domain_matcher rule) (cr_geosite_codes rule) geosite \<and>
         domain_matches (me_eng env) (me_lower env) m name)) \<and>
     (cr_ip_matcher rule = None \<and> cr_geoip_codes rule = [] \<or>
      (\<exists>ip m. ip_of (rc_dest ctx) = Some ip \<and>
         m \<in> rule_matchers (cr_ip_matcher rule) (cr_geoip_codes rule) geoip \<and>
         ip_matches (me_net env) m ip))"

lemma not_restricted:
  "\<not> (allowed \<noteq> [] \<and> \<not> list_ex ok allowed) \<longleftrightarrow> restricted allowed ok"
  "\<not> (ps \<noteq> [] \<and> (case v of None \<Rightarrow> True | Some x \<Rightarrow> \<not> list_ex (\<lambda>p. p = x) ps)) \<longleftrightarrow>
     restricted ps (\<lambda>p. v = Some p)"
  by (auto simp: restricted_def list_ex_iff split: option.splits)

lemma not_geo_restricted:
  "\<not> ((literal \<noteq> None \<or> codes \<noteq> []) \<and>
      (case subject of
         None \<Rightarrow> True
       | Some x \<Rightarrow>
           let literal_ok = (case literal of None \<Rightarrow> False | Some m \<Rightarrow> P m x);
               geo_ok = list_ex (\<lambda>code. case geo code of None \<Rightarrow> False | Some m \<Rightarrow> P m x) codes
           in \<not> (literal_ok \<or> geo_ok))) \<longleftrightarrow>
   literal = None \<and> codes = [] \<or>
   (\<exists>x m. subject = Some x \<and> m \<in> rule_matchers literal codes geo \<and> P m x)"
proof (cases subject)
  case None
  then show ?thesis by auto
next
  case (Some x)
  have geo: "list_ex (\<lambda>code. case geo code of None \<Rightarrow> False | Some m \<Rightarrow> P m x) codes \<longleftrightarrow>
      (\<exists>code m. code \<in> set codes \<and> geo code = Some m \<and> P m x)"
    by (auto simp: list_ex_iff split: option.splits)
  show ?thesis
    unfolding Some option.case Let_def geo
    by (cases literal) (auto simp: rule_matchers_def)
qed

lemma if_False_else: "(if b then False else c) \<longleftrightarrow> \<not> b \<and> c"
  by simp

lemma matches_with_geo_iff:
  "matches_with_geo env rule ctx geoip geosite \<longleftrightarrow> rule_applies env geoip geosite ctx rule"
  unfolding matches_with_geo_def rule_applies_def if_False_else not_restricted match_domain_eq
    match_ip_eq_ip_matches not_geo_restricted routing_name_def
  by (auto simp: case_prod_unfold)

lemma first_match_find:
  "first_match env inner ctx rules =
     (case find (rule_applies env (ri_geoip inner) (ri_geosite inner) ctx) rules of
        None \<Rightarrow> (ri_default_tag inner, False)
      | Some rule \<Rightarrow> (cr_outbound_tag rule, True))"
  by (induction rules) (simp_all add: matches_with_geo_iff)

section \<open>The cache is transparent when operations do not overlap\<close>

datatype ('net, 'kw, 're) router_op =
  OpPick routing_context instant instant
| OpSwap "('net, 'kw, 're) router_inner"

fun run_router ::
  "('net, 'kw, 're) match_env \<Rightarrow> (hash_input \<Rightarrow> u64) \<Rightarrow> ('net, 'kw, 're) live_router
     \<Rightarrow> ('net, 'kw, 're) router_op list \<Rightarrow> (string \<times> bool) list" where
  "run_router env hash r [] = []"
| "run_router env hash r (OpPick ctx now later # ops) =
     (let (d, r') = pick_route_match env hash now later r ctx in d # run_router env hash r' ops)"
| "run_router env hash r (OpSwap inner # ops) = run_router env hash (router_swap inner r) ops"

fun decisions_spec ::
  "('net, 'kw, 're) match_env \<Rightarrow> ('net, 'kw, 're) router_inner \<Rightarrow> ('net, 'kw, 're) router_op list
     \<Rightarrow> (string \<times> bool) list" where
  "decisions_spec env inner [] = []"
| "decisions_spec env inner (OpPick ctx _ _ # ops) =
     pick_route_match_uncached env inner ctx # decisions_spec env inner ops"
| "decisions_spec env inner (OpSwap inner' # ops) = decisions_spec env inner' ops"

fun op_contexts :: "('net, 'kw, 're) router_op list \<Rightarrow> routing_context set" where
  "op_contexts [] = {}"
| "op_contexts (OpPick ctx _ _ # ops) = insert ctx (op_contexts ops)"
| "op_contexts (OpSwap _ # ops) = op_contexts ops"

text \<open>Every entry of the cache is the decision of the installed rules for its context.\<close>

definition coherent ::
  "('net, 'kw, 're) match_env \<Rightarrow> (hash_input \<Rightarrow> u64) \<Rightarrow> routing_context set
     \<Rightarrow> ('net, 'kw, 're) live_router \<Rightarrow> bool" where
  "coherent env hash K r \<longleftrightarrow>
     (\<forall>ctx\<in>K. \<forall>e. lr_cache r (from_context hash ctx) = Some e \<longrightarrow>
        (re_route e, re_matched e) = pick_route_match_uncached env (lr_inner r) ctx)"

lemma coherent_new: "coherent env hash K (live_router_new inner)"
  by (simp add: coherent_def live_router_new_def)

lemma coherent_swap: "coherent env hash K (router_swap inner r)"
  by (simp add: coherent_def router_swap_def swap_store_def swap_clear_def)

lemma router_swap_inner [simp]: "lr_inner (router_swap inner r) = inner"
  by (simp add: router_swap_def swap_store_def)

lemma pick_route_match_coherent:
  assumes "coherent env hash K r" "inj_on (from_context hash) K" "ctx \<in> K"
    and "pick_route_match env hash now later r ctx = (d, r')"
  shows "d = pick_route_match_uncached env (lr_inner r) ctx"
    and "coherent env hash K r'" and "lr_inner r' = lr_inner r"
proof -
  let ?d = "pick_route_match_uncached env (lr_inner r) ctx"
  have "d = ?d \<and> coherent env hash K r' \<and> lr_inner r' = lr_inner r"
  proof (cases "cache_lookup r (from_context hash ctx) (lr_generation r) now")
    case (Some c)
    then have eq: "d = c" "r' = r" using assms(4) by (simp_all add: pick_route_match_def Let_def)
    obtain e where "lr_cache r (from_context hash ctx) = Some e" "c = (re_route e, re_matched e)"
      using Some by (auto simp: cache_lookup_def split: option.splits if_splits)
    then show ?thesis using assms(1,3) eq by (simp add: coherent_def)
  next
    case None
    then have eq: "d = ?d" "r' = cache_insert (from_context hash ctx) ?d (lr_generation r) later r"
      using assms(4) by (auto simp: pick_route_match_def Let_def)
    have "coherent env hash K r'"
      unfolding coherent_def
    proof (intro ballI allI impI)
      fix ctx' e assume k: "ctx' \<in> K" "lr_cache r' (from_context hash ctx') = Some e"
      show "(re_route e, re_matched e) = pick_route_match_uncached env (lr_inner r') ctx'"
      proof (cases "ctx' = ctx")
        case True
        then show ?thesis using k eq(2) by (auto simp: cache_insert_def)
      next
        case False
        then have "from_context hash ctx' \<noteq> from_context hash ctx"
          using assms(2,3) k(1) by (metis inj_onD)
        then show ?thesis using k eq(2) assms(1) by (simp add: cache_insert_def coherent_def)
      qed
    qed
    then show ?thesis using eq by (simp add: cache_insert_def)
  qed
  then show "d = ?d" "coherent env hash K r'" "lr_inner r' = lr_inner r" by blast+
qed

lemma run_router_spec:
  assumes "inj_on (from_context hash) K" "op_contexts ops \<subseteq> K" "coherent env hash K r"
  shows "run_router env hash r ops = decisions_spec env (lr_inner r) ops"
  using assms(2,3)
proof (induction ops arbitrary: r)
  case (Cons op ops)
  show ?case
  proof (cases op)
    case (OpPick ctx now later)
    obtain d r' where p: "pick_route_match env hash now later r ctx = (d, r')" by fastforce
    show ?thesis
      using pick_route_match_coherent [OF Cons.prems(2) assms(1) _ p] Cons.IH [of r'] Cons.prems OpPick p by simp
  next
    case (OpSwap inner)
    then show ?thesis using Cons.IH [of "router_swap inner r"] Cons.prems
      by (simp add: coherent_swap)
  qed
qed simp

section \<open>Overlapping decisions and swaps\<close>

text \<open>
  The atomic operations of \<open>pick_route_match\<close> (read the generation, look the key up, load the rules
  and decide, insert) and of \<open>router_swap\<close> (its three writes), any number of decisions against one
  swap at a time.  \<open>rc_installed\<close> is the history of installed rule sets.
\<close>

datatype pick_pc =
  PIdle
| PGeneration routing_context u64
| PMiss routing_context u64
| PDecided routing_context u64 "string \<times> bool"
| PDone routing_context "string \<times> bool"

datatype ('net, 'kw, 're) swap_pc =
  SIdle
| SBumped "('net, 'kw, 're) router_inner"
| SCleared "('net, 'kw, 're) router_inner"

record ('net, 'kw, 're) race =
  rx_router :: "('net, 'kw, 're) live_router"
  rx_picks :: "nat \<Rightarrow> pick_pc"
  rx_swap :: "('net, 'kw, 're) swap_pc"
  rx_installed :: "('net, 'kw, 're) router_inner set"

definition set_pick :: "nat \<Rightarrow> pick_pc \<Rightarrow> ('net, 'kw, 're) race \<Rightarrow> ('net, 'kw, 're) race" where
  "set_pick i p s = s\<lparr>rx_picks := (rx_picks s)(i := p)\<rparr>"

inductive router_step ::
  "('net, 'kw, 're) match_env \<Rightarrow> (hash_input \<Rightarrow> u64) \<Rightarrow> ('net, 'kw, 're) race \<Rightarrow> ('net, 'kw, 're) race \<Rightarrow> bool"
  for env hash where
  start: "rx_picks s i = PIdle \<Longrightarrow>
     router_step env hash s (set_pick i (PGeneration ctx (lr_generation (rx_router s))) s)"
| hit: "rx_picks s i = PGeneration ctx g \<Longrightarrow>
     cache_lookup (rx_router s) (from_context hash ctx) g now = Some d \<Longrightarrow>
     router_step env hash s (set_pick i (PDone ctx d) s)"
| miss: "rx_picks s i = PGeneration ctx g \<Longrightarrow>
     cache_lookup (rx_router s) (from_context hash ctx) g now = None \<Longrightarrow>
     router_step env hash s (set_pick i (PMiss ctx g) s)"
| decide: "rx_picks s i = PMiss ctx g \<Longrightarrow>
     router_step env hash s
       (set_pick i (PDecided ctx g (pick_route_match_uncached env (lr_inner (rx_router s)) ctx)) s)"
| store_decision: "rx_picks s i = PDecided ctx g d \<Longrightarrow>
     router_step env hash s
       (set_pick i (PDone ctx d)
         (s\<lparr>rx_router := cache_insert (from_context hash ctx) d g later (rx_router s)\<rparr>))"
| finish: "rx_picks s i = PDone ctx d \<Longrightarrow> router_step env hash s (set_pick i PIdle s)"
| bump: "rx_swap s = SIdle \<Longrightarrow>
     router_step env hash s (s\<lparr>rx_router := swap_bump (rx_router s), rx_swap := SBumped inner\<rparr>)"
| clear: "rx_swap s = SBumped inner \<Longrightarrow>
     router_step env hash s (s\<lparr>rx_router := swap_clear (rx_router s), rx_swap := SCleared inner\<rparr>)"
| store: "rx_swap s = SCleared inner \<Longrightarrow>
     router_step env hash s
       (s\<lparr>rx_router := swap_store inner (rx_router s), rx_swap := SIdle,
          rx_installed := insert inner (rx_installed s)\<rparr>)"

definition race_init :: "('net, 'kw, 're) router_inner \<Rightarrow> ('net, 'kw, 're) race" where
  "race_init inner =
     \<lparr>rx_router = live_router_new inner, rx_picks = (\<lambda>_. PIdle), rx_swap = SIdle, rx_installed = {inner}\<rparr>"

inductive router_reach ::
  "('net, 'kw, 're) match_env \<Rightarrow> (hash_input \<Rightarrow> u64) \<Rightarrow> ('net, 'kw, 're) router_inner \<Rightarrow> ('net, 'kw, 're) race \<Rightarrow> bool"
  for env hash inner where
  init: "router_reach env hash inner (race_init inner)"
| step: "router_reach env hash inner s \<Longrightarrow> router_step env hash s t \<Longrightarrow> router_reach env hash inner t"

text \<open>A decision is justified when some installed rule set gives it for a context with that key.\<close>

definition justified ::
  "('net, 'kw, 're) match_env \<Rightarrow> (hash_input \<Rightarrow> u64) \<Rightarrow> ('net, 'kw, 're) router_inner set
     \<Rightarrow> route_cache_key \<Rightarrow> string \<times> bool \<Rightarrow> bool" where
  "justified env hash installed key d \<longleftrightarrow>
     (\<exists>inner ctx. inner \<in> installed \<and> from_context hash ctx = key \<and> d = pick_route_match_uncached env inner ctx)"

fun pick_ok ::
  "('net, 'kw, 're) match_env \<Rightarrow> (hash_input \<Rightarrow> u64) \<Rightarrow> ('net, 'kw, 're) router_inner set \<Rightarrow> pick_pc \<Rightarrow> bool" where
  "pick_ok env hash installed (PDecided ctx g d) = justified env hash installed (from_context hash ctx) d"
| "pick_ok env hash installed (PDone ctx d) = justified env hash installed (from_context hash ctx) d"
| "pick_ok env hash installed _ = True"

definition race_inv ::
  "('net, 'kw, 're) match_env \<Rightarrow> (hash_input \<Rightarrow> u64) \<Rightarrow> ('net, 'kw, 're) race \<Rightarrow> bool" where
  "race_inv env hash s \<longleftrightarrow>
     lr_inner (rx_router s) \<in> rx_installed s \<and>
     (\<forall>key e. lr_cache (rx_router s) key = Some e \<longrightarrow>
        justified env hash (rx_installed s) key (re_route e, re_matched e)) \<and>
     (\<forall>i. pick_ok env hash (rx_installed s) (rx_picks s i))"

lemma justified_mono: "justified env hash I key d \<Longrightarrow> justified env hash (insert inner I) key d"
  by (auto simp: justified_def)

lemma pick_ok_mono: "pick_ok env hash I p \<Longrightarrow> pick_ok env hash (insert inner I) p"
  by (cases p) (auto intro: justified_mono)

lemma race_inv_set_pick:
  "race_inv env hash s \<Longrightarrow> pick_ok env hash (rx_installed s) p \<Longrightarrow> race_inv env hash (set_pick i p s)"
  by (auto simp: race_inv_def set_pick_def)

lemma router_step_inv: "router_step env hash s t \<Longrightarrow> race_inv env hash s \<Longrightarrow> race_inv env hash t"
proof (induction rule: router_step.induct)
  case (hit s i ctx g now d)
  then have "justified env hash (rx_installed s) (from_context hash ctx) d"
    by (auto simp: race_inv_def cache_lookup_def split: option.splits if_splits)
  then show ?case using hit by (simp add: race_inv_set_pick)
next
  case (decide s i ctx g)
  then have "justified env hash (rx_installed s) (from_context hash ctx)
      (pick_route_match_uncached env (lr_inner (rx_router s)) ctx)"
    by (auto simp: race_inv_def justified_def)
  then show ?case using decide by (simp add: race_inv_set_pick)
next
  case (store_decision s i ctx g d later)
  then have "justified env hash (rx_installed s) (from_context hash ctx) d"
    unfolding race_inv_def by (metis pick_ok.simps(1))
  moreover from this store_decision.prems
  have "race_inv env hash (s\<lparr>rx_router := cache_insert (from_context hash ctx) d g later (rx_router s)\<rparr>)"
    by (auto simp: race_inv_def cache_insert_def)
  ultimately show ?case by (simp add: race_inv_set_pick)
next
  case (store s inner)
  then show ?case
    by (auto simp: race_inv_def swap_store_def intro: justified_mono pick_ok_mono)
qed (auto simp: race_inv_set_pick, auto simp: race_inv_def swap_bump_def swap_clear_def)

lemma router_reach_inv: "router_reach env hash inner s \<Longrightarrow> race_inv env hash s"
proof (induction rule: router_reach.induct)
  case init
  show ?case by (simp add: race_inv_def race_init_def live_router_new_def)
next
  case (step s t)
  then show ?case by (blast intro: router_step_inv)
qed

section \<open>Domain strategies\<close>

datatype routing_domain_strategy = AsIs | IpIfNonMatch | IpOnDemand

definition normalize_routing_domain_strategy :: "string option \<Rightarrow> routing_domain_strategy" where
  "normalize_routing_domain_strategy strategy =
     (case map_option (\<lambda>s. map ascii_lower (trim s)) strategy of
        None \<Rightarrow> AsIs
      | Some s \<Rightarrow>
          if s = ''ipifnonmatch'' then IpIfNonMatch
          else if s = ''ipondemand'' then IpOnDemand
          else AsIs)"

text \<open>The router trait, as the dispatcher sees it, over a state \<open>'s\<close>.\<close>

record 's router =
  rt_pick_route_match :: "'s \<Rightarrow> routing_context \<Rightarrow> (string \<times> bool) \<times> 's"
  rt_has_ip_rules :: "'s \<Rightarrow> bool"
  rt_domain_strategy :: "'s \<Rightarrow> string option"

datatype 'a timed = Answered 'a | Failed | TimedOut

record dns_answers =
  da_dns :: "(string \<Rightarrow> ip_addr list timed) option"
  da_lookup_host :: "string \<Rightarrow> u16 \<Rightarrow> socket_addr list timed"
  da_task_completes :: bool

record first_packet_boost =
  fpb_enabled :: bool
  fpb_dns :: bool

definition routing_ctx ::
  "address \<Rightarrow> network \<Rightarrow> string \<Rightarrow> string option \<Rightarrow> string option \<Rightarrow> string option \<Rightarrow> routing_context" where
  "routing_ctx dest net inbound_tag user sniffed_protocol sniffed_domain =
     \<lparr>rc_dest = dest, rc_network = net, rc_inbound_tag = inbound_tag, rc_user = user,
      rc_sniffed_protocol = sniffed_protocol, rc_sniffed_domain = sniffed_domain\<rparr>"

definition ip_address :: "u16 \<Rightarrow> ip_addr \<Rightarrow> address" where
  "ip_address p ip = from_socket_addr (ip, p)"

definition resolve_domain_ips :: "dns_answers \<Rightarrow> address \<Rightarrow> address list option" where
  "resolve_domain_ips da dest =
     (case dest of
        Domain name p \<Rightarrow>
          let ips = (case da_dns da of
                None \<Rightarrow> []
              | Some dns \<Rightarrow> (case dns name of Answered addrs \<Rightarrow> map (ip_address p) addrs | _ \<Rightarrow> []));
              ips = (if ips = [] then
                  (case da_lookup_host da name p of
                     Answered addrs \<Rightarrow> ips @ map (\<lambda>a. ip_address p (fst a)) addrs
                   | _ \<Rightarrow> ips)
                else ips)
          in if ips = [] then None else Some ips
      | _ \<Rightarrow> None)"

definition prefetch_task :: "dns_answers \<Rightarrow> (string \<Rightarrow> ip_addr list timed) \<Rightarrow> string \<Rightarrow> u16 \<Rightarrow> address list option" where
  "prefetch_task da dns name p =
     (let resolved = dns name in
      if resolved = TimedOut then None
      else
        let ips = (case resolved of Answered addrs \<Rightarrow> map (ip_address p) addrs | _ \<Rightarrow> []) in
        if ips = [] then
          (case da_lookup_host da name p of
             Answered addrs \<Rightarrow>
               let ips = ips @ map (\<lambda>a. ip_address p (fst a)) addrs in
               if ips = [] then None else Some ips
           | TimedOut \<Rightarrow> None
           | Failed \<Rightarrow> None)
        else Some ips)"

text \<open>A spawned task is represented by the result it will deliver.\<close>

definition prefetch_dns :: "dns_answers \<Rightarrow> address \<Rightarrow> address list option option" where
  "prefetch_dns da dest =
     (case dest of
        Domain name p \<Rightarrow>
          (case da_dns da of
             None \<Rightarrow> None
           | Some dns \<Rightarrow> Some (if da_task_completes da then prefetch_task da dns name p else None))
      | _ \<Rightarrow> None)"

fun try_ips ::
  "'s router \<Rightarrow> (address \<Rightarrow> routing_context) \<Rightarrow> address list \<Rightarrow> 's \<Rightarrow> string option \<times> 's" where
  "try_ips R mk [] s = (None, s)"
| "try_ips R mk (ip_dest # rest) s =
     (let ((route, matched), s') = rt_pick_route_match R s (mk ip_dest) in
      if matched then (Some route, s') else try_ips R mk rest s')"

definition ip_on_demand_stage ::
  "'s router \<Rightarrow> dns_answers \<Rightarrow> (address \<Rightarrow> routing_context) \<Rightarrow> address \<Rightarrow> routing_domain_strategy \<Rightarrow> 's
     \<Rightarrow> string option \<times> 's" where
  "ip_on_demand_stage R da mk dest strategy s =
     (if strategy = IpOnDemand \<and> is_domain dest \<and> rt_has_ip_rules R s then
        (case resolve_domain_ips da dest of
           Some ips \<Rightarrow> try_ips R mk ips s
         | None \<Rightarrow> (None, s))
      else (None, s))"

definition start_prefetch ::
  "'s router \<Rightarrow> first_packet_boost \<Rightarrow> dns_answers \<Rightarrow> address \<Rightarrow> routing_domain_strategy \<Rightarrow> 's
     \<Rightarrow> address list option option" where
  "start_prefetch R boost da dest strategy s =
     (let dns_prefetch_allowed = (\<not> fpb_enabled boost \<or> fpb_dns boost) in
      if dns_prefetch_allowed \<and> strategy = IpIfNonMatch \<and> is_domain dest \<and> rt_has_ip_rules R s
      then prefetch_dns da dest else None)"

definition ip_if_non_match_stage ::
  "'s router \<Rightarrow> dns_answers \<Rightarrow> (address \<Rightarrow> routing_context) \<Rightarrow> address \<Rightarrow> routing_domain_strategy
     \<Rightarrow> address list option option \<Rightarrow> string \<Rightarrow> 's \<Rightarrow> string \<times> 's" where
  "ip_if_non_match_stage R da mk dest strategy prefetch route s =
     (if strategy = IpIfNonMatch \<and> is_domain dest then
        (case (case prefetch of Some h \<Rightarrow> h | None \<Rightarrow> resolve_domain_ips da dest) of
           None \<Rightarrow> (route, s)
         | Some ips \<Rightarrow>
             (case try_ips R mk ips s of
                (Some route', s') \<Rightarrow> (route', s')
              | (None, s') \<Rightarrow> (route, s')))
      else (route, s))"

definition pick_route_xray ::
  "'s router \<Rightarrow> first_packet_boost \<Rightarrow> dns_answers \<Rightarrow> (address \<Rightarrow> routing_context) \<Rightarrow> address \<Rightarrow> 's
     \<Rightarrow> string res \<times> 's" where
  "pick_route_xray R boost da mk dest s =
     (let strategy = normalize_routing_domain_strategy (rt_domain_strategy R s) in
      case ip_on_demand_stage R da mk dest strategy s of
        (Some route, s) \<Rightarrow> (Ok route, s)
      | (None, s) \<Rightarrow>
          let prefetch = start_prefetch R boost da dest strategy s;
              ((route, matched), s) = rt_pick_route_match R s (mk dest)
          in if matched \<or> strategy = AsIs then (Ok route, s)
             else
               let (route, s) = ip_if_non_match_stage R da mk dest strategy prefetch route s
               in (Ok route, s))"

text \<open>The live router behind the trait; \<open>clk\<close> gives the successive readings of the clock.\<close>

definition live_iface ::
  "('net, 'kw, 're) match_env \<Rightarrow> (hash_input \<Rightarrow> u64) \<Rightarrow> (nat \<Rightarrow> instant)
     \<Rightarrow> (('net, 'kw, 're) live_router \<times> nat) router" where
  "live_iface env hash clk =
     \<lparr>rt_pick_route_match = (\<lambda>(r, i) ctx.
        let (d, r') = pick_route_match env hash (clk i) (clk (i + 1)) r ctx in (d, (r', i + 2))),
      rt_has_ip_rules = (\<lambda>(r, _). ri_has_ip_rules (lr_inner r)),
      rt_domain_strategy = (\<lambda>(r, _). ri_domain_strategy (lr_inner r))\<rparr>"

section \<open>The contract of a router and its clients\<close>

text \<open>The candidates a strategy tries, in order, and the route they give.\<close>

definition early_candidates :: "routing_domain_strategy \<Rightarrow> bool \<Rightarrow> dns_answers \<Rightarrow> address \<Rightarrow> address list" where
  "early_candidates strategy has_ip da dest =
     (if strategy = IpOnDemand \<and> is_domain dest \<and> has_ip
      then (case resolve_domain_ips da dest of None \<Rightarrow> [] | Some ips \<Rightarrow> ips) else [])"

definition late_candidates ::
  "routing_domain_strategy \<Rightarrow> bool \<Rightarrow> first_packet_boost \<Rightarrow> dns_answers \<Rightarrow> address \<Rightarrow> address list" where
  "late_candidates strategy has_ip boost da dest =
     (if strategy = IpIfNonMatch \<and> is_domain dest then
        let prefetch = (if (\<not> fpb_enabled boost \<or> fpb_dns boost) \<and> has_ip then prefetch_dns da dest else None) in
        (case (case prefetch of Some h \<Rightarrow> h | None \<Rightarrow> resolve_domain_ips da dest) of None \<Rightarrow> [] | Some ips \<Rightarrow> ips)
      else [])"

definition xray_candidates ::
  "routing_domain_strategy \<Rightarrow> bool \<Rightarrow> first_packet_boost \<Rightarrow> dns_answers \<Rightarrow> address \<Rightarrow> address list" where
  "xray_candidates strategy has_ip boost da dest =
     early_candidates strategy has_ip da dest @ [dest] @ late_candidates strategy has_ip boost da dest"

definition route_spec :: "(routing_context \<Rightarrow> string \<times> bool) \<Rightarrow> (address \<Rightarrow> routing_context) \<Rightarrow> address
    \<Rightarrow> address list \<Rightarrow> string" where
  "route_spec decide mk dest candidates =
     (case find (\<lambda>a. snd (decide (mk a))) candidates of
        Some a \<Rightarrow> fst (decide (mk a))
      | None \<Rightarrow> fst (decide (mk dest)))"

lemma find_app: "find P (xs @ ys) = (case find P xs of None \<Rightarrow> find P ys | Some x \<Rightarrow> Some x)"
  by (induction xs) auto

locale router_contract =
  fixes R :: "'s router"
    and inv :: "'s \<Rightarrow> bool"
    and decide :: "routing_context \<Rightarrow> string \<times> bool"
    and K :: "routing_context set"
    and strategy :: "string option"
    and has_ip :: bool
  assumes pick: "inv s \<Longrightarrow> ctx \<in> K \<Longrightarrow> rt_pick_route_match R s ctx = (d, s') \<Longrightarrow> d = decide ctx \<and> inv s'"
    and strategy: "inv s \<Longrightarrow> rt_domain_strategy R s = strategy"
    and has_ip: "inv s \<Longrightarrow> rt_has_ip_rules R s = has_ip"
begin

lemma pick_decides:
  assumes "inv s" "ctx \<in> K"
  shows "\<exists>s'. rt_pick_route_match R s ctx = (decide ctx, s') \<and> inv s'"
  using pick [OF assms] by (metis surj_pair)

lemma try_ips_spec:
  assumes "inv s" "mk ` set ips \<subseteq> K"
  shows "\<exists>s'. try_ips R mk ips s =
      (map_option (\<lambda>a. fst (decide (mk a))) (find (\<lambda>a. snd (decide (mk a))) ips), s') \<and> inv s'"
  using assms
proof (induction ips arbitrary: s)
  case (Cons a ips)
  obtain s' where p: "rt_pick_route_match R s (mk a) = (decide (mk a), s')" "inv s'"
    using pick_decides [of s "mk a"] Cons.prems by auto
  obtain rt m where d: "decide (mk a) = (rt, m)" by fastforce
  have "\<exists>s''. try_ips R mk ips s' =
      (map_option (\<lambda>a. fst (decide (mk a))) (find (\<lambda>a. snd (decide (mk a))) ips), s'') \<and> inv s''"
    using Cons.IH [OF p(2)] Cons.prems(2) by simp
  then show ?case using p d by (cases m) simp_all
qed simp

lemma early_stage:
  assumes "inv s"
  shows "ip_on_demand_stage R da mk dest st s = try_ips R mk (early_candidates st has_ip da dest) s"
  using has_ip [OF assms] by (simp add: ip_on_demand_stage_def early_candidates_def split: option.splits)

lemma late_stage:
  assumes "inv s"
  shows "ip_if_non_match_stage R da mk dest st (start_prefetch R boost da dest st s) route s2 =
     (case try_ips R mk (late_candidates st has_ip boost da dest) s2 of
        (late, s3) \<Rightarrow> (case late of Some route' \<Rightarrow> route' | None \<Rightarrow> route, s3))"
proof (cases "st = IpIfNonMatch \<and> is_domain dest")
  case True
  then have "start_prefetch R boost da dest st s =
      (if (\<not> fpb_enabled boost \<or> fpb_dns boost) \<and> has_ip then prefetch_dns da dest else None)"
    using has_ip [OF assms] by (simp add: start_prefetch_def)
  then show ?thesis using True
    by (simp add: ip_if_non_match_stage_def late_candidates_def Let_def split: option.splits prod.splits)
next
  case False
  then show ?thesis by (auto simp: ip_if_non_match_stage_def late_candidates_def)
qed

lemma pick_route_xray_spec:
  assumes "inv s" and st: "st = normalize_routing_domain_strategy strategy"
    and K: "mk ` set (xray_candidates st has_ip boost da dest) \<subseteq> K"
  shows "\<exists>s'. pick_route_xray R boost da mk dest s =
     (Ok (route_spec decide mk dest (xray_candidates st has_ip boost da dest)), s') \<and> inv s'"
proof -
  let ?m = "\<lambda>a. snd (decide (mk a))" and ?r = "\<lambda>a. fst (decide (mk a))"
  let ?early = "early_candidates st has_ip da dest" and ?late = "late_candidates st has_ip boost da dest"
  have K: "mk ` set ?early \<subseteq> K" "mk dest \<in> K" "mk ` set ?late \<subseteq> K"
    using K unfolding xray_candidates_def by (simp_all add: image_Un)
  obtain s1 where e: "try_ips R mk ?early s = (map_option ?r (find ?m ?early), s1)" "inv s1"
    using try_ips_spec [OF assms(1) K(1)] by blast
  obtain s2 where p: "rt_pick_route_match R s1 (mk dest) = (decide (mk dest), s2)" "inv s2"
    using pick_decides [OF e(2) K(2)] by blast
  obtain s3 where l: "try_ips R mk ?late s2 = (map_option ?r (find ?m ?late), s3)" "inv s3"
    using try_ips_spec [OF p(2) K(3)] by blast
  obtain rt mt where d: "decide (mk dest) = (rt, mt)" by fastforce
  have "?late = []" if "st = AsIs" using that by (simp add: late_candidates_def)
  then show ?thesis
    using e(2) p(2) l(2) d
    by (cases "find ?m ?early"; cases mt)
      (auto simp: pick_route_xray_def strategy [OF assms(1)] st [symmetric] early_stage [OF assms(1)]
        e(1) p(1) l(1) d late_stage [OF e(2)] route_spec_def xray_candidates_def find_app Let_def
        split: option.splits)
qed

end

definition live_inv ::
  "('net, 'kw, 're) match_env \<Rightarrow> (hash_input \<Rightarrow> u64) \<Rightarrow> routing_context set \<Rightarrow> ('net, 'kw, 're) router_inner
     \<Rightarrow> ('net, 'kw, 're) live_router \<times> nat \<Rightarrow> bool" where
  "live_inv env hash K inner s \<longleftrightarrow>
     inj_on (from_context hash) K \<and> coherent env hash K (fst s) \<and> lr_inner (fst s) = inner"

interpretation live: router_contract "live_iface env hash clk" "live_inv env hash K inner"
    "pick_route_match_uncached env inner" K "ri_domain_strategy inner" "ri_has_ip_rules inner"
  for env hash clk K inner
proof unfold_locales
  fix s :: "('a, 'b, 'c) live_router \<times> nat" and ctx d s'
  assume inv: "live_inv env hash K inner s" and ctx: "ctx \<in> K"
    and pick: "rt_pick_route_match (live_iface env hash clk) s ctx = (d, s')"
  obtain r i where s: "s = (r, i)" by fastforce
  obtain d' r' where p: "pick_route_match env hash (clk i) (clk (i + 1)) r ctx = (d', r')" by fastforce
  have "d = d'" "s' = (r', i + 2)" using pick s p by (simp_all add: live_iface_def)
  then show "d = pick_route_match_uncached env inner ctx \<and> live_inv env hash K inner s'"
    using pick_route_match_coherent [OF _ _ ctx p] inv s by (simp add: live_inv_def)
qed (auto simp: live_inv_def live_iface_def)

section \<open>Correctness\<close>



definition demo_env :: "(ip_addr \<times> u8, bool \<times> string list, string list) match_env" where
  "demo_env = \<lparr>me_net = cidr_ops, me_eng = literal_engines, me_lower = map ascii_lower\<rparr>"

definition tag_rule :: "string \<Rightarrow> (ip_addr \<times> u8, bool \<times> string list, string list) compiled_rule" where
  "tag_rule tag =
     \<lparr>cr_outbound_tag = tag, cr_domain_matcher = None, cr_geosite_codes = [], cr_ip_matcher = None,
      cr_geoip_codes = [], cr_port_ranges = [(80, 443)], cr_inbound_tags = [], cr_protocols = [], cr_users = []\<rparr>"

definition demo_inner :: "string \<Rightarrow> (ip_addr \<times> u8, bool \<times> string list, string list) router_inner" where
  "demo_inner tag = router_inner_new [tag_rule tag] ''direct'' Map.empty Map.empty None"

definition demo_ctx :: "u16 \<Rightarrow> routing_context" where
  "demo_ctx p = routing_ctx (Ipv4 0x01010101 p) Tcp ''in'' None None None"

lemma demo_decision:
  "pick_route_match_uncached demo_env (demo_inner tag) (demo_ctx 80) = (tag, True)"
  "pick_route_match_uncached demo_env (demo_inner tag) (demo_ctx 22) = (''direct'', False)"
  by (simp_all add: router_inner_new_def demo_inner_def pick_route_match_uncached_def matches_with_geo_def
      tag_rule_def demo_ctx_def routing_ctx_def)


text \<open>C11: in every interleaving of concurrent decisions with hot swaps, a finished decision is the
  one that some installed rule set gives for a context with the same cache key: never a mix of two
  rule sets.\<close>

theorem router_decisions_never_mix_rule_sets:
  assumes "router_reach env hash inner s" "rx_picks s i = PDone ctx d"
  shows "\<exists>rules ctx'. rules \<in> rx_installed s \<and> from_context hash ctx' = from_context hash ctx \<and>
    d = pick_route_match_uncached env rules ctx'"
  using router_reach_inv [OF assms(1)] assms(2)
  unfolding race_inv_def justified_def [symmetric] by (metis pick_ok.simps(2))

lemma reach_decided:
  "router_reach env hash inner
     (set_pick i (PDecided ctx 0 (pick_route_match_uncached env inner ctx)) (race_init inner))"
proof -
  let ?s = "race_init inner"
  have m: "cache_lookup (rx_router ?s) (from_context hash ctx) 0 0 = None"
    by (simp add: cache_lookup_def race_init_def live_router_new_def)
  have i: "lr_generation (rx_router ?s) = 0" "lr_inner (rx_router ?s) = inner" "rx_picks ?s i = PIdle"
    by (simp_all add: race_init_def live_router_new_def)
  note r0 = router_reach.init [of env hash inner]
  note r1 = router_reach.step [OF r0 router_step.start [OF i(3), where ctx = ctx]]
  have "rx_picks (set_pick i (PGeneration ctx 0) ?s) i = PGeneration ctx 0" by (simp add: set_pick_def)
  note r2 = router_reach.step [OF r1 [unfolded i] router_step.miss [OF this, where now = 0]]
  have "rx_picks (set_pick i (PMiss ctx 0) (set_pick i (PGeneration ctx 0) ?s)) i = PMiss ctx 0"
    by (simp add: set_pick_def)
  note r3 = router_reach.step [OF r2 router_step.decide [OF this]]
  show ?thesis using r3 m i by (simp add: set_pick_def)
qed

theorem router_decisions_never_mix_rule_sets_witness:
  "\<exists>s rules ctx'. router_reach demo_env (\<lambda>_. 0) (demo_inner ''a'') s \<and>
     rx_picks s 0 = PDone (demo_ctx 80) (''a'', True) \<and> rules \<in> rx_installed s \<and>
     from_context (\<lambda>_. 0) ctx' = from_context (\<lambda>_. 0) (demo_ctx 80) \<and>
     (''a'', True) = pick_route_match_uncached demo_env rules ctx'"
proof -
  let ?s = "set_pick 0 (PDecided (demo_ctx 80) 0 (''a'', True)) (race_init (demo_inner ''a''))"
  have "rx_picks ?s 0 = PDecided (demo_ctx 80) 0 (''a'', True)" by (simp add: set_pick_def)
  from router_reach.step [OF reach_decided [of demo_env "\<lambda>_. 0" "demo_inner ''a''" 0 "demo_ctx 80",
        unfolded demo_decision] router_step.store_decision [OF this, where later = 0]]
  obtain t where t: "router_reach demo_env (\<lambda>_. 0) (demo_inner ''a'') t" "rx_picks t 0 = PDone (demo_ctx 80) (''a'', True)"
    by (auto simp: set_pick_def)
  show ?thesis using router_decisions_never_mix_rule_sets [OF t] t by blast
qed

text \<open>C32: a swap can leave a decision of the old rules in the cache under the new generation.  When a
  decision reads the generation after the swap has advanced it and loads the rules before the swap
  has stored the new ones, its entry is inserted after the clearing, and once everything is quiet
  later connections get the old route until the entry expires.\<close>

theorem router_serves_stale_route_after_swap:
  assumes "now < later + route_cache_ttl (fst (pick_route_match_uncached env old ctx))"
  shows "\<exists>s. router_reach env hash old s \<and> rx_swap s = SIdle \<and> rx_picks s = (\<lambda>_. PIdle) \<and>
     lr_inner (rx_router s) = new \<and>
     fst (pick_route_match env hash now later' (rx_router s) ctx) = pick_route_match_uncached env old ctx"
proof -
  let ?d = "pick_route_match_uncached env old ctx" and ?k = "from_context hash ctx"
  let ?state = "\<lambda>inner cache p w installed.
     \<lparr>rx_router = \<lparr>lr_inner = inner, lr_cache = cache, lr_generation = 1\<rparr>,
      rx_picks = (\<lambda>i. if i = 0 then p else PIdle), rx_swap = w, rx_installed = installed\<rparr>"
  let ?entry = "\<lparr>re_route = fst ?d, re_matched = snd ?d, re_expires_at = later + route_cache_ttl (fst ?d),
      re_generation = 1\<rparr>"
  have "router_reach env hash old (?state old Map.empty PIdle (SBumped new) {old})"
    using router_reach.step [OF router_reach.init router_step.bump [where inner = new]]
    by (simp add: race_init_def live_router_new_def swap_bump_def)
  from router_reach.step [OF this router_step.start [where i = 0 and ctx = ctx]]
  have "router_reach env hash old (?state old Map.empty (PGeneration ctx 1) (SBumped new) {old})"
    by (simp add: set_pick_def fun_upd_def if_distrib cong: if_cong)
  from router_reach.step [OF this router_step.miss [where i = 0 and now = 0]]
  have "router_reach env hash old (?state old Map.empty (PMiss ctx 1) (SBumped new) {old})"
    by (simp add: set_pick_def cache_lookup_def fun_upd_def if_distrib cong: if_cong)
  from router_reach.step [OF this router_step.decide [where i = 0]]
  have "router_reach env hash old (?state old Map.empty (PDecided ctx 1 ?d) (SBumped new) {old})"
    by (simp add: set_pick_def fun_upd_def if_distrib cong: if_cong)
  from router_reach.step [OF this router_step.clear]
  have "router_reach env hash old (?state old Map.empty (PDecided ctx 1 ?d) (SCleared new) {old})"
    by (simp add: swap_clear_def)
  from router_reach.step [OF this router_step.store_decision [where i = 0 and later = later]]
  have "router_reach env hash old (?state old [?k \<mapsto> ?entry] (PDone ctx ?d) (SCleared new) {old})"
    by (simp add: set_pick_def cache_insert_def fun_upd_def if_distrib cong: if_cong)
  from router_reach.step [OF this router_step.store]
  have "router_reach env hash old (?state new [?k \<mapsto> ?entry] (PDone ctx ?d) SIdle {new, old})"
    by (simp add: swap_store_def)
  from router_reach.step [OF this router_step.finish [where i = 0]]
  have r: "router_reach env hash old (?state new [?k \<mapsto> ?entry] PIdle SIdle {new, old})"
    by (simp add: set_pick_def fun_upd_def if_distrib cong: if_cong)
  show ?thesis
    by (rule exI [of _ "?state new [?k \<mapsto> ?entry] PIdle SIdle {new, old}"])
      (use r assms in \<open>simp add: pick_route_match_def cache_lookup_def Let_def\<close>)
qed

theorem router_serves_stale_route_after_swap_witness:
  "\<exists>s. router_reach demo_env (\<lambda>_. 0) (demo_inner ''a'') s \<and> rx_swap s = SIdle \<and>
     lr_inner (rx_router s) = demo_inner ''b'' \<and>
     fst (pick_route_match demo_env (\<lambda>_. 0) 20000 20000 (rx_router s) (demo_ctx 80)) = (''a'', True)"
  using router_serves_stale_route_after_swap [of 20000 0 demo_env "demo_inner ''a''" "demo_ctx 80" "\<lambda>_. 0"
      "demo_inner ''b''" 20000]
  by (auto simp: demo_decision route_cache_ttl_def ROUTE_CACHE_TTL_def ROUTE_CACHE_HEALTH_TTL_def
      sublist_Cons_right)

text \<open>C12: the dispatcher implements the three domain strategies on the live router: it tries the
  resolved addresses before the domain for IPOnDemand and after it for IPIfNonMatch, takes the first
  candidate with a matching rule, and otherwise the default route of the destination itself.  The
  router stays coherent.\<close>

theorem dispatcher_domain_strategies:
  assumes "inj_on (from_context hash) K" "coherent env hash K r"
    and "st = normalize_routing_domain_strategy (ri_domain_strategy (lr_inner r))"
    and "mk ` set (xray_candidates st (ri_has_ip_rules (lr_inner r)) boost da dest) \<subseteq> K"
  shows "\<exists>r' j. pick_route_xray (live_iface env hash clk) boost da mk dest (r, i) =
     (Ok (route_spec (pick_route_match_uncached env (lr_inner r)) mk dest
            (xray_candidates st (ri_has_ip_rules (lr_inner r)) boost da dest)), (r', j)) \<and>
     coherent env hash K r'"
proof -
  have "live_inv env hash K (lr_inner r) (r, i)" using assms(1,2) by (simp add: live_inv_def)
  from live.pick_route_xray_spec [OF this assms(3,4), where clk = clk]
  show ?thesis by (auto simp: live_inv_def)
qed

definition demo_ip_inner :: "(ip_addr \<times> u8, bool \<times> string list, string list) router_inner" where
  "demo_ip_inner = router_inner_new
     [(tag_rule ''proxy'')\<lparr>cr_ip_matcher := Some [(V4 0x0A000000, 8)], cr_port_ranges := []\<rparr>]
     ''direct'' Map.empty Map.empty (Some ''IPIfNonMatch'')"

definition demo_mk :: "address \<Rightarrow> routing_context" where
  "demo_mk dest = routing_ctx dest Tcp ''in'' None None None"

text \<open>A DNS module that times out, and a system resolver that knows the answer.\<close>

definition slow_dns :: dns_answers where
  "slow_dns = \<lparr>da_dns = Some (\<lambda>_. TimedOut), da_lookup_host = (\<lambda>_ p. Answered [(V4 0x0A000001, p)]),
     da_task_completes = True\<rparr>"

definition good_dns :: dns_answers where
  "good_dns = slow_dns\<lparr>da_dns := Some (\<lambda>_. Answered [V4 0x0A000001])\<rparr>"

definition demo_hash :: "hash_input \<Rightarrow> u64" where
  "demo_hash x = (case x of HashAddress (Domain _ _) \<Rightarrow> 1 | _ \<Rightarrow> 0)"

abbreviation demo_dest :: address where
  "demo_dest \<equiv> Domain ''x.org'' 80"

lemma demo_strategy: "normalize_routing_domain_strategy (ri_domain_strategy demo_ip_inner) = IpIfNonMatch"
  unfolding demo_ip_inner_def router_inner_new_def by code_simp

lemma demo_ip_in_range: "ip_matches cidr_ops [(V4 0x0A000000, 8)] (V4 0x0A000001)"
  by code_simp

lemma demo_ip_decisions:
  "pick_route_match_uncached demo_env demo_ip_inner (demo_mk demo_dest) = (''direct'', False)"
  "pick_route_match_uncached demo_env demo_ip_inner (demo_mk (Ipv4 0x0A000001 80)) = (''proxy'', True)"
  using demo_ip_in_range
  by (simp_all add: router_inner_new_def demo_ip_inner_def pick_route_match_uncached_def matches_with_geo_def
      tag_rule_def demo_mk_def routing_ctx_def demo_env_def)

lemma demo_has_ip: "ri_has_ip_rules demo_ip_inner"
  by (simp add: demo_ip_inner_def router_inner_new_def rules_have_ip_def)

lemma demo_keys_distinct: "inj_on (from_context demo_hash) {demo_mk demo_dest, demo_mk (Ipv4 0x0A000001 80)}"
  by (simp add: inj_on_def demo_mk_def routing_ctx_def from_context_def demo_hash_def)

lemma demo_late:
  "late_candidates IpIfNonMatch True \<lparr>fpb_enabled = False, fpb_dns = False\<rparr> good_dns demo_dest = [Ipv4 0x0A000001 80]"
  "late_candidates IpIfNonMatch True \<lparr>fpb_enabled = False, fpb_dns = False\<rparr> slow_dns demo_dest = []"
  "late_candidates IpIfNonMatch True \<lparr>fpb_enabled = True, fpb_dns = False\<rparr> slow_dns demo_dest = [Ipv4 0x0A000001 80]"
  by (simp_all add: late_candidates_def prefetch_dns_def prefetch_task_def resolve_domain_ips_def good_dns_def
      slow_dns_def ip_address_def)

lemma demo_candidates:
  "xray_candidates IpIfNonMatch True boost da demo_dest =
     demo_dest # late_candidates IpIfNonMatch True boost da demo_dest"
  by (simp add: xray_candidates_def early_candidates_def)

theorem dispatcher_domain_strategies_witness:
  "fst (pick_route_xray (live_iface demo_env demo_hash (\<lambda>i. i)) \<lparr>fpb_enabled = False, fpb_dns = False\<rparr> good_dns
     demo_mk demo_dest (live_router_new demo_ip_inner, 0)) = Ok ''proxy''"
proof -
  let ?r = "live_router_new demo_ip_inner"
  have r: "lr_inner ?r = demo_ip_inner" by (simp add: live_router_new_def)
  note th = dispatcher_domain_strategies [OF demo_keys_distinct coherent_new, of IpIfNonMatch demo_ip_inner demo_mk
      "\<lparr>fpb_enabled = False, fpb_dns = False\<rparr>" good_dns demo_dest demo_env "\<lambda>i. i" 0]
  show ?thesis
    using th unfolding r demo_strategy
    by (auto simp: demo_has_ip demo_candidates demo_late route_spec_def demo_ip_decisions)
qed

text \<open>The prefetch started for IPIfNonMatch is not the same resolution as the direct one.  When
  the DNS module times out, the prefetch gives up, while the direct path still asks the system
  resolver; the same connection is then routed differently depending on whether prefetching is
  enabled.\<close>

lemma prefetch_changes_the_route:
  "fst (pick_route_xray (live_iface demo_env demo_hash (\<lambda>i. i)) \<lparr>fpb_enabled = False, fpb_dns = False\<rparr> slow_dns
     demo_mk demo_dest (live_router_new demo_ip_inner, 0)) = Ok ''direct'' \<and>
   fst (pick_route_xray (live_iface demo_env demo_hash (\<lambda>i. i)) \<lparr>fpb_enabled = True, fpb_dns = False\<rparr> slow_dns
     demo_mk demo_dest (live_router_new demo_ip_inner, 0)) = Ok ''proxy''"
proof -
  let ?K = "{demo_mk demo_dest, demo_mk (Ipv4 0x0A000001 80)}"
  have inv: "live_inv demo_env demo_hash ?K demo_ip_inner (live_router_new demo_ip_inner, 0)"
    using demo_keys_distinct coherent_new by (simp add: live_inv_def) (simp add: live_router_new_def)
  note th = live.pick_route_xray_spec [OF inv refl, where mk = demo_mk and dest = demo_dest and da = slow_dns
      and clk = "\<lambda>i. i", unfolded demo_strategy]
  show ?thesis
    using th [where boost = "\<lparr>fpb_enabled = False, fpb_dns = False\<rparr>"]
      th [where boost = "\<lparr>fpb_enabled = True, fpb_dns = False\<rparr>"]
    by (auto simp: demo_has_ip demo_candidates demo_late route_spec_def demo_ip_decisions)
qed

end
