(* ===== verification/Lru.thy ===== *)
theory Lru
  imports BW_Prelude
begin

text \<open>
  The least-recently-used cache of the \<^verbatim>\<open>lru\<close> crate, which the DNS cache and the FakeIP pool are built
  on.  Its operations are the record \<open>lru\<close>, an argument of the definitions that use it.  The locale
  \<open>lru_laws\<close> states the documented behaviour on the sequence of entries, most recently used first:
  a hit moves the entry to the front, an insertion puts it there and drops the last entry beyond the
  capacity, \<^verbatim>\<open>pop_lru\<close> takes the last one.  \<open>list_lru\<close> implements the interface by such a sequence.
\<close>

record ('l, 'k, 'v) lru =
  lru_new :: "nat \<Rightarrow> 'l"
  lru_get :: "'k \<Rightarrow> 'l \<Rightarrow> 'v option \<times> 'l"
  lru_put :: "'k \<Rightarrow> 'v \<Rightarrow> 'l \<Rightarrow> 'l"
  lru_pop :: "'k \<Rightarrow> 'l \<Rightarrow> 'l"
  lru_pop_lru :: "'l \<Rightarrow> ('k \<times> 'v) option \<times> 'l"
  lru_iter :: "'l \<Rightarrow> ('k \<times> 'v) list"

definition without :: "'k \<Rightarrow> ('k \<times> 'v) list \<Rightarrow> ('k \<times> 'v) list" where
  "without k xs = filter (\<lambda>e. fst e \<noteq> k) xs"

lemma map_of_without: "map_of (without k xs) = (map_of xs)(k := None)"
  by (induction xs) (auto simp: without_def fun_eq_iff)

lemma keys_without: "fst ` set (without k xs) = fst ` set xs - {k}"
  by (auto simp: without_def)

lemma distinct_without: "distinct (map fst xs) \<Longrightarrow> distinct (map fst (without k xs))"
  by (simp add: without_def distinct_map_filter)

lemma length_without_le: "length (without k xs) \<le> length xs"
  by (simp add: without_def)

lemma without_absent: "k \<notin> fst ` set xs \<Longrightarrow> without k xs = xs"
  by (auto simp: without_def filter_id_conv)

lemma length_without_present: "k \<in> fst ` set xs \<Longrightarrow> length (without k xs) < length xs"
  by (auto simp: without_def intro!: length_filter_less)

locale lru_laws =
  fixes ops :: "('l, 'k, 'v) lru"
    and wf :: "'l \<Rightarrow> bool"
    and cap :: "'l \<Rightarrow> nat"
  assumes wf_bound: "wf l \<Longrightarrow> length (lru_iter ops l) \<le> cap l"
    and wf_distinct: "wf l \<Longrightarrow> distinct (map fst (lru_iter ops l))"
    and new: "0 < c \<Longrightarrow> wf (lru_new ops c) \<and> cap (lru_new ops c) = c \<and> lru_iter ops (lru_new ops c) = []"
    and get_value: "wf l \<Longrightarrow> fst (lru_get ops k l) = map_of (lru_iter ops l) k"
    and get_entries: "wf l \<Longrightarrow> wf (snd (lru_get ops k l)) \<and> cap (snd (lru_get ops k l)) = cap l \<and>
      lru_iter ops (snd (lru_get ops k l)) =
        (case map_of (lru_iter ops l) k of None \<Rightarrow> lru_iter ops l | Some v \<Rightarrow> (k, v) # without k (lru_iter ops l))"
    and put: "wf l \<Longrightarrow> wf (lru_put ops k v l) \<and> cap (lru_put ops k v l) = cap l \<and>
      lru_iter ops (lru_put ops k v l) = take (cap l) ((k, v) # without k (lru_iter ops l))"
    and pop: "wf l \<Longrightarrow> wf (lru_pop ops k l) \<and> cap (lru_pop ops k l) = cap l \<and>
      lru_iter ops (lru_pop ops k l) = without k (lru_iter ops l)"
    and pop_lru: "wf l \<Longrightarrow> wf (snd (lru_pop_lru ops l)) \<and> cap (snd (lru_pop_lru ops l)) = cap l \<and>
      lru_iter ops (snd (lru_pop_lru ops l)) = butlast (lru_iter ops l) \<and>
      fst (lru_pop_lru ops l) = (if lru_iter ops l = [] then None else Some (last (lru_iter ops l)))"
begin

abbreviation keys :: "'l \<Rightarrow> 'k set" where
  "keys l \<equiv> fst ` set (lru_iter ops l)"

abbreviation lookup :: "'l \<Rightarrow> 'k \<Rightarrow> 'v option" where
  "lookup l \<equiv> map_of (lru_iter ops l)"

lemma lookup_get: "wf l \<Longrightarrow> lookup (snd (lru_get ops k l)) = lookup l"
  using get_entries [of l k] by (auto simp: map_of_without fun_eq_iff split: option.splits)

lemma lookup_pop: "wf l \<Longrightarrow> lookup (lru_pop ops k l) = (lookup l)(k := None)"
  using pop [of l k] by (simp add: map_of_without)

text \<open>An insertion may drop entries but never changes or adds another one.\<close>

lemma lookup_put_other:
  assumes "wf l" "k' \<noteq> k" "lookup (lru_put ops k v l) k' = Some v'"
  shows "lookup l k' = Some v'"
proof -
  have "(k', v') \<in> set ((k, v) # without k (lru_iter ops l))"
    using put [OF assms(1), of k v] map_of_SomeD [OF assms(3)] by (auto dest: in_set_takeD)
  then have "(k', v') \<in> set (lru_iter ops l)" using assms(2) by (auto simp: without_def)
  then show ?thesis using wf_distinct [OF assms(1)] by simp
qed

lemma keys_get: "wf l \<Longrightarrow> keys (snd (lru_get ops k l)) = keys l"
proof (cases "lookup l k")
  case (Some v)
  then have "k \<in> keys l" by (force dest: map_of_SomeD)
  moreover assume "wf l"
  ultimately show ?thesis using get_entries [of l k] Some by (auto simp: keys_without)
qed (use get_entries [of l k] in simp)

lemma keys_put:
  assumes "wf l" "k \<notin> keys l" "length (lru_iter ops l) < cap l"
  shows "keys (lru_put ops k v l) = insert k (keys l)"
  using put [OF assms(1), of k v] assms(2,3) by (simp add: without_absent)

lemma length_put:
  assumes "wf l" "k \<notin> keys l" "length (lru_iter ops l) < cap l"
  shows "length (lru_iter ops (lru_put ops k v l)) = Suc (length (lru_iter ops l))"
  using put [OF assms(1), of k v] assms(2,3) by (simp add: without_absent)

lemma pop_lru_keys:
  assumes "wf l" "lru_iter ops l \<noteq> []"
  shows "\<exists>k v. fst (lru_pop_lru ops l) = Some (k, v) \<and> k \<in> keys l \<and>
      keys (snd (lru_pop_lru ops l)) = keys l - {k}"
proof -
  obtain xs k v where i: "lru_iter ops l = xs @ [(k, v)]" using assms(2) by (metis rev_exhaust surj_pair)
  then have "k \<notin> fst ` set xs" using wf_distinct [OF assms(1)] by simp
  then show ?thesis using pop_lru [OF assms(1)] i by auto
qed

end

section \<open>A direct implementation\<close>

definition list_lru :: "(nat \<times> ('k \<times> 'v) list, 'k, 'v) lru" where
  "list_lru =
     \<lparr>lru_new = (\<lambda>c. (c, [])),
      lru_get = (\<lambda>k (c, xs). case map_of xs k of
         None \<Rightarrow> (None, (c, xs)) | Some v \<Rightarrow> (Some v, (c, (k, v) # without k xs))),
      lru_put = (\<lambda>k v (c, xs). (c, take c ((k, v) # without k xs))),
      lru_pop = (\<lambda>k (c, xs). (c, without k xs)),
      lru_pop_lru = (\<lambda>(c, xs). (if xs = [] then None else Some (last xs), (c, butlast xs))),
      lru_iter = snd\<rparr>"

definition list_lru_wf :: "nat \<times> ('k \<times> 'v) list \<Rightarrow> bool" where
  "list_lru_wf l \<longleftrightarrow> 0 < fst l \<and> length (snd l) \<le> fst l \<and> distinct (map fst (snd l))"

interpretation list_lru: lru_laws list_lru list_lru_wf fst
proof unfold_locales
  fix l :: "nat \<times> ('a \<times> 'b) list" and k v
  assume wf: "list_lru_wf l"
  obtain c xs where l: "l = (c, xs)" by fastforce
  have wf': "0 < c" "length xs \<le> c" "distinct (map fst xs)" using wf l by (simp_all add: list_lru_wf_def)
  have front: "distinct (map fst ((k, v) # without k xs))" for v :: 'b
    using distinct_without [OF wf'(3)] keys_without [of k xs] by auto
  show "list_lru_wf (snd (lru_get list_lru k l)) \<and> fst (snd (lru_get list_lru k l)) = fst l \<and>
      lru_iter list_lru (snd (lru_get list_lru k l)) =
        (case map_of (lru_iter list_lru l) k of None \<Rightarrow> lru_iter list_lru l
         | Some v \<Rightarrow> (k, v) # without k (lru_iter list_lru l))"
  proof (cases "map_of xs k")
    case None
    then show ?thesis using wf l by (simp add: list_lru_def)
  next
    case (Some w)
    then have "k \<in> fst ` set xs" by (force dest: map_of_SomeD)
    then have "Suc (length (without k xs)) \<le> c" using length_without_present wf'(2) by fastforce
    then show ?thesis using Some l front wf' by (simp add: list_lru_def list_lru_wf_def)
  qed
  show "list_lru_wf (lru_put list_lru k v l) \<and> fst (lru_put list_lru k v l) = fst l \<and>
      lru_iter list_lru (lru_put list_lru k v l) = take (fst l) ((k, v) # without k (lru_iter list_lru l))"
    using l wf' distinct_take [OF front [of v], of c] by (simp add: list_lru_def list_lru_wf_def flip: take_map)
  show "list_lru_wf (lru_pop list_lru k l) \<and> fst (lru_pop list_lru k l) = fst l \<and>
      lru_iter list_lru (lru_pop list_lru k l) = without k (lru_iter list_lru l)"
    using l wf' distinct_without [OF wf'(3)] order.trans [OF length_without_le wf'(2)]
    by (simp add: list_lru_def list_lru_wf_def)
  show "list_lru_wf (snd (lru_pop_lru list_lru l)) \<and> fst (snd (lru_pop_lru list_lru l)) = fst l \<and>
      lru_iter list_lru (snd (lru_pop_lru list_lru l)) = butlast (lru_iter list_lru l) \<and>
      fst (lru_pop_lru list_lru l) = (if lru_iter list_lru l = [] then None else Some (last (lru_iter list_lru l)))"
    using l wf' by (auto simp: list_lru_def list_lru_wf_def map_butlast distinct_butlast)
  show "fst (lru_get list_lru k l) = map_of (lru_iter list_lru l) k"
    using l by (simp add: list_lru_def split: option.splits)
qed (auto simp: list_lru_def list_lru_wf_def)

end
