(* ===== verification/Dns.thy ===== *)
theory Dns
  imports Addresses Lru
begin

text \<open>
  The DNS cache and the DNS module that uses it (crates/blackwire-app/src/dns/cache.rs, dns.rs).

  The LRU container is the argument \<open>ops\<close> (theory Lru).  An instant is a number of seconds and is an
  argument of every operation that reads the clock; the answer of the upstream resolver is an
  argument of \<open>dns_resolve\<close>.  The mutex makes each cache operation atomic.
\<close>

section \<open>The cache\<close>

datatype cache_entry = Positive "ip_addr list" nat | Negative nat

fun entry_expires :: "cache_entry \<Rightarrow> nat" where
  "entry_expires (Positive _ expires) = expires"
| "entry_expires (Negative expires) = expires"

type_synonym 'l dns_lru = "('l, string, cache_entry) lru"

definition dns_cache_new :: "'l dns_lru \<Rightarrow> nat \<Rightarrow> 'l" where
  "dns_cache_new ops capacity = lru_new ops (max capacity 1)"

definition dns_cache_get :: "'l dns_lru \<Rightarrow> nat \<Rightarrow> string \<Rightarrow> 'l \<Rightarrow> ip_addr list option \<times> 'l" where
  "dns_cache_get ops now domain cache =
     (let (found, cache) = lru_get ops domain cache;
          result = map_option (\<lambda>e.
            if entry_expires e < now then None
            else case e of Positive ips _ \<Rightarrow> Some ips | Negative _ \<Rightarrow> None) found
      in case result of
           Some (Some ips) \<Rightarrow> (Some ips, cache)
         | Some None \<Rightarrow> (None, lru_pop ops domain cache)
         | None \<Rightarrow> (None, cache))"

definition is_negative_cached :: "'l dns_lru \<Rightarrow> nat \<Rightarrow> string \<Rightarrow> 'l \<Rightarrow> bool \<times> 'l" where
  "is_negative_cached ops now domain cache =
     (let (found, cache) = lru_get ops domain cache;
          result = map_option (\<lambda>e.
            if entry_expires e < now then None
            else Some (case e of Negative _ \<Rightarrow> True | Positive _ _ \<Rightarrow> False)) found
      in case result of
           Some (Some is_negative) \<Rightarrow> (is_negative, cache)
         | Some None \<Rightarrow> (False, lru_pop ops domain cache)
         | None \<Rightarrow> (False, cache))"

definition dns_cache_insert :: "'l dns_lru \<Rightarrow> nat \<Rightarrow> string \<Rightarrow> ip_addr list \<Rightarrow> nat \<Rightarrow> 'l \<Rightarrow> 'l" where
  "dns_cache_insert ops now domain ips ttl_secs cache =
     lru_put ops domain (Positive ips (now + ttl_secs)) cache"

definition insert_negative :: "'l dns_lru \<Rightarrow> nat \<Rightarrow> string \<Rightarrow> nat \<Rightarrow> 'l \<Rightarrow> 'l" where
  "insert_negative ops now domain ttl_secs cache =
     lru_put ops domain (Negative (now + ttl_secs)) cache"

definition evict_expired :: "'l dns_lru \<Rightarrow> nat \<Rightarrow> 'l \<Rightarrow> 'l" where
  "evict_expired ops now cache =
     fold (\<lambda>key cache. lru_pop ops key cache)
       (map fst (filter (\<lambda>(_, v). entry_expires v < now) (lru_iter ops cache))) cache"

section \<open>The module\<close>

definition DNS_POSITIVE_TTL_SECS :: nat where "DNS_POSITIVE_TTL_SECS = 300"
definition DNS_NEGATIVE_TTL_SECS :: nat where "DNS_NEGATIVE_TTL_SECS = 5"

text \<open>\<open>t1\<close>, \<open>t2\<close> and \<open>t3\<close> are the clock readings of the two lookups and of the insertion.\<close>

definition dns_resolve ::
  "'l dns_lru \<Rightarrow> nat \<Rightarrow> nat \<Rightarrow> nat \<Rightarrow> ip_addr list res \<Rightarrow> string \<Rightarrow> 'l \<Rightarrow> ip_addr list res \<times> 'l" where
  "dns_resolve ops t1 t2 t3 upstream domain cache =
     (case dns_cache_get ops t1 domain cache of
        (Some cached, cache) \<Rightarrow> (Ok cached, cache)
      | (None, cache) \<Rightarrow>
          (case is_negative_cached ops t2 domain cache of
             (True, cache) \<Rightarrow> (Err (DnsResolutionFailed (domain @ '' (negative cache)'')), cache)
           | (False, cache) \<Rightarrow>
               (case upstream of
                  Ok ips \<Rightarrow> (Ok ips, dns_cache_insert ops t3 domain ips DNS_POSITIVE_TTL_SECS cache)
                | Err e \<Rightarrow> (Err e, insert_negative ops t3 domain DNS_NEGATIVE_TTL_SECS cache)
                | Panic \<Rightarrow> (Panic, cache))))"

definition is_filtered :: "string list \<Rightarrow> string \<Rightarrow> bool" where
  "is_filtered fltr domain =
     list_ex (\<lambda>f.
       if domain = f then True
       else length domain > length f \<and>
            domain ! (length domain - length f - 1) = CHR ''.'' \<and>
            suffix f domain) fltr"

section \<open>What the operations keep\<close>

locale dns_lru_laws = lru_laws ops wf cap
  for ops :: "'l dns_lru" and wf :: "'l \<Rightarrow> bool" and cap :: "'l \<Rightarrow> nat"
begin

lemma get_parts:
  assumes "wf l"
  shows "\<exists>l1. lru_get ops d l = (lookup l d, l1) \<and> wf l1 \<and> lookup l1 = lookup l"
  using get_value [OF assms, of d] get_entries [OF assms, of d] lookup_get [OF assms, of d]
  by (intro exI [of _ "snd (lru_get ops d l)"]) (simp add: prod_eq_iff)

text \<open>A lookup only ever removes the entry it looks at.\<close>

lemma get_result:
  assumes "wf l" "dns_cache_get ops now d l = (r, l')"
  shows "wf l'" "\<And>ips. r = Some ips \<Longrightarrow> \<exists>ex. lookup l d = Some (Positive ips ex) \<and> now \<le> ex \<and> lookup l' = lookup l"
    "r = None \<Longrightarrow> lookup l' = (lookup l)(d := None)"
proof -
  obtain l1 where g: "lru_get ops d l = (lookup l d, l1)" and w: "wf l1" "lookup l1 = lookup l"
    using get_parts [OF assms(1)] by blast
  have p: "wf (lru_pop ops d l1)" "lookup (lru_pop ops d l1) = (lookup l)(d := None)"
    using pop [OF w(1)] lookup_pop [OF w(1)] w(2) by auto
  have "wf l' \<and> (\<forall>ips. r = Some ips \<longrightarrow> (\<exists>ex. lookup l d = Some (Positive ips ex) \<and> now \<le> ex \<and> lookup l' = lookup l)) \<and>
      (r = None \<longrightarrow> lookup l' = (lookup l)(d := None))"
  proof (cases "lookup l d")
    case None
    then have "(lookup l)(d := None) = lookup l" by auto
    then show ?thesis using assms(2) g w None by (simp add: dns_cache_get_def)
  next
    case (Some e)
    then show ?thesis using assms(2) g w p
      by (cases e) (auto simp: dns_cache_get_def split: if_splits)
  qed
  then show "wf l'" "\<And>ips. r = Some ips \<Longrightarrow> \<exists>ex. lookup l d = Some (Positive ips ex) \<and> now \<le> ex \<and> lookup l' = lookup l"
    "r = None \<Longrightarrow> lookup l' = (lookup l)(d := None)" by blast+
qed

lemma negative_absent:
  assumes "wf l" "lookup l d = None"
  shows "\<exists>l'. is_negative_cached ops now d l = (False, l') \<and> wf l' \<and> lookup l' = lookup l"
  using get_parts [OF assms(1), of d] assms(2) by (auto simp: is_negative_cached_def)

text \<open>A resolution answers from a positive entry or asks the upstream; the negative entries, which
  the first lookup has removed, are never seen by the second.\<close>

lemma resolve_cases:
  assumes "wf l"
  obtains (hit) ips l' where "dns_cache_get ops t1 d l = (Some ips, l')"
      "dns_resolve ops t1 t2 t3 up d l = (Ok ips, l')"
  | (miss) l1 l2 where "dns_cache_get ops t1 d l = (None, l1)" "wf l2" "lookup l2 = (lookup l)(d := None)"
      "dns_resolve ops t1 t2 t3 up d l =
         (up, case up of Ok ips \<Rightarrow> dns_cache_insert ops t3 d ips DNS_POSITIVE_TTL_SECS l2
              | Err _ \<Rightarrow> insert_negative ops t3 d DNS_NEGATIVE_TTL_SECS l2 | Panic \<Rightarrow> l2)"
proof -
  obtain r l1 where g: "dns_cache_get ops t1 d l = (r, l1)" by fastforce
  show thesis
  proof (cases r)
    case (Some ips)
    then show thesis using g hit by (simp add: dns_resolve_def)
  next
    case None
    then have l1: "wf l1" "lookup l1 = (lookup l)(d := None)" using get_result [OF assms g] by auto
    then obtain l2 where n: "is_negative_cached ops t2 d l1 = (False, l2)" "wf l2" "lookup l2 = lookup l1"
      using negative_absent [of l1 d t2] by auto
    show thesis
      using miss [OF _ n(2), of l1] g None n l1 by (simp add: dns_resolve_def split: res.splits)
  qed
qed

text \<open>Every positive entry is an answer the upstream gave for that name.\<close>

definition answers_from :: "(string \<times> ip_addr list \<times> nat) set \<Rightarrow> 'l \<Rightarrow> bool" where
  "answers_from log l \<longleftrightarrow> wf l \<and>
     (\<forall>d ips ex. lookup l d = Some (Positive ips ex) \<longrightarrow> (\<exists>t. (d, ips, t) \<in> log \<and> ex = t + DNS_POSITIVE_TTL_SECS))"

lemma answers_from_put:
  assumes "answers_from log l" "\<And>ips ex. e = Positive ips ex \<Longrightarrow> \<exists>t. (d, ips, t) \<in> log \<and> ex = t + DNS_POSITIVE_TTL_SECS"
  shows "answers_from log (lru_put ops d e l)"
proof -
  have wf: "wf l" using assms(1) by (simp add: answers_from_def)
  have "0 < cap l \<Longrightarrow> lookup (lru_put ops d e l) d = Some e"
    using put [OF wf, of d e] by (cases "cap l") auto
  moreover have "cap l = 0 \<Longrightarrow> lookup (lru_put ops d e l) d = None" using put [OF wf, of d e] by simp
  ultimately have d: "lookup (lru_put ops d e l) d = Some e' \<Longrightarrow> e' = e" for e' by (cases "cap l") auto
  show ?thesis
    unfolding answers_from_def
  proof (intro conjI allI impI)
    show "wf (lru_put ops d e l)" using put [OF wf] by blast
    fix d' ips ex
    assume l: "lookup (lru_put ops d e l) d' = Some (Positive ips ex)"
    show "\<exists>t. (d', ips, t) \<in> log \<and> ex = t + DNS_POSITIVE_TTL_SECS"
    proof (cases "d' = d")
      case True
      then show ?thesis using d l assms(2) by blast
    next
      case False
      then show ?thesis using lookup_put_other [OF wf False l] assms(1) unfolding answers_from_def by blast
    qed
  qed
qed

lemma answers_from_mono: "answers_from log l \<Longrightarrow> log \<subseteq> log' \<Longrightarrow> answers_from log' l"
  unfolding answers_from_def by blast

lemma answers_from_without:
  "answers_from log l \<Longrightarrow> wf l' \<Longrightarrow> lookup l' = (lookup l)(d := None) \<Longrightarrow> answers_from log l'"
  unfolding answers_from_def by (auto split: if_splits)

lemma answers_from_same: "answers_from log l \<Longrightarrow> wf l' \<Longrightarrow> lookup l' = lookup l \<Longrightarrow> answers_from log l'"
  unfolding answers_from_def by simp

lemma answers_from_pops: "answers_from log l \<Longrightarrow> answers_from log (fold (\<lambda>k l. lru_pop ops k l) ks l)"
proof (induction ks arbitrary: l)
  case (Cons k ks)
  have "wf l" using Cons.prems by (simp add: answers_from_def)
  then have "answers_from log (lru_pop ops k l)"
    using answers_from_without [OF Cons.prems] pop lookup_pop by blast
  then show ?case using Cons.IH by simp
qed simp

lemma answers_from_resolve:
  assumes "answers_from log l" "dns_resolve ops t1 t2 t3 up d l = (r, l')"
    and "log' = (case (fst (dns_cache_get ops t1 d l), up) of (None, Ok ips) \<Rightarrow> insert (d, ips, t3) log | _ \<Rightarrow> log)"
  shows "answers_from log' l'"
    and "\<And>ips. r = Ok ips \<Longrightarrow> (up = Ok ips \<and> (d, ips, t3) \<in> log') \<or> (\<exists>t. (d, ips, t) \<in> log \<and> t1 \<le> t + DNS_POSITIVE_TTL_SECS)"
proof -
  have wf: "wf l" using assms(1) by (simp add: answers_from_def)
  have "answers_from log' l' \<and> (\<forall>ips. r = Ok ips \<longrightarrow> (up = Ok ips \<and> (d, ips, t3) \<in> log') \<or>
      (\<exists>t. (d, ips, t) \<in> log \<and> t1 \<le> t + DNS_POSITIVE_TTL_SECS))"
    using wf
  proof (cases rule: resolve_cases [of l t1 d t2 t3 up])
    case (hit ips l'')
    then have "r = Ok ips" "l' = l''" "log' = log" using assms(2,3) by auto
    moreover obtain ex where ex: "lookup l d = Some (Positive ips ex)" "t1 \<le> ex" "lookup l'' = lookup l" "wf l''"
      using get_result [OF wf hit(1)] by auto
    moreover obtain t where "(d, ips, t) \<in> log" "ex = t + DNS_POSITIVE_TTL_SECS"
      using assms(1) ex(1) unfolding answers_from_def by blast
    ultimately show ?thesis using answers_from_same [OF assms(1)] by auto
  next
    case (miss l1 l2)
    have l2: "answers_from log l2" using answers_from_without [OF assms(1) miss(2,3)] .
    show ?thesis
    proof (cases up)
      case (Ok ips)
      then have lg: "log' = insert (d, ips, t3) log" using assms(3) miss(1) by simp
      then have "answers_from log' l2" using answers_from_mono [OF l2] by blast
      then have "answers_from log' (dns_cache_insert ops t3 d ips DNS_POSITIVE_TTL_SECS l2)"
        unfolding dns_cache_insert_def by (rule answers_from_put) (simp add: lg)
      then show ?thesis using assms(2) miss(4) Ok lg by auto
    next
      case (Err e)
      then show ?thesis using assms(2,3) miss(1,4) answers_from_put [OF l2]
        by (auto simp: insert_negative_def)
    next
      case Panic
      then show ?thesis using assms(2,3) miss(1,4) l2 by auto
    qed
  qed
  then show "answers_from log' l'" "\<And>ips. r = Ok ips \<Longrightarrow> (up = Ok ips \<and> (d, ips, t3) \<in> log') \<or>
      (\<exists>t. (d, ips, t) \<in> log \<and> t1 \<le> t + DNS_POSITIVE_TTL_SECS)" by blast+
qed

end

interpretation dns_list: dns_lru_laws list_lru list_lru_wf fst
  by unfold_locales

section \<open>Runs of the module\<close>

text \<open>The states a DNS module passes through, with the upstream answers it has received: name,
  addresses and the time they were stored.\<close>

inductive dns_reach :: "'l dns_lru \<Rightarrow> 'l \<Rightarrow> (string \<times> ip_addr list \<times> nat) set \<Rightarrow> bool" for ops where
  start: "dns_reach ops (dns_cache_new ops 512) {}"
| cached: "dns_reach ops l log \<Longrightarrow> fst (dns_cache_get ops t1 d l) = Some ips \<Longrightarrow>
    dns_resolve ops t1 t2 t3 up d l = (r, l') \<Longrightarrow> dns_reach ops l' log"
| asked: "dns_reach ops l log \<Longrightarrow> fst (dns_cache_get ops t1 d l) = None \<Longrightarrow>
    dns_resolve ops t1 t2 t3 up d l = (r, l') \<Longrightarrow>
    dns_reach ops l' (case up of Ok ips \<Rightarrow> insert (d, ips, t3) log | _ \<Rightarrow> log)"
| evict: "dns_reach ops l log \<Longrightarrow> dns_reach ops (evict_expired ops now l) log"

context dns_lru_laws
begin

lemma reach_answers_from: "dns_reach ops l log \<Longrightarrow> answers_from log l"
proof (induction rule: dns_reach.induct)
  case start
  then show ?case using new [of 512] by (simp add: answers_from_def dns_cache_new_def)
next
  case (cached l log t1 d ips t2 t3 up r l')
  then show ?case using answers_from_resolve(1) [of log l t1 t2 t3 up d r l' log] by simp
next
  case (asked l log t1 d t2 t3 up r l')
  then show ?case
    using answers_from_resolve(1) [of log l t1 t2 t3 up d r l'] by (simp split: res.splits)
next
  case (evict l log now)
  then show ?case unfolding evict_expired_def by (blast intro: answers_from_pops)
qed

lemma reach_fresh:
  assumes "dns_reach ops l log" "dns_resolve ops t1 t2 t3 up d l = (Ok ips, l')"
  shows "up = Ok ips \<or> (\<exists>t. (d, ips, t) \<in> log \<and> t1 \<le> t + DNS_POSITIVE_TTL_SECS)"
  using answers_from_resolve(2) [OF reach_answers_from [OF assms(1)] assms(2) refl] by blast

lemma resolve_equation:
  assumes "wf l"
  shows "fst (dns_resolve ops t1 t2 t3 up d l) =
    (case fst (dns_cache_get ops t1 d l) of Some ips \<Rightarrow> Ok ips | None \<Rightarrow> up)"
  using assms by (cases rule: resolve_cases [of l t1 d t2 t3 up]) simp_all

end

lemma is_filtered_iff:
  "is_filtered fltr domain \<longleftrightarrow> (\<exists>f. f \<in> set fltr \<and> (domain = f \<or> suffix (CHR ''.'' # f) domain))"
proof -
  have "(length domain > length f \<and> domain ! (length domain - length f - 1) = CHR ''.'' \<and> suffix f domain) \<longleftrightarrow>
      suffix (CHR ''.'' # f) domain" (is "?l \<longleftrightarrow> ?r") for f
  proof
    assume l: ?l
    then obtain p where p: "domain = p @ f" by (auto simp: suffix_def)
    then have "p \<noteq> []" using l by auto
    then obtain q c where "p = q @ [c]" by (metis rev_exhaust)
    then show ?r using l p by (auto simp: suffix_def nth_append)
  next
    assume ?r
    then show ?l by (auto simp: suffix_def nth_append)
  qed
  then show ?thesis by (auto simp: is_filtered_def list_ex_iff)
qed

section \<open>Correctness\<close>

text \<open>C26: an address list the module returns is the upstream's answer of this call, or one the upstream
  gave for the same name and that was stored no more than five minutes before the lookup; this holds
  after any sequence of resolutions and evictions.  The LRU container is any one with the documented
  laws.\<close>

theorem dns_answers_are_fresh:
  assumes "lru_laws ops lru_ok cap"
    and "dns_reach ops l log" "dns_resolve ops t1 t2 t3 up d l = (Ok ips, l')"
  shows "up = Ok ips \<or> (\<exists>t. (d, ips, t) \<in> log \<and> t1 \<le> t + 300)"
  using dns_lru_laws.reach_fresh [OF dns_lru_laws.intro [OF assms(1)] assms(2,3)]
  by (simp add: DNS_POSITIVE_TTL_SECS_def)

theorem dns_answers_are_fresh_witness:
  "fst (dns_resolve list_lru 200 200 200 (Err Timeout) ''a''
     (snd (dns_resolve list_lru 0 0 1 (Ok [V4 1]) ''a'' (dns_cache_new list_lru 512)))) = Ok [V4 1] \<and>
   (Err Timeout = Ok [V4 1] \<or> (\<exists>t. (''a'', [V4 1], t) \<in> {(''a'', [V4 1], 1)} \<and> 200 \<le> t + (300 :: nat)))"
proof -
  let ?l0 = "dns_cache_new list_lru 512 :: nat \<times> (string \<times> cache_entry) list"
  let ?l1 = "(512, [(''a'', Positive [V4 1] 301)])"
  have 1: "dns_resolve list_lru 0 0 1 (Ok [V4 1]) ''a'' ?l0 = (Ok [V4 1], ?l1)"
    by (simp add: dns_resolve_def dns_cache_get_def is_negative_cached_def dns_cache_insert_def dns_cache_new_def
        list_lru_def without_def DNS_POSITIVE_TTL_SECS_def)
  have g: "fst (dns_cache_get list_lru 0 ''a'' ?l0) = None"
    by (simp add: dns_cache_get_def dns_cache_new_def list_lru_def)
  have 2: "dns_resolve list_lru 200 200 200 (Err Timeout) ''a'' ?l1 = (Ok [V4 1], ?l1)"
    by (simp add: dns_resolve_def dns_cache_get_def list_lru_def without_def)
  have "dns_reach list_lru ?l1 {(''a'', [V4 1], 1)}"
    using dns_reach.asked [OF dns_reach.start g 1] by simp
  from dns_answers_are_fresh [OF list_lru.lru_laws_axioms this 2] 1 2 show ?thesis by simp
qed

text \<open>The negative cache is dead code.  Whatever the cache holds, a resolution without a valid
  positive entry returns the upstream's answer: the first lookup removes a valid negative entry as if
  it had expired, so the check for it never succeeds and failed lookups are repeated every time.\<close>

lemma dns_negative_cache_never_used:
  assumes "lru_laws ops lru_ok cap" "lru_ok l"
  shows "fst (dns_resolve ops t1 t2 t3 up d l) =
    (case fst (dns_cache_get ops t1 d l) of Some ips \<Rightarrow> Ok ips | None \<Rightarrow> up)"
  by (rule dns_lru_laws.resolve_equation [OF dns_lru_laws.intro [OF assms(1)] assms(2)])

end
