(* ===== verification/Fakeip.thy ===== *)
theory Fakeip
  imports Dns
begin

text \<open>
  The FakeIP pool (crates/blackwire-app/src/dns/fakeip.rs), the parts of the DNS module that expose it
  (dns.rs) and the dispatcher step that turns a fake address back into the domain
  (\<^verbatim>\<open>restore_fakeip_destination\<close> in dispatcher.rs).

  The IPv4 range is a value of the ipnet crate, read through the record \<open>v4net\<close>; the LRU container
  is the argument \<open>ops\<close>.  The map from domains to addresses is an association list, because its
  size is read; the reverse map is a map.  Allocation is serialised by a lock, so operations are
  sequential.  Arithmetic on addresses wraps, as in a release build.
\<close>

section \<open>The pool\<close>

record 'net v4net =
  v4_network :: "'net \<Rightarrow> u32"
  v4_broadcast :: "'net \<Rightarrow> u32"
  v4_contains :: "'net \<Rightarrow> u32 \<Rightarrow> bool"

type_synonym 'l fakeip_lru = "('l, string, unit) lru"

record ('net, 'l) fakeip_pool =
  fp_network :: 'net
  fp_next :: u32
  fp_pool_size :: nat
  fp_forward :: "(string \<times> u32) list"
  fp_reverse :: "u32 \<rightharpoonup> string"
  fp_lru :: 'l

definition fakeip_pool_new ::
  "'net v4net \<Rightarrow> 'l fakeip_lru \<Rightarrow> (string \<Rightarrow> 'net option) \<Rightarrow> string \<Rightarrow> ('net, 'l) fakeip_pool option" where
  "fakeip_pool_new nets ops parse cidr =
     (case parse cidr of
        None \<Rightarrow> None
      | Some network \<Rightarrow>
          let network_u32 = v4_network nets network;
              broadcast_u32 = v4_broadcast nets network;
              pool_size = unat (broadcast_u32 - network_u32) - 1
          in Some \<lparr>fp_network = network, fp_next = network_u32 + 1, fp_pool_size = max pool_size 1,
                   fp_forward = [], fp_reverse = Map.empty, fp_lru = lru_new ops (max pool_size 1)\<rparr>)"

definition fetch_next :: "'net v4net \<Rightarrow> ('net, 'l) fakeip_pool \<Rightarrow> u32 \<times> ('net, 'l) fakeip_pool" where
  "fetch_next nets p =
     (let network_u32 = v4_network nets (fp_network p);
          broadcast_u32 = v4_broadcast nets (fp_network p);
          n = fp_next p;
          next = (if n \<ge> broadcast_u32 then network_u32 + 1 else n + 1)
      in (n, p\<lparr>fp_next := next\<rparr>))"

definition evict_lru :: "'l fakeip_lru \<Rightarrow> ('net, 'l) fakeip_pool \<Rightarrow> u32 option \<times> ('net, 'l) fakeip_pool" where
  "evict_lru ops p =
     (let (evicted, lru') = lru_pop_lru ops (fp_lru p);
          p = p\<lparr>fp_lru := lru'\<rparr>
      in case evicted of
           None \<Rightarrow> (None, p)
         | Some (domain, _) \<Rightarrow>
             (case map_of (fp_forward p) domain of
                None \<Rightarrow> (None, p)
              | Some ip \<Rightarrow>
                  (Some ip, p\<lparr>fp_forward := without domain (fp_forward p),
                              fp_reverse := (fp_reverse p)(ip := None)\<rparr>)))"

definition claim_next :: "'net v4net \<Rightarrow> 'l fakeip_lru \<Rightarrow> ('net, 'l) fakeip_pool \<Rightarrow> u32 \<times> ('net, 'l) fakeip_pool" where
  "claim_next nets ops p =
     (let network_u32 = v4_network nets (fp_network p);
          broadcast_u32 = v4_broadcast nets (fp_network p);
          (raw, p) = fetch_next nets p;
          ip = (if raw < network_u32 + 1 \<or> raw \<ge> broadcast_u32 then network_u32 + 1 else raw)
      in case fp_reverse p ip of
           None \<Rightarrow> (ip, p)
         | Some old_domain \<Rightarrow>
             (ip, p\<lparr>fp_reverse := (fp_reverse p)(ip := None),
                    fp_forward := without old_domain (fp_forward p),
                    fp_lru := lru_pop ops old_domain (fp_lru p)\<rparr>))"

definition claim_ip :: "'net v4net \<Rightarrow> 'l fakeip_lru \<Rightarrow> ('net, 'l) fakeip_pool \<Rightarrow> u32 \<times> ('net, 'l) fakeip_pool" where
  "claim_ip nets ops p =
     (if length (fp_forward p) \<ge> fp_pool_size p then
        (case evict_lru ops p of
           (Some ip, p) \<Rightarrow> (ip, p)
         | (None, p) \<Rightarrow> claim_next nets ops p)
      else claim_next nets ops p)"

text \<open>The second lookup is the one made again under the allocation lock.\<close>

definition allocate ::
  "'net v4net \<Rightarrow> 'l fakeip_lru \<Rightarrow> string \<Rightarrow> ('net, 'l) fakeip_pool \<Rightarrow> u32 \<times> ('net, 'l) fakeip_pool" where
  "allocate nets ops domain p =
     (case map_of (fp_forward p) domain of
        Some ip \<Rightarrow> (ip, p\<lparr>fp_lru := snd (lru_get ops domain (fp_lru p))\<rparr>)
      | None \<Rightarrow>
          (case map_of (fp_forward p) domain of
             Some ip \<Rightarrow> (ip, p\<lparr>fp_lru := snd (lru_get ops domain (fp_lru p))\<rparr>)
           | None \<Rightarrow>
               let (ip, p) = claim_ip nets ops p in
               (ip, p\<lparr>fp_forward := (domain, ip) # without domain (fp_forward p),
                      fp_reverse := (fp_reverse p)(ip \<mapsto> domain),
                      fp_lru := lru_put ops domain () (fp_lru p)\<rparr>)))"

definition reverse :: "u32 \<Rightarrow> ('net, 'l) fakeip_pool \<Rightarrow> string option" where
  "reverse ip p = fp_reverse p ip"

definition is_fake :: "'net v4net \<Rightarrow> u32 \<Rightarrow> ('net, 'l) fakeip_pool \<Rightarrow> bool" where
  "is_fake nets ip p = v4_contains nets (fp_network p) ip"

section \<open>The module and the dispatcher\<close>

definition resolve_fake ::
  "'net v4net \<Rightarrow> 'l fakeip_lru \<Rightarrow> string \<Rightarrow> ('net, 'l) fakeip_pool option
     \<Rightarrow> u32 option \<times> ('net, 'l) fakeip_pool option" where
  "resolve_fake nets ops domain fakeip =
     (case fakeip of
        None \<Rightarrow> (None, None)
      | Some pool \<Rightarrow> (let (ip, pool) = allocate nets ops domain pool in (Some ip, Some pool)))"

definition reverse_fake :: "u32 \<Rightarrow> ('net, 'l) fakeip_pool option \<Rightarrow> string option" where
  "reverse_fake ip fakeip = (case fakeip of None \<Rightarrow> None | Some pool \<Rightarrow> reverse ip pool)"

definition is_fake_ip :: "'net v4net \<Rightarrow> ip_addr \<Rightarrow> ('net, 'l) fakeip_pool option \<Rightarrow> bool" where
  "is_fake_ip nets ip fakeip =
     (case ip of
        V4 v4 \<Rightarrow> (case fakeip of None \<Rightarrow> False | Some pool \<Rightarrow> is_fake nets v4 pool)
      | V6 _ \<Rightarrow> False)"

text \<open>The outer option of \<open>dns\<close> is the dispatcher's DNS module, the inner one its pool.\<close>

definition restore_fakeip_destination ::
  "'net v4net \<Rightarrow> ('net, 'l) fakeip_pool option option \<Rightarrow> address \<Rightarrow> address" where
  "restore_fakeip_destination nets dns dest =
     (case dns of
        None \<Rightarrow> dest
      | Some fakeip \<Rightarrow>
          (case dest of
             Ipv4 ip p \<Rightarrow>
               if is_fake_ip nets (V4 ip) fakeip then
                 (case reverse_fake ip fakeip of
                    Some domain \<Rightarrow> Domain domain p
                  | None \<Rightarrow> Ipv4 ip p)
               else dest
           | _ \<Rightarrow> dest))"

section \<open>The invariant of the pool\<close>

text \<open>The documented behaviour of an IPv4 range: an interval of addresses.\<close>

definition v4net_interval :: "'net v4net \<Rightarrow> 'net \<Rightarrow> bool" where
  "v4net_interval nets net \<longleftrightarrow>
     (\<forall>ip. v4_contains nets net ip \<longleftrightarrow> v4_network nets net \<le> ip \<and> ip \<le> v4_broadcast nets net)"

locale fakeip_setting = lru_laws ops wf cap
  for ops :: "'l fakeip_lru" and wf :: "'l \<Rightarrow> bool" and cap :: "'l \<Rightarrow> nat" +
  fixes nets :: "'net v4net" and net :: 'net
  assumes room: "unat (v4_network nets net) + 2 \<le> unat (v4_broadcast nets net)"
begin

abbreviation lo :: nat where "lo \<equiv> unat (v4_network nets net)"
abbreviation hi :: nat where "hi \<equiv> unat (v4_broadcast nets net)"

text \<open>The two maps are inverse to each other, and the addresses handed out so far are those below
  the next one.\<close>

definition maps_inv :: "u32 \<Rightarrow> (string \<times> u32) list \<Rightarrow> (u32 \<rightharpoonup> string) \<Rightarrow> bool" where
  "maps_inv nxt fwd rv \<longleftrightarrow>
     distinct (map fst fwd) \<and> unat nxt = lo + 1 + length fwd \<and>
     (\<forall>d ip. map_of fwd d = Some ip \<longleftrightarrow> rv ip = Some d) \<and>
     (\<forall>d ip. map_of fwd d = Some ip \<longrightarrow> lo < unat ip \<and> unat ip < unat nxt)"

definition pool_inv :: "('net, 'l) fakeip_pool \<Rightarrow> bool" where
  "pool_inv p \<longleftrightarrow>
     fp_network p = net \<and> fp_pool_size p = hi - lo - 1 \<and> wf (fp_lru p) \<and> cap (fp_lru p) = fp_pool_size p \<and>
     keys (fp_lru p) = fst ` set (fp_forward p) \<and> length (fp_forward p) \<le> fp_pool_size p \<and>
     maps_inv (fp_next p) (fp_forward p) (fp_reverse p)"

lemma length_lru: "pool_inv p \<Longrightarrow> length (lru_iter ops (fp_lru p)) = length (fp_forward p)"
  unfolding pool_inv_def maps_inv_def by (metis distinct_card length_map list.set_map wf_distinct)

lemma pool_inv_get:
  "pool_inv p \<Longrightarrow> pool_inv (p\<lparr>fp_lru := snd (lru_get ops d (fp_lru p))\<rparr>)"
  using get_entries [of "fp_lru p" d] keys_get [of "fp_lru p" d] unfolding pool_inv_def by simp

lemma length_without_distinct:
  assumes "distinct (map fst xs)" "map_of xs k = Some v"
  shows "Suc (length (without k xs)) = length xs"
  using assms
proof (induction xs)
  case (Cons x xs)
  show ?case
  proof (cases "fst x = k")
    case True
    then have "without k xs = xs" using Cons.prems(1) by (intro without_absent) auto
    then show ?thesis using True by (simp add: without_def)
  next
    case False
    then have "Suc (length (without k xs)) = length xs" using Cons by (auto simp: split: if_splits)
    then show ?thesis using False by (simp add: without_def)
  qed
qed simp

lemma inverse_maps_replace:
  assumes "\<And>d ip. f d = Some ip \<longleftrightarrow> g ip = Some d" "f d0 = Some ip0" "f d = None"
  shows "(f(d0 := None, d \<mapsto> ip0)) d' = Some ip' \<longleftrightarrow> (g(ip0 \<mapsto> d)) ip' = Some d'"
proof (cases "d' = d")
  case True
  have "g ip' \<noteq> Some d" using assms(1,3) by (metis option.distinct(1))
  then show ?thesis using True by auto
next
  case False
  then show ?thesis using assms(1,2) by (cases "ip' = ip0") (auto, metis option.inject)
qed

lemma maps_extend:
  assumes "maps_inv nxt fwd rv" "map_of fwd d = None" "lo + 1 + length fwd < hi"
  shows "maps_inv (nxt + 1) ((d, nxt) # without d fwd) (rv(nxt \<mapsto> d))"
proof -
  have d: "without d fwd = fwd" using assms(2) by (simp add: without_absent map_of_eq_None_iff)
  have "unat nxt < hi" using assms(1,3) by (simp add: maps_inv_def)
  then have n: "unat (nxt + 1) = unat nxt + 1"
    using unsigned_less [where ?'a = nat, of "v4_broadcast nets net"] by (simp add: unat_word_ariths)
  have fresh: "map_of fwd d' \<noteq> Some nxt" for d' using assms(1) unfolding maps_inv_def by blast
  have bij: "map_of fwd d' = Some ip' \<longleftrightarrow> rv ip' = Some d'" for d' ip'
    using assms(1) unfolding maps_inv_def by blast
  have rng: "lo < unat ip' \<and> unat ip' < unat nxt + 1" if "(map_of ((d, nxt) # fwd)) d' = Some ip'" for d' ip'
    using that assms(1) unfolding maps_inv_def by (auto split: if_splits intro: less_SucI)
  show ?thesis
    unfolding d maps_inv_def n
  proof (intro conjI allI impI)
    show "distinct (map fst ((d, nxt) # fwd))"
      using assms(1,2) by (simp add: maps_inv_def map_of_eq_None_iff)
    show "unat nxt + 1 = lo + 1 + length ((d, nxt) # fwd)" using assms(1) by (simp add: maps_inv_def)
    show "map_of ((d, nxt) # fwd) d' = Some ip' \<longleftrightarrow> (rv(nxt \<mapsto> d)) ip' = Some d'" for d' ip'
    proof -
      have "rv ip' \<noteq> Some d" using bij assms(2) by (metis option.distinct(1))
      then show ?thesis using bij fresh by auto
    qed
  qed (use rng in blast)+
qed

lemma maps_replace:
  assumes "maps_inv nxt fwd rv" "map_of fwd d0 = Some ip" "map_of fwd d = None"
  shows "maps_inv nxt ((d, ip) # without d (without d0 fwd)) ((rv(ip := None))(ip \<mapsto> d))"
proof -
  have "d \<notin> fst ` set (without d0 fwd)" using assms(3) by (simp add: keys_without map_of_eq_None_iff)
  then have d: "without d (without d0 fwd) = without d0 fwd" by (rule without_absent)
  have dist: "distinct (map fst fwd)" using assms(1) by (simp add: maps_inv_def)
  have len: "Suc (length (without d0 fwd)) = length fwd"
    by (rule length_without_distinct [OF dist assms(2)])
  have bij: "map_of fwd d' = Some ip' \<longleftrightarrow> rv ip' = Some d'" for d' ip'
    using assms(1) unfolding maps_inv_def by blast
  have fwd: "map_of ((d, ip) # without d0 fwd) = (map_of fwd)(d0 := None, d \<mapsto> ip)"
    by (simp add: map_of_without)
  have rng: "lo < unat ip' \<and> unat ip' < unat nxt"
    if "((map_of fwd)(d0 := None, d \<mapsto> ip)) d' = Some ip'" for d' ip'
    using that assms(1,2) unfolding maps_inv_def by (auto split: if_splits)
  show ?thesis
    unfolding d maps_inv_def fwd
  proof (intro conjI allI impI)
    show "distinct (map fst ((d, ip) # without d0 fwd))"
      using distinct_without [OF dist, of d0] \<open>d \<notin> _\<close> by simp
    show "unat nxt = lo + 1 + length ((d, ip) # without d0 fwd)"
      using assms(1) len by (simp add: maps_inv_def)
    show "((map_of fwd)(d0 := None, d \<mapsto> ip)) d' = Some ip' \<longleftrightarrow> (rv(ip := None, ip \<mapsto> d)) ip' = Some d'" for d' ip'
      using inverse_maps_replace [OF bij assms(2,3)] by simp
  qed (use rng in blast)+
qed

text \<open>A new domain gets the next address while there is one, and then the address of the least
  recently used domain.\<close>

lemma pop_lru_key:
  assumes "pool_inv p" "fp_forward p \<noteq> []"
  shows "\<exists>d0 l'. lru_pop_lru ops (fp_lru p) = (Some (d0, ()), l') \<and> wf l' \<and> cap l' = cap (fp_lru p) \<and>
     d0 \<in> keys (fp_lru p) \<and> keys l' = keys (fp_lru p) - {d0} \<and>
     length (lru_iter ops l') < length (lru_iter ops (fp_lru p))"
proof -
  have l: "wf (fp_lru p)" "lru_iter ops (fp_lru p) \<noteq> []"
    using assms length_lru [OF assms(1)] by (auto simp: pool_inv_def)
  then show ?thesis
    using pop_lru_keys [OF l] pop_lru [OF l(1)]
    by (intro exI [of _ "fst (the (fst (lru_pop_lru ops (fp_lru p))))"] exI [of _ "snd (lru_pop_lru ops (fp_lru p))"])
      (auto simp: prod_eq_iff)
qed

definition allocated :: "string \<Rightarrow> ('net, 'l) fakeip_pool \<Rightarrow> u32 \<times> ('net, 'l) fakeip_pool \<Rightarrow> bool" where
  "allocated d p r \<longleftrightarrow>
     pool_inv (snd r) \<and> map_of (fp_forward (snd r)) d = Some (fst r) \<and>
     (length (fp_forward p) < fp_pool_size p \<longrightarrow>
        (\<forall>d' ip'. map_of (fp_forward p) d' = Some ip' \<longrightarrow> map_of (fp_forward (snd r)) d' = Some ip'))"

lemma allocate_evicting:
  assumes inv: "pool_inv p" and d: "map_of (fp_forward p) d = None"
    and full: "\<not> length (fp_forward p) < fp_pool_size p"
  shows "allocated d p (allocate nets ops d p)"
proof -
  have "fp_forward p \<noteq> []" using full inv room by (auto simp: pool_inv_def)
  then obtain d0 l' where l': "lru_pop_lru ops (fp_lru p) = (Some (d0, ()), l')" "wf l'" "cap l' = cap (fp_lru p)"
    "d0 \<in> keys (fp_lru p)" "keys l' = keys (fp_lru p) - {d0}" "length (lru_iter ops l') < length (lru_iter ops (fp_lru p))"
    using pop_lru_key [OF inv] by blast
  have ks: "keys (fp_lru p) = fst ` set (fp_forward p)" using inv by (simp add: pool_inv_def)
  obtain ip where ip: "map_of (fp_forward p) d0 = Some ip"
    using l'(4) ks by (cases "map_of (fp_forward p) d0") (auto simp: map_of_eq_None_iff)
  have dk: "d \<notin> fst ` set (fp_forward p)" using d by (simp add: map_of_eq_None_iff)
  let ?fwd = "(d, ip) # without d (without d0 (fp_forward p))"
  have a: "allocate nets ops d p = (ip, p\<lparr>fp_lru := lru_put ops d () l', fp_forward := ?fwd,
      fp_reverse := (fp_reverse p)(ip := None, ip \<mapsto> d)\<rparr>)"
    using d full l'(1) ip by (simp add: allocate_def claim_ip_def evict_lru_def)
  have m: "maps_inv (fp_next p) ?fwd ((fp_reverse p)(ip := None, ip \<mapsto> d))"
    using maps_replace [OF _ ip d] inv by (simp add: pool_inv_def)
  have len: "length ?fwd = length (fp_forward p)"
    using m inv by (simp add: maps_inv_def pool_inv_def)
  have room': "length (lru_iter ops l') < cap l'"
    using l'(3,6) wf_bound [of "fp_lru p"] inv by (simp add: pool_inv_def)
  have kl: "keys (lru_put ops d () l') = fst ` set ?fwd"
    using keys_put [OF l'(2) _ room', of d "()"] dk ks l'(5) by (auto simp: keys_without)
  show ?thesis
    using m len kl put [OF l'(2), of d "()"] inv l'(3) full
    unfolding allocated_def pool_inv_def a by simp
qed

lemma allocate_fresh:
  assumes inv: "pool_inv p" and d: "map_of (fp_forward p) d = None"
    and free: "length (fp_forward p) < fp_pool_size p"
  shows "allocated d p (allocate nets ops d p)"
proof -
  let ?n = "fp_next p" and ?v = "v4_network nets net" and ?b = "v4_broadcast nets net"
  have net: "fp_network p = net" and nxt: "unat ?n = lo + 1 + length (fp_forward p)"
    and bnd: "unat ?n < hi" using inv free by (auto simp: pool_inv_def maps_inv_def)
  have v1: "unat (?v + 1) = lo + 1"
    using room unsigned_less [where ?'a = nat, of ?b] by (simp add: unat_word_ariths)
  have cmp: "\<not> ?n \<ge> ?b" "\<not> ?n < ?v + 1"
    using nxt bnd v1 by (simp_all add: word_le_nat_alt word_less_nat_alt)
  have unused: "fp_reverse p ?n = None"
    using inv unfolding pool_inv_def maps_inv_def by (metis less_irrefl not_None_eq)
  have dk: "d \<notin> fst ` set (fp_forward p)" using d by (simp add: map_of_eq_None_iff)
  let ?fwd = "(d, ?n) # without d (fp_forward p)"
  have a: "allocate nets ops d p = (?n, p\<lparr>fp_next := ?n + 1, fp_forward := ?fwd,
      fp_reverse := (fp_reverse p)(?n \<mapsto> d), fp_lru := lru_put ops d () (fp_lru p)\<rparr>)"
    using d free cmp unused by (simp add: allocate_def claim_ip_def claim_next_def fetch_next_def net Let_def)
  have m: "maps_inv (?n + 1) ?fwd ((fp_reverse p)(?n \<mapsto> d))"
    using maps_extend [OF _ d] inv nxt bnd by (simp add: pool_inv_def)
  have l: "wf (fp_lru p)" "d \<notin> keys (fp_lru p)" "length (lru_iter ops (fp_lru p)) < cap (fp_lru p)"
    using inv dk free length_lru [OF inv] by (simp_all add: pool_inv_def)
  have fwd: "without d (fp_forward p) = fp_forward p" using dk by (rule without_absent)
  have kl: "keys (lru_put ops d () (fp_lru p)) = fst ` set ?fwd"
    using keys_put [OF l, of "()"] inv by (simp add: pool_inv_def fwd)
  show ?thesis
    using m kl put [OF l(1), of d "()"] inv free d
    unfolding allocated_def pool_inv_def a by (auto simp: fwd)
qed

lemma allocate_known:
  assumes "pool_inv p" "map_of (fp_forward p) d = Some ip"
  shows "allocated d p (allocate nets ops d p)"
  using pool_inv_get [OF assms(1), of d] assms(2) unfolding allocated_def allocate_def by simp

lemma allocate_allocated: "pool_inv p \<Longrightarrow> allocated d p (allocate nets ops d p)"
  using allocate_known allocate_fresh allocate_evicting by (cases "map_of (fp_forward p) d") blast+

end

section \<open>Pools in use\<close>

inductive fakeip_reach ::
  "'net v4net \<Rightarrow> 'l fakeip_lru \<Rightarrow> ('net, 'l) fakeip_pool \<Rightarrow> ('net, 'l) fakeip_pool \<Rightarrow> bool" for nets ops p0 where
  start: "fakeip_reach nets ops p0 p0"
| allocate: "fakeip_reach nets ops p0 p \<Longrightarrow> fakeip_reach nets ops p0 (snd (allocate nets ops d p))"

context fakeip_setting
begin

lemma new_pool_inv:
  assumes "fakeip_pool_new nets ops parse cidr = Some p" "parse cidr = Some net"
  shows "pool_inv p"
proof -
  let ?v = "v4_network nets net" and ?b = "v4_broadcast nets net"
  have le: "?v \<le> ?b" using room by (simp add: word_le_nat_alt)
  have s: "unat (?b - ?v) = hi - lo" using unat_sub [OF le] .
  have v1: "unat (?v + 1) = lo + 1"
    using room unsigned_less [where ?'a = nat, of ?b] by (simp add: unat_word_ariths)
  have "max (hi - lo - 1) 1 = hi - lo - 1" "0 < hi - lo - 1" using room by auto
  then show ?thesis
    using assms s v1 new [of "hi - lo - 1"]
    by (auto simp: fakeip_pool_new_def Let_def pool_inv_def maps_inv_def)
qed

lemma reach_inv: "fakeip_reach nets ops p0 p \<Longrightarrow> pool_inv p0 \<Longrightarrow> pool_inv p"
proof (induction rule: fakeip_reach.induct)
  case (allocate p d)
  then show ?case using allocate_allocated [of p d] by (simp add: allocated_def)
qed simp

lemma pool_inv_restores:
  assumes "pool_inv p" "v4net_interval nets net" "map_of (fp_forward p) d = Some ip"
  shows "restore_fakeip_destination nets (Some (Some p)) (Ipv4 ip pt) = Domain d pt"
proof -
  have p: "fp_network p = net" "fp_pool_size p = hi - lo - 1" "length (fp_forward p) \<le> fp_pool_size p"
    "maps_inv (fp_next p) (fp_forward p) (fp_reverse p)"
    using assms(1) unfolding pool_inv_def by blast+
  have "fp_reverse p ip = Some d" "lo < unat ip" "unat ip < unat (fp_next p)"
    "unat (fp_next p) = lo + 1 + length (fp_forward p)"
    using p(4) assms(3) unfolding maps_inv_def by blast+
  moreover from this p(2,3) room have "unat ip < hi" by linarith
  moreover note p(1)
  ultimately show ?thesis using assms(2)
    by (simp add: restore_fakeip_destination_def is_fake_ip_def is_fake_def v4net_interval_def reverse_fake_def
        reverse_def word_le_nat_alt)
qed

end

section \<open>Correctness\<close>

text \<open>C25: in a pool of a range with at least two host addresses, after any sequence of allocations, the
  address given for a domain is one the dispatcher turns back into that domain; and while the pool is
  not full an allocation leaves every other domain its address.\<close>

theorem fakeip_destination_restored:
  assumes "lru_laws ops lru_ok cap"
    and "parse cidr = Some net" "v4net_interval nets net"
    and "unat (v4_network nets net) + 2 \<le> unat (v4_broadcast nets net)"
    and "fakeip_pool_new nets ops parse cidr = Some p0" "fakeip_reach nets ops p0 p"
    and "allocate nets ops d p = (ip, p')"
  shows "restore_fakeip_destination nets (Some (Some p')) (Ipv4 ip pt) = Domain d pt \<and>
     (length (fp_forward p) < fp_pool_size p \<longrightarrow>
       (\<forall>d' ip'. map_of (fp_forward p) d' = Some ip' \<longrightarrow>
          restore_fakeip_destination nets (Some (Some p')) (Ipv4 ip' pt) = Domain d' pt))"
proof -
  have set: "fakeip_setting ops lru_ok cap nets net"
    using assms(1,4) by (simp add: fakeip_setting_def fakeip_setting_axioms_def)
  have "fakeip_setting.pool_inv ops lru_ok cap nets net p"
    using fakeip_setting.reach_inv [OF set assms(6)] fakeip_setting.new_pool_inv [OF set assms(5,2)] .
  from fakeip_setting.allocate_allocated [OF set this, of d] show ?thesis
    using fakeip_setting.pool_inv_restores [OF set _ assms(3)] assms(7)
    unfolding fakeip_setting.allocated_def [OF set] by simp
qed

definition demo_nets :: "(u32 \<times> u32) v4net" where
  "demo_nets = \<lparr>v4_network = fst, v4_broadcast = snd, v4_contains = (\<lambda>(a, b) ip. a \<le> ip \<and> ip \<le> b)\<rparr>"

lemma demo_nets_interval: "v4net_interval demo_nets net"
  by (auto simp: v4net_interval_def demo_nets_def)

interpretation demo_fakeip: fakeip_setting list_lru list_lru_wf fst demo_nets "(0xC6120000, 0xC613FFFF)"
  by unfold_locales (simp add: demo_nets_def)

theorem fakeip_destination_restored_witness:
  "\<exists>p0 p'. fakeip_pool_new demo_nets list_lru (\<lambda>_. Some (0xC6120000, 0xC613FFFF)) ''198.18.0.0/15'' = Some p0 \<and>
     allocate demo_nets list_lru ''a.org'' p0 = (0xC6120001, p') \<and>
     restore_fakeip_destination demo_nets (Some (Some p')) (Ipv4 0xC6120001 443) = Domain ''a.org'' 443"
proof -
  let ?parse = "\<lambda>_ :: string. Some (0xC6120000 :: u32, 0xC613FFFF :: u32)"
  obtain p0 where p0: "fakeip_pool_new demo_nets list_lru ?parse ''198.18.0.0/15'' = Some p0"
    by (simp add: fakeip_pool_new_def Let_def)
  then have "fst (allocate demo_nets list_lru ''a.org'' p0) = 0xC6120001"
    by (auto simp: fakeip_pool_new_def allocate_def claim_ip_def claim_next_def fetch_next_def demo_nets_def Let_def)
  then obtain p' where p': "allocate demo_nets list_lru ''a.org'' p0 = (0xC6120001, p')"
    by (metis prod.collapse)
  have room: "unat (v4_network demo_nets (0xC6120000, 0xC613FFFF)) + 2 \<le> unat (v4_broadcast demo_nets (0xC6120000, 0xC613FFFF))"
    by (rule demo_fakeip.room)
  show ?thesis
    using fakeip_destination_restored [OF list_lru.lru_laws_axioms refl demo_nets_interval room p0 fakeip_reach.start p', of 443]
      p0 p' by blast
qed

text \<open>With a range of a single address the pool hands out the address after it, which lies outside
  the range; the dispatcher does not recognise it and the connection goes to the fake address itself.\<close>

lemma fakeip_single_address_not_restored:
  assumes "parse cidr = Some net" "v4net_interval nets net"
    and "v4_network nets net = v4_broadcast nets net" "v4_network nets net \<noteq> - 1"
    and "fakeip_pool_new nets ops parse cidr = Some p0" "allocate nets ops d p0 = (ip, p')"
  shows "ip = v4_broadcast nets net + 1 \<and>
     restore_fakeip_destination nets (Some (Some p')) (Ipv4 ip pt) = Ipv4 ip pt"
proof -
  let ?b = "v4_broadcast nets net"
  have "1 + ?b \<noteq> 0" using assms(3,4) by (metis minus_unique)
  then have b: "\<not> ?b + 1 \<le> ?b" using unatSuc [of ?b] by (simp add: word_le_nat_alt add.commute)
  have "ip = ?b + 1" "fp_network p' = net"
    using assms(1,3,5,6)
    by (auto simp: fakeip_pool_new_def allocate_def claim_ip_def claim_next_def fetch_next_def Let_def)
  then show ?thesis using assms(2) b
    by (simp add: restore_fakeip_destination_def is_fake_ip_def is_fake_def v4net_interval_def)
qed

end
