(* ===== verification/Packet_Up.thy ===== *)
theory Packet_Up
  imports BW_Prelude "HOL-Library.Product_Lexorder" "HOL-Library.List_Lexorder"
begin

text \<open>
  The upload half of the SplitHTTP packet-up mode: the reorder queue
  (crates/blackwire-transport/src/splithttp_packet_up.rs), the table of sessions and the HTTP/1 accept
  path (splithttp.rs).

  The binary heap of (sequence number, payload) pairs is the sorted list of its elements: popping
  takes the first, pushing inserts in order, and equal elements are indistinguishable.  Sequence
  numbers and byte counts are 64-bit words.  Queues are shared objects, so the session table maps a
  session to the index of its queue in a store.
\<close>

section \<open>The reorder queue\<close>

datatype up_error = QueueClosed | QueueExceeded | ReorderExceeded | UnexpectedEof

record queue_state =
  qs_next_seq :: u64
  qs_heap :: "(u64 \<times> bytes) list"
  qs_pending :: bytes
  qs_closed :: bool
  qs_max_buffered :: nat
  qs_buffered_bytes :: u64
  qs_max_buffered_bytes :: u64

definition DEFAULT_MAX_BUFFERED :: nat where "DEFAULT_MAX_BUFFERED = 64"
definition DEFAULT_MAX_BUFFERED_BYTES :: u64 where "DEFAULT_MAX_BUFFERED_BYTES = 8 * 1024 * 1024"

definition queue_new :: "nat \<Rightarrow> queue_state" where
  "queue_new max_buffered =
     \<lparr>qs_next_seq = 0, qs_heap = [], qs_pending = [], qs_closed = False,
      qs_max_buffered = (if max_buffered = 0 then DEFAULT_MAX_BUFFERED else max_buffered),
      qs_buffered_bytes = 0, qs_max_buffered_bytes = DEFAULT_MAX_BUFFERED_BYTES\<rparr>"

function fill_pending :: "queue_state \<Rightarrow> (up_error + unit) \<times> queue_state" where
  "fill_pending st =
     (case qs_heap st of
        (seq, payload) # rest \<Rightarrow>
          let st' = st\<lparr>qs_heap := rest\<rparr> in
          if seq = qs_next_seq st then
            fill_pending (st'\<lparr>qs_pending := qs_pending st @ payload,
                              qs_next_seq := saturating_add (qs_next_seq st) 1\<rparr>)
          else if seq > qs_next_seq st then
            if length rest \<ge> qs_max_buffered st then (Inl ReorderExceeded, st')
            else (Inr (), st'\<lparr>qs_heap := insort (seq, payload) rest\<rparr>)
          else
            fill_pending (st'\<lparr>qs_buffered_bytes :=
              saturating_sub (qs_buffered_bytes st) (of_nat (length payload))\<rparr>)
      | [] \<Rightarrow> if qs_closed st \<and> qs_pending st = [] then (Inl UnexpectedEof, st) else (Inr (), st))"
  by pat_completeness auto
termination
  by (relation "measure (\<lambda>st. length (qs_heap st))") auto

declare fill_pending.simps [simp del]

definition queue_push :: "u64 \<Rightarrow> bytes \<Rightarrow> queue_state \<Rightarrow> (up_error + unit) \<times> queue_state" where
  "queue_push seq payload st =
     (if qs_closed st then (Inl QueueClosed, st)
      else
        let payload_len = of_nat (length payload) in
        if length (qs_heap st) \<ge> qs_max_buffered st \<or>
           saturating_add (qs_buffered_bytes st) payload_len > qs_max_buffered_bytes st
        then (Inl QueueExceeded, st)
        else (Inr (), st\<lparr>qs_buffered_bytes := saturating_add (qs_buffered_bytes st) payload_len,
                        qs_heap := insort (seq, payload) (qs_heap st)\<rparr>))"

text \<open>One pass of the reader with the lock held; \<open>Pending\<close> is the wait for the next wake-up, after
  which the pass is repeated.  \<open>remaining\<close> is the free space of the caller's buffer.\<close>

datatype 'a poll = Ready 'a | ReadyErr up_error | Pending

definition queue_poll_read :: "nat \<Rightarrow> queue_state \<Rightarrow> bytes poll \<times> queue_state" where
  "queue_poll_read remaining st =
     (if remaining = 0 then (Ready [], st)
      else
        case fill_pending st of
          (Inl UnexpectedEof, st) \<Rightarrow> (Ready [], st)
        | (Inl e, st) \<Rightarrow> (ReadyErr e, st)
        | (Inr _, st) \<Rightarrow>
            if qs_pending st \<noteq> [] then
              let n = min remaining (length (qs_pending st)) in
              (Ready (take n (qs_pending st)),
               st\<lparr>qs_pending := drop n (qs_pending st),
                  qs_buffered_bytes := saturating_sub (qs_buffered_bytes st) (of_nat n)\<rparr>)
            else if qs_closed st then (Ready [], st)
            else (Pending, st))"

section \<open>Paths\<close>

definition normalized_path_prefix :: "string \<Rightarrow> string" where
  "normalized_path_prefix path =
     (let path = hd (split_on CHR ''?'' path);
          p = (if prefix ''/'' path then path else CHR ''/'' # path)
      in if suffix ''/'' p then p else p @ ''/'')"

fun apply_query :: "string list \<Rightarrow> string \<times> string \<Rightarrow> string \<times> string" where
  "apply_query [] ss = ss"
| "apply_query (pair # pairs) (session, seq) =
     (case split_once CHR ''='' pair of
        None \<Rightarrow> apply_query pairs (session, seq)
      | Some (k, v) \<Rightarrow>
          let session = (if k = ''x_session'' \<and> session = [] then v else session);
              seq = (if k = ''x_seq'' \<and> seq = [] then v else seq)
          in apply_query pairs (session, seq))"

definition extract_session_seq :: "string \<Rightarrow> string \<Rightarrow> string \<times> string" where
  "extract_session_seq path_and_query base_path =
     (let (path_only, query) = (case split_once CHR ''?'' path_and_query of
              Some (p, q) \<Rightarrow> (p, q) | None \<Rightarrow> (path_and_query, []));
          pre = normalized_path_prefix base_path;
          rest = trim_start_matches CHR ''/'' (case strip_prefix (trim_end_matches CHR ''/'' pre) path_only of
              Some r \<Rightarrow> r | None \<Rightarrow> path_only);
          parts = filter (\<lambda>s. s \<noteq> []) (split_on CHR ''/'' rest);
          session = (case parts of [] \<Rightarrow> [] | p # _ \<Rightarrow> p);
          seq = (case parts of _ # q # _ \<Rightarrow> q | _ \<Rightarrow> [])
      in apply_query (filter (\<lambda>s. s \<noteq> []) (split_on CHR ''&'' query)) (session, seq))"

section \<open>Sessions and the HTTP/1 accept path\<close>

definition quoted :: "string \<Rightarrow> string" where
  "quoted s = [CHR 0x27] @ s @ [CHR 0x27]"

definition MAX_PACKET_UP_TOTAL_SESSIONS :: nat where "MAX_PACKET_UP_TOTAL_SESSIONS = 4096"

record upload_queue =
  uq_state :: queue_state
  uq_reader_taken :: bool

record packet_up_world =
  pw_queues :: "upload_queue list"
  pw_sessions :: "(string \<times> nat) list"

definition upload_queue_new :: "nat \<Rightarrow> upload_queue" where
  "upload_queue_new max_buffered = \<lparr>uq_state = queue_new max_buffered, uq_reader_taken = False\<rparr>"

definition upsert_packet_up_session :: "string \<Rightarrow> packet_up_world \<Rightarrow> nat option \<times> packet_up_world" where
  "upsert_packet_up_session session_id w =
     (case map_of (pw_sessions w) session_id of
        Some q \<Rightarrow> (Some q, w)
      | None \<Rightarrow>
          if length (pw_sessions w) \<ge> MAX_PACKET_UP_TOTAL_SESSIONS then (None, w)
          else (Some (length (pw_queues w)),
                w\<lparr>pw_queues := pw_queues w @ [upload_queue_new 64],
                  pw_sessions := (session_id, length (pw_queues w)) # pw_sessions w\<rparr>))"

definition remove_packet_up_session :: "string \<Rightarrow> packet_up_world \<Rightarrow> packet_up_world" where
  "remove_packet_up_session session_id w =
     w\<lparr>pw_sessions := filter (\<lambda>(s, _). s \<noteq> session_id) (pw_sessions w)\<rparr>"

definition take_reader :: "nat \<Rightarrow> packet_up_world \<Rightarrow> nat res \<times> packet_up_world" where
  "take_reader q w =
     (if uq_reader_taken (pw_queues w ! q) then (Panic, w)
      else (Ok q, w\<lparr>pw_queues := (pw_queues w)[q := (pw_queues w ! q)\<lparr>uq_reader_taken := True\<rparr>]\<rparr>))"

definition push_session :: "nat \<Rightarrow> u64 \<Rightarrow> bytes \<Rightarrow> packet_up_world \<Rightarrow> (up_error + unit) \<times> packet_up_world" where
  "push_session q seq body w =
     (let (r, st) = queue_push seq body (uq_state (pw_queues w ! q)) in
      (r, w\<lparr>pw_queues := (pw_queues w)[q := (pw_queues w ! q)\<lparr>uq_state := st\<rparr>]\<rparr>))"

datatype accept_result = Preflight | UploadOnly | Tunnel nat string

fun up_error_message :: "up_error \<Rightarrow> string" where
  "up_error_message QueueClosed = ''queue closed''"
| "up_error_message QueueExceeded = ''packet-up upload queue exceeded''"
| "up_error_message ReorderExceeded = ''packet-up reorder buffer exceeded''"
| "up_error_message UnexpectedEof = ''unexpected end of file''"

definition request_path :: "string \<Rightarrow> string" where
  "request_path request =
     (case first_line request of
        None \<Rightarrow> ''/''
      | Some l \<Rightarrow> (case split_whitespace l of _ # p # _ \<Rightarrow> p | _ \<Rightarrow> ''/''))"

text \<open>\<open>body\<close> is the result of reading the request body, \<open>written\<close> that of writing and flushing the
  response.\<close>

definition packet_up_accept ::
  "bytes res \<Rightarrow> unit res \<Rightarrow> string option \<Rightarrow> string \<Rightarrow> string \<Rightarrow> packet_up_world
     \<Rightarrow> accept_result res \<times> packet_up_world" where
  "packet_up_accept body written expected_path meth request w =
     (let base = (case expected_path of Some p \<Rightarrow> p | None \<Rightarrow> ''/'');
          path_and_query = request_path request;
          pre = normalized_path_prefix base
      in
      if \<not> prefix (trim_end_matches CHR ''/'' pre) path_and_query then
        (Err (Protocol (''SplitHTTP path mismatch: got '' @ quoted path_and_query @ '', want prefix '' @ quoted pre)), w)
      else
        let (session, seq) = extract_session_seq path_and_query base in
        if eq_ignore_ascii_case meth ''OPTIONS'' then
          (and_then written (\<lambda>_. Ok Preflight), w)
        else if eq_ignore_ascii_case meth ''POST'' then
          if session = [] then (Err (Protocol ''packet-up POST requires session id in path''), w)
          else (case parse_u64 seq of
              None \<Rightarrow> (Err (Protocol (''packet-up invalid seq '' @ quoted seq)), w)
            | Some seq_num \<Rightarrow>
                (case body of
                   Panic \<Rightarrow> (Panic, w)
                 | Err e \<Rightarrow> (Err e, w)
                 | Ok payload \<Rightarrow>
                     (case upsert_packet_up_session session w of
                        (None, w) \<Rightarrow> (Err (Protocol ''packet-up session limit reached''), w)
                      | (Some q, w) \<Rightarrow>
                          (case push_session q seq_num payload w of
                             (Inl e, w) \<Rightarrow> (Err (Protocol (''packet-up push: '' @ up_error_message e)), w)
                           | (Inr _, w) \<Rightarrow> (and_then written (\<lambda>_. Ok UploadOnly), w)))))
        else if eq_ignore_ascii_case meth ''GET'' then
          if session = [] then (Err (Protocol ''packet-up GET requires session id in path''), w)
          else (case upsert_packet_up_session session w of
              (None, w) \<Rightarrow> (Err (Protocol ''packet-up session limit reached''), w)
            | (Some q, w) \<Rightarrow>
                (case written of
                   Panic \<Rightarrow> (Panic, w)
                 | Err e \<Rightarrow> (Err e, w)
                 | Ok _ \<Rightarrow>
                     (case take_reader q w of
                        (Ok q, w) \<Rightarrow> (Ok (Tunnel q session), w)
                      | (Err e, w) \<Rightarrow> (Err e, w)
                      | (Panic, w) \<Rightarrow> (Panic, w))))
        else (Err (Protocol (''SplitHTTP packet-up: unsupported method '' @ quoted meth)), w))"

text \<open>Dropping the download connection of a session.\<close>

definition drop_packet_up_conn :: "string \<Rightarrow> packet_up_world \<Rightarrow> packet_up_world" where
  "drop_packet_up_conn session_id w = remove_packet_up_session session_id w"

section \<open>Facts about the queue\<close>

lemma unat_max_u64: "unat (-1 :: u64) = 2 ^ 64 - 1"
  by (simp add: unsigned_minus_1_eq_mask mask_eq_exp_minus_1)

lemma saturating_add_max [simp]: "saturating_add (-1 :: u64) 1 = -1"
  by (simp add: saturating_add_def unat_max_u64)

lemma saturating_add_u64:
  "unat (saturating_add (n :: u64) 1) = (if n = -1 then unat n else unat n + 1)"
proof (cases "n = -1")
  case True
  then show ?thesis by simp
next
  case False
  then have "1 + n \<noteq> 0" by (metis minus_unique)
  then have "unat (n + 1) = unat n + 1" using unatSuc [of n] by (simp add: add.commute)
  moreover from this have "unat n + 1 < 2 ^ 64" using unsigned_less [where ?'a = nat, of "n + 1"] by simp
  ultimately show ?thesis using False by (simp add: saturating_add_def)
qed

text \<open>The order of delivery: \<open>ps\<close> holds one accepted payload for each of the first sequence numbers
  (the last number stands for all later ones once the counter is saturated).\<close>

definition delivers :: "(u64 \<times> bytes) set \<Rightarrow> u64 \<Rightarrow> bytes \<Rightarrow> bool" where
  "delivers acc nxt bs \<longleftrightarrow>
     (\<exists>ps. bs = concat ps \<and> (nxt = -1 \<or> length ps = unat nxt) \<and> unat nxt \<le> length ps \<and>
        (\<forall>i < length ps. \<exists>s. unat s = min i (2 ^ 64 - 1) \<and> (s, ps ! i) \<in> acc))"

lemma delivers_start: "delivers acc 0 []"
  by (auto simp: delivers_def intro: exI [of _ "[]"])

lemma delivers_mono: "delivers acc nxt bs \<Longrightarrow> acc \<subseteq> acc' \<Longrightarrow> delivers acc' nxt bs"
  unfolding delivers_def by blast

lemma unat_le_max: "unat (n :: u64) \<le> 2 ^ 64 - 1"
  using unsigned_less [where ?'a = nat, of n] by simp

lemma delivers_next:
  assumes "delivers acc nxt bs" "(nxt, p) \<in> acc"
  shows "delivers acc (saturating_add nxt 1) (bs @ p)"
proof -
  obtain ps where ps: "bs = concat ps" "nxt = -1 \<or> length ps = unat nxt" "unat nxt \<le> length ps"
    "\<And>i. i < length ps \<Longrightarrow> \<exists>s. unat s = min i (2 ^ 64 - 1) \<and> (s, ps ! i) \<in> acc"
    using assms(1) unfolding delivers_def by blast
  have new: "unat nxt = min (length ps) (2 ^ 64 - 1)"
    using ps(2,3) unat_max_u64 unat_le_max [of nxt] by (cases "nxt = -1") auto
  have "\<exists>s. unat s = min i (2 ^ 64 - 1) \<and> (s, (ps @ [p]) ! i) \<in> acc" if "i < length (ps @ [p])" for i
    using ps(4) [of i] that new assms(2) by (cases "i < length ps") (auto simp: nth_append less_Suc_eq)
  moreover have "saturating_add nxt 1 = -1 \<or> length (ps @ [p]) = unat (saturating_add nxt 1)"
    using ps(2) saturating_add_u64 [of nxt] by (cases "nxt = -1") auto
  moreover have "unat (saturating_add nxt 1) \<le> length (ps @ [p])"
    using ps(3) saturating_add_u64 [of nxt] by auto
  ultimately show ?thesis unfolding delivers_def using ps(1) by (intro exI [of _ "ps @ [p]"]) simp
qed

text \<open>What holds of a queue between operations, for the packets \<open>acc\<close> accepted and the bytes \<open>out\<close>
  delivered so far.\<close>

definition queue_inv :: "(u64 \<times> bytes) set \<Rightarrow> bytes \<Rightarrow> queue_state \<Rightarrow> bool" where
  "queue_inv acc out st \<longleftrightarrow>
     sorted (qs_heap st) \<and> set (qs_heap st) \<subseteq> acc \<and> \<not> qs_closed st \<and>
     0 < qs_max_buffered st \<and> length (qs_heap st) \<le> qs_max_buffered st \<and>
     delivers acc (qs_next_seq st) (out @ qs_pending st) \<and>
     (\<forall>s p. (s, p) \<in> acc \<and> qs_next_seq st \<le> s \<and> qs_next_seq st \<noteq> -1 \<longrightarrow> (s, p) \<in> set (qs_heap st))"

lemma saturating_add_le: "saturating_add nxt 1 \<le> s \<Longrightarrow> (nxt :: u64) \<le> s"
  using saturating_add_u64 [of nxt] by (auto simp: word_le_nat_alt split: if_splits)

lemma saturating_add_gt: "nxt \<noteq> -1 \<Longrightarrow> saturating_add nxt 1 \<le> s \<Longrightarrow> (nxt :: u64) \<noteq> s"
  using saturating_add_u64 [of nxt] by (auto simp: word_le_nat_alt split: if_splits)

lemma sorted_insort_head: "sorted (x # xs) \<Longrightarrow> insort x xs = x # xs"
  by (cases xs) auto

text \<open>Filling keeps the invariant, never fails, and leaves only packets ahead of the next number.\<close>

lemma fill_pending_inv:
  assumes "queue_inv acc out st"
  shows "\<exists>st'. fill_pending st = (Inr (), st') \<and> queue_inv acc out st' \<and>
     (\<forall>s p. (s, p) \<in> set (qs_heap st') \<longrightarrow> qs_next_seq st' < s)"
  using assms
proof (induction st rule: fill_pending.induct)
  case (1 st)
  show ?case
  proof (cases "qs_heap st")
    case Nil
    then show ?thesis using "1.prems" by (auto simp: fill_pending.simps [of st] queue_inv_def)
  next
    case (Cons x rest)
    obtain s p where x: "x = (s, p)" by fastforce
    note heap = Cons [unfolded x]
    have in_acc: "(s, p) \<in> acc" using "1.prems" heap by (auto simp: queue_inv_def)
    consider (eq) "s = qs_next_seq st" | (gt) "s \<noteq> qs_next_seq st" "s > qs_next_seq st"
      | (lt) "s \<noteq> qs_next_seq st" "\<not> s > qs_next_seq st" by blast
    then show ?thesis
    proof cases
      case eq
      let ?st = "st\<lparr>qs_heap := rest, qs_pending := qs_pending st @ p, qs_next_seq := saturating_add (qs_next_seq st) 1\<rparr>"
      have "delivers acc (qs_next_seq ?st) (out @ qs_pending ?st)"
        using delivers_next [of acc "qs_next_seq st" "out @ qs_pending st" p] "1.prems" in_acc eq
        by (simp add: queue_inv_def)
      moreover have "(s', p') \<in> set rest"
        if "(s', p') \<in> acc" "saturating_add (qs_next_seq st) 1 \<le> s'" "saturating_add (qs_next_seq st) 1 \<noteq> -1" for s' p'
      proof -
        have "qs_next_seq st \<noteq> -1" using that(3) by auto
        then have "qs_next_seq st \<noteq> s'" "(s', p') \<in> set (qs_heap st)"
          using saturating_add_gt saturating_add_le that "1.prems" by (auto simp: queue_inv_def)
        then show ?thesis using heap eq by auto
      qed
      ultimately have "queue_inv acc out ?st"
        using "1.prems" heap unfolding queue_inv_def by auto
      then show ?thesis using "1.IH"(1) [OF heap refl refl eq] heap eq
        by (simp add: fill_pending.simps [of st])
    next
      case gt
      have srt: "sorted ((s, p) # rest)" and len: "length rest < qs_max_buffered st"
        using "1.prems" heap by (auto simp: queue_inv_def)
      have ahead: "qs_next_seq st < s'" if "(s', p') \<in> set (qs_heap st)" for s' p'
        using srt that heap gt by (auto simp: less_eq_prod_def)
      have "st\<lparr>qs_heap := (s, p) # rest\<rparr> = st" using heap by (cases st) simp
      then have "fill_pending st = (Inr (), st)"
        using gt heap len sorted_insort_head [OF srt] by (simp add: fill_pending.simps [of st])
      then show ?thesis using "1.prems" ahead by blast
    next
      case lt
      let ?st = "st\<lparr>qs_heap := rest, qs_buffered_bytes := saturating_sub (qs_buffered_bytes st) (of_nat (length p))\<rparr>"
      have "\<not> qs_next_seq st \<le> s" using lt by auto
      then have "queue_inv acc out ?st"
        using "1.prems" heap unfolding queue_inv_def by auto
      then show ?thesis using "1.IH"(2) [OF heap refl refl lt] heap lt
        by (simp add: fill_pending.simps [of st])
    qed
  qed
qed

lemma queue_push_inv:
  assumes "queue_inv acc out st" "queue_push s p st = (Inr (), st')"
  shows "queue_inv (insert (s, p) acc) out st'"
proof -
  have "delivers (insert (s, p) acc) (qs_next_seq st) (out @ qs_pending st)"
    using assms(1) delivers_mono unfolding queue_inv_def by blast
  then show ?thesis
    using assms unfolding queue_inv_def queue_push_def Let_def
    by (auto simp: sorted_insort set_insort_key split: if_splits)
qed

text \<open>A read delivers a prefix of what is due, or waits with nothing due.\<close>

lemma queue_poll_read_inv:
  assumes "queue_inv acc out st"
  shows "(\<exists>bs st'. queue_poll_read n st = (Ready bs, st') \<and> queue_inv acc (out @ bs) st' \<and> (bs = [] \<longrightarrow> n = 0)) \<or>
    (\<exists>st'. queue_poll_read n st = (Pending, st') \<and> queue_inv acc out st' \<and> qs_pending st' = [] \<and>
       (\<forall>s p. (s, p) \<in> acc \<longrightarrow> s \<noteq> qs_next_seq st' \<or> qs_next_seq st' = -1))"
proof (cases "n = 0")
  case True
  then show ?thesis using assms by (simp add: queue_poll_read_def)
next
  case False
  obtain st1 where f: "fill_pending st = (Inr (), st1)" "queue_inv acc out st1"
    "\<And>s p. (s, p) \<in> set (qs_heap st1) \<Longrightarrow> qs_next_seq st1 < s"
    using fill_pending_inv [OF assms] by blast
  show ?thesis
  proof (cases "qs_pending st1 = []")
    case True
    have due: "s \<noteq> qs_next_seq st1 \<or> qs_next_seq st1 = -1" if "(s, p) \<in> acc" for s p
      using f(2) f(3) [of s p] that unfolding queue_inv_def by fastforce
    have "\<not> qs_closed st1" using f(2) by (simp add: queue_inv_def)
    then have "queue_poll_read n st = (Pending, st1)" using f(1) False True by (simp add: queue_poll_read_def)
    then show ?thesis using f(2) True due by blast
  next
    case pend: False
    let ?m = "min n (length (qs_pending st1))"
    let ?st = "st1\<lparr>qs_pending := drop ?m (qs_pending st1),
        qs_buffered_bytes := saturating_sub (qs_buffered_bytes st1) (of_nat ?m)\<rparr>"
    have "queue_poll_read n st = (Ready (take ?m (qs_pending st1)), ?st)"
      using f(1) False pend by (simp add: queue_poll_read_def Let_def)
    moreover have "queue_inv acc (out @ take ?m (qs_pending st1)) ?st"
      using f(2) unfolding queue_inv_def by simp
    moreover have "take ?m (qs_pending st1) \<noteq> []" using False pend by simp
    ultimately show ?thesis by blast
  qed
qed

section \<open>Runs of a queue\<close>

inductive up_reach :: "nat \<Rightarrow> queue_state \<Rightarrow> (u64 \<times> bytes) set \<Rightarrow> bytes \<Rightarrow> bool" for m where
  start: "up_reach m (queue_new m) {} []"
| accepted: "up_reach m st acc out \<Longrightarrow> queue_push s p st = (Inr (), st') \<Longrightarrow> up_reach m st' (insert (s, p) acc) out"
| refused: "up_reach m st acc out \<Longrightarrow> queue_push s p st = (Inl e, st') \<Longrightarrow> up_reach m st' acc out"
| delivered: "up_reach m st acc out \<Longrightarrow> queue_poll_read n st = (Ready bs, st') \<Longrightarrow> up_reach m st' acc (out @ bs)"
| waiting: "up_reach m st acc out \<Longrightarrow> queue_poll_read n st = (Pending, st') \<Longrightarrow> up_reach m st' acc out"

lemma up_reach_inv: "up_reach m st acc out \<Longrightarrow> queue_inv acc out st"
proof (induction rule: up_reach.induct)
  case start
  show ?case using delivers_start by (simp add: queue_inv_def queue_new_def DEFAULT_MAX_BUFFERED_def)
next
  case (accepted st acc out s p st')
  then show ?case by (blast intro: queue_push_inv)
next
  case (refused st acc out s p e st')
  then show ?case by (auto simp: queue_push_def Let_def split: if_splits)
next
  case (delivered st acc out n bs st')
  then show ?case using queue_poll_read_inv [of acc out st n] by auto
next
  case (waiting st acc out n st')
  then show ?case using queue_poll_read_inv [of acc out st n] by auto
qed

lemma insort_last: "\<lbrakk>\<And>y. y \<in> set xs \<Longrightarrow> y < x\<rbrakk> \<Longrightarrow> insort x xs = xs @ [x]" for x :: "'a :: linorder"
  by (induction xs) (auto simp: not_le [symmetric])

definition gap_packets :: "nat \<Rightarrow> (u64 \<times> bytes) list" where
  "gap_packets k = map (\<lambda>i. (of_nat (Suc i), [])) [0..<k]"

lemma gap_packets_less:
  assumes "k < 2 ^ 64 - 1" "y \<in> set (gap_packets k)"
  shows "y < (of_nat (Suc k), [])" "0 < fst y"
proof -
  obtain i where i: "i < k" "y = (of_nat (Suc i), [])" using assms(2) by (auto simp: gap_packets_def)
  have "unat (of_nat (Suc i) :: u64) = Suc i" "unat (of_nat (Suc k) :: u64) = Suc k"
    using i(1) assms(1) by (simp_all add: unat_of_nat del: of_nat_Suc)
  then have "(of_nat (Suc i) :: u64) < of_nat (Suc k)" "(0 :: u64) < of_nat (Suc i)"
    using i(1) by (simp_all add: word_less_nat_alt del: of_nat_Suc)
  then show "y < (of_nat (Suc k), [])" "0 < fst y" using i(2) by (simp_all add: less_prod_def')
qed

lemma gap_reachable:
  assumes "0 < m" "k \<le> m" "m < 2 ^ 64 - 1"
  shows "up_reach m (queue_new m\<lparr>qs_heap := gap_packets k\<rparr>) (set (gap_packets k)) []"
  using assms(2)
proof (induction k)
  case 0
  have "queue_new m\<lparr>qs_heap := []\<rparr> = queue_new m" by (simp add: queue_new_def)
  then show ?case using up_reach.start by (simp add: gap_packets_def)
next
  case (Suc k)
  have k: "k < 2 ^ 64 - 1" "length (gap_packets k) = k" using Suc.prems assms(3) by (simp_all add: gap_packets_def)
  have g: "gap_packets (Suc k) = gap_packets k @ [(of_nat (Suc k), [])]"
    by (simp add: gap_packets_def)
  have "insort (of_nat (Suc k), []) (gap_packets k) = gap_packets (Suc k)"
    unfolding g by (rule insort_last) (rule gap_packets_less(1) [OF k(1)])
  then have "queue_push (of_nat (Suc k)) [] (queue_new m\<lparr>qs_heap := gap_packets k\<rparr>) =
      (Inr (), queue_new m\<lparr>qs_heap := gap_packets (Suc k)\<rparr>)"
    using k Suc.prems assms(1)
    by (simp add: queue_push_def queue_new_def saturating_add_def DEFAULT_MAX_BUFFERED_BYTES_def del: of_nat_Suc)
  from up_reach.accepted [OF Suc.IH this] show ?case using Suc.prems by (simp add: g del: of_nat_Suc)
qed

lemma take_reader_Ok: "take_reader i w = (Ok q, w') \<Longrightarrow> i = q"
  by (auto simp: take_reader_def split: if_splits)

section \<open>Taking the lock\<close>

text \<open>
  The reader tests the lock with one \<^verbatim>\<open>try_lock\<close>, whose guard is dropped at once, and takes it with a
  second one that must succeed.  The atomic operations of the two sides on the lock:
\<close>

datatype reader_pc = RTest | RTake | RHold | RWait | RPanicked
datatype pusher_pc = WIdle | WHold

record lock_state =
  lk_held :: bool
  lk_reader :: reader_pc
  lk_pusher :: pusher_pc

inductive lock_step :: "lock_state \<Rightarrow> lock_state \<Rightarrow> bool" where
  test_free: "lk_reader s = RTest \<Longrightarrow> \<not> lk_held s \<Longrightarrow> lock_step s (s\<lparr>lk_reader := RTake\<rparr>)"
| test_busy: "lk_reader s = RTest \<Longrightarrow> lk_held s \<Longrightarrow> lock_step s (s\<lparr>lk_reader := RWait\<rparr>)"
| woken: "lk_reader s = RWait \<Longrightarrow> lock_step s (s\<lparr>lk_reader := RTest\<rparr>)"
| take_free: "lk_reader s = RTake \<Longrightarrow> \<not> lk_held s \<Longrightarrow> lock_step s (s\<lparr>lk_reader := RHold, lk_held := True\<rparr>)"
| take_busy: "lk_reader s = RTake \<Longrightarrow> lk_held s \<Longrightarrow> lock_step s (s\<lparr>lk_reader := RPanicked\<rparr>)"
| release_read: "lk_reader s = RHold \<Longrightarrow> lock_step s (s\<lparr>lk_reader := RTest, lk_held := False\<rparr>)"
| lock_push: "lk_pusher s = WIdle \<Longrightarrow> \<not> lk_held s \<Longrightarrow> lock_step s (s\<lparr>lk_pusher := WHold, lk_held := True\<rparr>)"
| release_push: "lk_pusher s = WHold \<Longrightarrow> lock_step s (s\<lparr>lk_pusher := WIdle, lk_held := False\<rparr>)"

definition lock_init :: lock_state where
  "lock_init = \<lparr>lk_held = False, lk_reader = RTest, lk_pusher = WIdle\<rparr>"

section \<open>Correctness\<close>



text \<open>C33: the upload direction can block for good.  When the queue is full of packets ahead of a
  missing one, the missing packet itself is refused, like every other, and every read waits.\<close>

theorem packet_up_can_block_forever:
  assumes "0 < m" "m < 2 ^ 64 - 1"
  shows "\<exists>st acc. up_reach m st acc [] \<and>
     (\<forall>s p. queue_push s p st = (Inl QueueExceeded, st)) \<and>
     (\<forall>n. queue_poll_read (Suc n) st = (Pending, st))"
proof -
  let ?st = "queue_new m\<lparr>qs_heap := gap_packets m\<rparr>"
  obtain k where m: "m = Suc k" using assms(1) by (cases m) auto
  have g: "gap_packets m = (1, []) # map (\<lambda>i. (of_nat (Suc (Suc i)), [])) [0..<k]"
    unfolding gap_packets_def m upt_conv_Cons [OF zero_less_Suc]
    by (simp add: map_Suc_upt [symmetric] del: upt_Suc map_Suc_upt)
  have r: "up_reach m ?st (set (gap_packets m)) []" by (rule gap_reachable [OF assms(1) order.refl assms(2)])
  have srt: "sorted (gap_packets m)" using up_reach_inv [OF r] by (simp add: queue_inv_def)
  have st: "qs_next_seq ?st = 0" "qs_pending ?st = []" "\<not> qs_closed ?st" "qs_max_buffered ?st = m"
    using assms(1) by (simp_all add: queue_new_def)
  have "fill_pending ?st = (Inr (), ?st)"
    using sorted_insort_head [OF srt [unfolded g]] m
    unfolding fill_pending.simps [of ?st] unfolding g queue_new_def by (simp del: of_nat_Suc)
  then have "queue_poll_read (Suc n) ?st = (Pending, ?st)" for n
    using st by (simp add: queue_poll_read_def)
  moreover have "queue_push s p ?st = (Inl QueueExceeded, ?st)" for s p
    using st by (simp add: queue_push_def gap_packets_def)
  ultimately show ?thesis using r by blast
qed

theorem packet_up_can_block_forever_witness:
  "\<exists>st acc. up_reach 64 st acc [] \<and> (\<forall>s p. queue_push s p st = (Inl QueueExceeded, st)) \<and>
     (\<forall>n. queue_poll_read (Suc n) st = (Pending, st))"
  using packet_up_can_block_forever [of 64] by simp

text \<open>C34: a second download request for a session whose download is still open makes the server task
  panic, because the reader of a queue can be taken only once.\<close>

theorem packet_up_second_download_panics:
  assumes "packet_up_accept body (Ok ()) base meth request w = (Ok (Tunnel q session), w')"
    and "\<And>s i. map_of (pw_sessions w) s = Some i \<Longrightarrow> i < length (pw_queues w)"
  shows "fst (packet_up_accept body' (Ok ()) base meth request w') = Panic"
proof -
  let ?base = "case base of Some p \<Rightarrow> p | None \<Rightarrow> ''/''"
  let ?path = "request_path request"
  obtain sess sq where ss: "extract_session_seq ?path ?base = (sess, sq)" by fastforce
  obtain i w1 where u: "upsert_packet_up_session sess w = (i, w1)" by fastforce
  have g: "prefix (trim_end_matches CHR ''/'' (normalized_path_prefix ?base)) ?path"
    "\<not> eq_ignore_ascii_case meth ''OPTIONS''" "\<not> eq_ignore_ascii_case meth ''POST''"
    "eq_ignore_ascii_case meth ''GET''" "sess \<noteq> []" "i = Some q" "take_reader q w1 = (Ok q, w')"
    using assms(1) ss u unfolding packet_up_accept_def Let_def
    by (auto split: if_splits prod.splits res.splits sum.splits option.splits dest: take_reader_Ok)
  have m: "map_of (pw_sessions w1) sess = Some q" "q < length (pw_queues w1)"
    using u g(6) assms(2) by (auto simp: upsert_packet_up_session_def split: option.splits if_splits)
  have w': "pw_sessions w' = pw_sessions w1" "uq_reader_taken (pw_queues w' ! q)"
    using g(7) m(2) by (auto simp: take_reader_def split: if_splits)
  have "upsert_packet_up_session sess w' = (Some q, w')"
    using m(1) w'(1) by (simp add: upsert_packet_up_session_def)
  then show ?thesis using g w' ss by (simp add: packet_up_accept_def Let_def take_reader_def)
qed

theorem packet_up_second_download_panics_witness:
  "fst (packet_up_accept (Ok []) (Ok ()) None ''GET'' ''GET /s1 HTTP/1.1''
     (snd (packet_up_accept (Ok []) (Ok ()) None ''GET'' ''GET /s1 HTTP/1.1'' \<lparr>pw_queues = [], pw_sessions = []\<rparr>))) = Panic"
proof -
  let ?w = "\<lparr>pw_queues = [], pw_sessions = []\<rparr>"
  have p: "request_path ''GET /s1 HTTP/1.1'' = ''/s1''" by code_simp
  have e: "extract_session_seq ''/s1'' ''/'' = (''s1'', [])" by code_simp
  have n: "trim_end_matches CHR ''/'' (normalized_path_prefix ''/'') = []" by code_simp
  have m: "\<not> eq_ignore_ascii_case ''GET'' ''OPTIONS''" "\<not> eq_ignore_ascii_case ''GET'' ''POST''"
    "eq_ignore_ascii_case ''GET'' ''GET''" by code_simp+
  have "fst (packet_up_accept (Ok []) (Ok ()) None ''GET'' ''GET /s1 HTTP/1.1'' ?w) = Ok (Tunnel 0 ''s1'')"
    by (simp add: packet_up_accept_def p e n m upsert_packet_up_session_def take_reader_def upload_queue_new_def
        MAX_PACKET_UP_TOTAL_SESSIONS_def)
  then obtain w' where w': "packet_up_accept (Ok []) (Ok ()) None ''GET'' ''GET /s1 HTTP/1.1'' ?w = (Ok (Tunnel 0 ''s1''), w')"
    by (metis prod.collapse)
  then show ?thesis using packet_up_second_download_panics [OF w', of "Ok []"] by simp
qed

text \<open>The reader can panic under concurrent uploads.  Between its two attempts to take the lock a
  push can acquire it, and the second attempt must succeed.\<close>

lemma packet_up_reader_race_panics:
  "\<exists>s. lock_step\<^sup>*\<^sup>* lock_init s \<and> lk_reader s = RPanicked"
proof -
  let ?s1 = "lock_init\<lparr>lk_reader := RTake\<rparr>" and ?s2 = "lock_init\<lparr>lk_reader := RTake, lk_pusher := WHold, lk_held := True\<rparr>"
  have "lock_step lock_init ?s1" using test_free [of lock_init] by (simp add: lock_init_def)
  moreover have "lock_step ?s1 ?s2" using lock_push [of ?s1] by (simp add: lock_init_def)
  moreover have "lock_step ?s2 (?s2\<lparr>lk_reader := RPanicked\<rparr>)" by (rule take_busy) simp_all
  ultimately have "lock_step\<^sup>*\<^sup>* lock_init (?s2\<lparr>lk_reader := RPanicked\<rparr>)"
    by (meson rtranclp.rtrancl_into_rtrancl rtranclp.rtrancl_refl)
  then show ?thesis by (intro exI [of _ "?s2\<lparr>lk_reader := RPanicked\<rparr>"]) simp
qed

end
