(* ===== verification/ConnMgr.thy ===== *)
theory ConnMgr
  imports BW_Prelude
begin

text \<open>
  The registry of active connections (crates/blackwire-connmgr/src: meta.rs, commands.rs, manager.rs).

  The metadata of a connection is shared between the registry and the guard of the connection, so it
  lives in a store and both hold its index.  The registry itself is an association list from
  identifiers to indices, because it is iterated; a cancellation token is its cancelled flag.
  Recording of metrics is not modelled.
\<close>

section \<open>Metadata\<close>

datatype protocol =
  ProtoTcp | ProtoUdp | ProtoHttp | ProtoTls | ProtoSocks | ProtoVless | ProtoVmess | ProtoTrojan
| ProtoShadowsocks | ProtoHysteria2 | ProtoTuic | ProtoUnknown

fun protocol_as_str :: "protocol \<Rightarrow> string" where
  "protocol_as_str ProtoTcp = ''tcp''"
| "protocol_as_str ProtoUdp = ''udp''"
| "protocol_as_str ProtoHttp = ''http''"
| "protocol_as_str ProtoTls = ''tls''"
| "protocol_as_str ProtoSocks = ''socks''"
| "protocol_as_str ProtoVless = ''vless''"
| "protocol_as_str ProtoVmess = ''vmess''"
| "protocol_as_str ProtoTrojan = ''trojan''"
| "protocol_as_str ProtoShadowsocks = ''shadowsocks''"
| "protocol_as_str ProtoHysteria2 = ''hysteria2''"
| "protocol_as_str ProtoTuic = ''tuic''"
| "protocol_as_str ProtoUnknown = ''unknown''"

definition protocol_from :: "string \<Rightarrow> protocol" where
  "protocol_from value =
     (if value = ''http'' then ProtoHttp
      else if value = ''tls'' then ProtoTls
      else if value = ''socks'' then ProtoSocks
      else if value = ''vless'' then ProtoVless
      else if value = ''vmess'' then ProtoVmess
      else if value = ''trojan'' then ProtoTrojan
      else if value = ''shadowsocks'' \<or> value = ''ss2022'' then ProtoShadowsocks
      else if value = ''hysteria2'' then ProtoHysteria2
      else if value = ''udp'' then ProtoUdp
      else if value = ''tcp'' then ProtoTcp
      else ProtoUnknown)"

datatype transport =
  TransTcp | TransUdp | TransTls | TransWebSocket | TransGrpc | TransQuic | TransSplitHttp | TransUnknown

fun transport_as_str :: "transport \<Rightarrow> string" where
  "transport_as_str TransTcp = ''tcp''"
| "transport_as_str TransUdp = ''udp''"
| "transport_as_str TransTls = ''tls''"
| "transport_as_str TransWebSocket = ''websocket''"
| "transport_as_str TransGrpc = ''grpc''"
| "transport_as_str TransQuic = ''quic''"
| "transport_as_str TransSplitHttp = ''splithttp''"
| "transport_as_str TransUnknown = ''unknown''"

datatype relay_path = RelayCopy | RelayCopyV2 | RelaySplice | RelayVisionCopy | RelayAdaptive | RelayUnknown

fun relay_path_as_str :: "relay_path \<Rightarrow> string" where
  "relay_path_as_str RelayCopy = ''copy''"
| "relay_path_as_str RelayCopyV2 = ''copy_v2''"
| "relay_path_as_str RelaySplice = ''splice''"
| "relay_path_as_str RelayVisionCopy = ''vision_copy''"
| "relay_path_as_str RelayAdaptive = ''adaptive''"
| "relay_path_as_str RelayUnknown = ''unknown''"

datatype close_reason =
  Active | Completed | Error | ClosedById | ClosedByUser | ClosedByInbound | ClosedByOutbound | Dropped

fun close_reason_as_str :: "close_reason \<Rightarrow> string" where
  "close_reason_as_str Active = ''active''"
| "close_reason_as_str Completed = ''completed''"
| "close_reason_as_str Error = ''error''"
| "close_reason_as_str ClosedById = ''closed_by_id''"
| "close_reason_as_str ClosedByUser = ''closed_by_user''"
| "close_reason_as_str ClosedByInbound = ''closed_by_inbound''"
| "close_reason_as_str ClosedByOutbound = ''closed_by_outbound''"
| "close_reason_as_str Dropped = ''dropped''"

fun reason_to_u8 :: "close_reason \<Rightarrow> u8" where
  "reason_to_u8 Active = 0"
| "reason_to_u8 Completed = 1"
| "reason_to_u8 Error = 2"
| "reason_to_u8 ClosedById = 3"
| "reason_to_u8 ClosedByUser = 4"
| "reason_to_u8 ClosedByInbound = 5"
| "reason_to_u8 ClosedByOutbound = 6"
| "reason_to_u8 Dropped = 7"

definition reason_from_u8 :: "u8 \<Rightarrow> close_reason" where
  "reason_from_u8 value =
     (if value = 1 then Completed
      else if value = 2 then Error
      else if value = 3 then ClosedById
      else if value = 4 then ClosedByUser
      else if value = 5 then ClosedByInbound
      else if value = 6 then ClosedByOutbound
      else if value = 7 then Dropped
      else Active)"

record conn_meta =
  cm_id :: u64
  cm_inbound :: string
  cm_outbound :: string
  cm_user :: "string option"
  cm_protocol :: protocol
  cm_transport :: transport
  cm_started_at :: nat
  cm_bytes_up :: u64
  cm_bytes_down :: u64
  cm_relay_path :: relay_path
  cm_close_reason :: u8
  cm_cancelled :: bool

definition meta_close_reason :: "conn_meta \<Rightarrow> close_reason" where
  "meta_close_reason meta = reason_from_u8 (cm_close_reason meta)"

definition set_close_reason :: "close_reason \<Rightarrow> conn_meta \<Rightarrow> conn_meta" where
  "set_close_reason reason meta = meta\<lparr>cm_close_reason := reason_to_u8 reason\<rparr>"

record conn_snapshot =
  sn_id :: u64
  sn_inbound :: string
  sn_outbound :: string
  sn_user :: "string option"
  sn_protocol :: protocol
  sn_transport :: transport
  sn_age :: nat
  sn_bytes_up :: u64
  sn_bytes_down :: u64
  sn_relay_path :: relay_path
  sn_close_reason :: close_reason

definition meta_snapshot :: "nat \<Rightarrow> conn_meta \<Rightarrow> conn_snapshot" where
  "meta_snapshot now meta =
     \<lparr>sn_id = cm_id meta, sn_inbound = cm_inbound meta, sn_outbound = cm_outbound meta,
      sn_user = cm_user meta, sn_protocol = cm_protocol meta, sn_transport = cm_transport meta,
      sn_age = now - cm_started_at meta, sn_bytes_up = cm_bytes_up meta, sn_bytes_down = cm_bytes_down meta,
      sn_relay_path = cm_relay_path meta, sn_close_reason = meta_close_reason meta\<rparr>"

definition total_bytes :: "conn_snapshot \<Rightarrow> u64" where
  "total_bytes s = saturating_add (sn_bytes_up s) (sn_bytes_down s)"

section \<open>Commands\<close>

datatype close_selector = SelId u64 | SelUser string | SelInbound string | SelOutbound string

fun selector_reason :: "close_selector \<Rightarrow> close_reason" where
  "selector_reason (SelId _) = ClosedById"
| "selector_reason (SelUser _) = ClosedByUser"
| "selector_reason (SelInbound _) = ClosedByInbound"
| "selector_reason (SelOutbound _) = ClosedByOutbound"

section \<open>The manager\<close>

record conn_manager =
  mg_next_id :: u64
  mg_active :: "(u64 \<times> nat) list"
  mg_metas :: "conn_meta list"

definition manager_default :: conn_manager where
  "manager_default = \<lparr>mg_next_id = 1, mg_active = [], mg_metas = []\<rparr>"

record conn_guard =
  gd_id :: u64
  gd_meta :: nat

definition conn_track ::
  "string \<Rightarrow> string \<Rightarrow> string option \<Rightarrow> protocol \<Rightarrow> transport \<Rightarrow> relay_path \<Rightarrow> nat \<Rightarrow> conn_manager
     \<Rightarrow> conn_guard \<times> conn_manager" where
  "conn_track inbound outbound user prot tran path now mg =
     (let id = mg_next_id mg;
          meta = \<lparr>cm_id = id, cm_inbound = inbound, cm_outbound = outbound, cm_user = user,
                  cm_protocol = prot, cm_transport = tran, cm_started_at = now,
                  cm_bytes_up = 0, cm_bytes_down = 0, cm_relay_path = path,
                  cm_close_reason = reason_to_u8 Active, cm_cancelled = False\<rparr>;
          i = length (mg_metas mg)
      in (\<lparr>gd_id = id, gd_meta = i\<rparr>,
          mg\<lparr>mg_next_id := id + 1, mg_metas := mg_metas mg @ [meta],
             mg_active := (id, i) # filter (\<lambda>(k, _). k \<noteq> id) (mg_active mg)\<rparr>))"

definition update_meta :: "nat \<Rightarrow> (conn_meta \<Rightarrow> conn_meta) \<Rightarrow> conn_manager \<Rightarrow> conn_manager" where
  "update_meta i f mg = mg\<lparr>mg_metas := (mg_metas mg)[i := f (mg_metas mg ! i)]\<rparr>"

definition conn_list :: "nat \<Rightarrow> conn_manager \<Rightarrow> conn_snapshot list" where
  "conn_list now mg = sort_key sn_id (map (\<lambda>(_, i). meta_snapshot now (mg_metas mg ! i)) (mg_active mg))"

fun selector_matches :: "close_selector \<Rightarrow> conn_meta \<Rightarrow> bool" where
  "selector_matches (SelId cid) meta = (cm_id meta = cid)"
| "selector_matches (SelUser user) meta = (cm_user meta = Some user)"
| "selector_matches (SelInbound inbound) meta = (cm_inbound meta = inbound)"
| "selector_matches (SelOutbound outbound) meta = (cm_outbound meta = outbound)"

definition close_meta :: "close_selector \<Rightarrow> conn_meta \<Rightarrow> conn_meta" where
  "close_meta selector meta = (set_close_reason (selector_reason selector) meta)\<lparr>cm_cancelled := True\<rparr>"

fun close_entries :: "close_selector \<Rightarrow> (u64 \<times> nat) list \<Rightarrow> nat \<Rightarrow> conn_manager \<Rightarrow> nat \<times> conn_manager" where
  "close_entries selector [] matched mg = (matched, mg)"
| "close_entries selector ((_, i) # entries) matched mg =
     (if selector_matches selector (mg_metas mg ! i)
      then close_entries selector entries (matched + 1) (update_meta i (close_meta selector) mg)
      else close_entries selector entries matched mg)"

definition conn_close :: "close_selector \<Rightarrow> conn_manager \<Rightarrow> nat \<times> conn_manager" where
  "conn_close selector mg = close_entries selector (mg_active mg) 0 mg"

definition manager_finish :: "nat \<Rightarrow> u64 \<Rightarrow> u64 \<Rightarrow> close_reason \<Rightarrow> conn_manager \<Rightarrow> conn_manager" where
  "manager_finish i up down fallback_reason mg =
     (let meta = mg_metas mg ! i;
          reason = (case meta_close_reason meta of Active \<Rightarrow> fallback_reason | existing \<Rightarrow> existing);
          mg = update_meta i (\<lambda>meta. set_close_reason reason (meta\<lparr>cm_bytes_up := up, cm_bytes_down := down\<rparr>)) mg
      in mg\<lparr>mg_active := filter (\<lambda>(k, _). k \<noteq> cm_id meta) (mg_active mg)\<rparr>)"

definition add_bytes :: "conn_guard \<Rightarrow> u64 \<Rightarrow> u64 \<Rightarrow> conn_manager \<Rightarrow> conn_manager" where
  "add_bytes g up down mg =
     update_meta (gd_meta g) (\<lambda>meta.
       meta\<lparr>cm_bytes_up := cm_bytes_up meta + up, cm_bytes_down := cm_bytes_down meta + down\<rparr>) mg"

definition guard_finish :: "conn_guard \<Rightarrow> u64 \<Rightarrow> u64 \<Rightarrow> close_reason \<Rightarrow> conn_manager \<Rightarrow> conn_manager" where
  "guard_finish g up down reason mg = manager_finish (gd_meta g) up down reason mg"

text \<open>Dropping a guard that was not finished.\<close>

definition drop_guard :: "conn_guard \<Rightarrow> conn_manager \<Rightarrow> conn_manager" where
  "drop_guard g mg =
     (let meta = mg_metas mg ! gd_meta g in
      manager_finish (gd_meta g) (cm_bytes_up meta) (cm_bytes_down meta) Dropped mg)"

section \<open>The invariant\<close>

text \<open>The states a manager passes through, with the indices of the guards that are alive; the run
  tracks fewer than 2^64 - 1 connections, so identifiers do not repeat.\<close>

inductive conn_reach :: "conn_manager \<Rightarrow> nat set \<Rightarrow> bool" where
  start: "conn_reach manager_default {}"
| track: "conn_reach mg live \<Longrightarrow> length (mg_metas mg) < 2 ^ 64 - 1 \<Longrightarrow>
    conn_track inbound outbound user prot tran path now mg = (g, mg') \<Longrightarrow> conn_reach mg' (insert (gd_meta g) live)"
| close: "conn_reach mg live \<Longrightarrow> conn_reach (snd (conn_close sel mg)) live"
| count: "conn_reach mg live \<Longrightarrow> gd_meta g \<in> live \<Longrightarrow> conn_reach (add_bytes g up down mg) live"
| finish: "conn_reach mg live \<Longrightarrow> gd_meta g \<in> live \<Longrightarrow>
    conn_reach (guard_finish g up down reason mg) (live - {gd_meta g})"
| drop: "conn_reach mg live \<Longrightarrow> gd_meta g \<in> live \<Longrightarrow> conn_reach (drop_guard g mg) (live - {gd_meta g})"

definition registry_inv :: "conn_manager \<Rightarrow> nat set \<Rightarrow> bool" where
  "registry_inv mg live \<longleftrightarrow>
     length (mg_metas mg) \<le> 2 ^ 64 - 1 \<and> mg_next_id mg = of_nat (Suc (length (mg_metas mg))) \<and>
     (\<forall>i < length (mg_metas mg). cm_id (mg_metas mg ! i) = of_nat (Suc i)) \<and>
     live \<subseteq> {..< length (mg_metas mg)} \<and>
     distinct (mg_active mg) \<and> set (mg_active mg) = (\<lambda>i. (of_nat (Suc i), i)) ` live"

lemma id_inj:
  assumes "i < 2 ^ 64 - 1" "j < 2 ^ 64 - 1"
  shows "(of_nat (Suc i) :: u64) = of_nat (Suc j) \<longleftrightarrow> i = j"
proof -
  have "unat (of_nat (Suc i) :: u64) = Suc i" "unat (of_nat (Suc j) :: u64) = Suc j"
    using assms by (simp_all add: unat_of_nat del: of_nat_Suc)
  then show ?thesis by (metis nat.inject)
qed

lemma registry_inv_update:
  assumes "registry_inv mg live" "\<And>meta. cm_id (f meta) = cm_id meta"
  shows "registry_inv (update_meta i f mg) live"
  using assms unfolding registry_inv_def update_meta_def
  by (cases "i < length (mg_metas mg)") (auto simp: nth_list_update list_update_beyond simp del: of_nat_Suc)

lemma registry_inv_track:
  assumes "registry_inv mg live" "length (mg_metas mg) < 2 ^ 64 - 1"
    and "conn_track inbound outbound user prot tran path now mg = (g, mg')"
  shows "registry_inv mg' (insert (gd_meta g) live)"
proof -
  let ?n = "length (mg_metas mg)"
  have new: "(mg_next_id mg, ?n) \<notin> set (mg_active mg)"
    using assms(1) by (auto simp: registry_inv_def simp del: of_nat_Suc)
  have "k \<noteq> mg_next_id mg" if "(k, j) \<in> set (mg_active mg)" for k j
  proof -
    have "j < ?n" "k = of_nat (Suc j)" using that assms(1) by (auto simp: registry_inv_def)
    then show ?thesis using id_inj [of j ?n] assms(1,2) by (auto simp: registry_inv_def)
  qed
  then have f: "filter (\<lambda>(k, _). k \<noteq> mg_next_id mg) (mg_active mg) = mg_active mg"
    by (intro filter_True) auto
  have "gd_meta g = ?n" using assms(3) by (auto simp: conn_track_def Let_def)
  then show ?thesis
    using assms(1,2) assms(3) new f unfolding registry_inv_def conn_track_def Let_def
    by (auto simp: nth_append less_Suc_eq add.commute)
qed

lemma registry_inv_remove:
  assumes "registry_inv mg live" "i \<in> live"
  shows "registry_inv (mg\<lparr>mg_active := filter (\<lambda>(k, _). k \<noteq> cm_id (mg_metas mg ! i)) (mg_active mg)\<rparr>) (live - {i})"
proof -
  have b: "length (mg_metas mg) \<le> 2 ^ 64 - 1" "i < length (mg_metas mg)" "live \<subseteq> {..< length (mg_metas mg)}"
    using assms by (auto simp: registry_inv_def)
  have id: "cm_id (mg_metas mg ! i) = of_nat (Suc i)" using assms b by (simp add: registry_inv_def del: of_nat_Suc)
  have ne: "j \<in> live \<Longrightarrow> (of_nat (Suc j) :: u64) \<noteq> of_nat (Suc i) \<longleftrightarrow> j \<noteq> i" for j
    using id_inj [of j i] b by auto
  have "set (filter (\<lambda>(k, _). k \<noteq> of_nat (Suc i)) (mg_active mg)) = (\<lambda>j. (of_nat (Suc j), j)) ` (live - {i})"
    using assms(1) ne unfolding registry_inv_def by (auto simp del: of_nat_Suc)
  then show ?thesis using assms(1) unfolding id registry_inv_def by (auto simp del: of_nat_Suc)
qed

text \<open>A close command touches exactly the matching entries, each once.\<close>

lemma close_entries_spec:
  assumes "distinct (map snd entries)" "snd ` set entries \<subseteq> {..< length (mg_metas mg)}"
    and "close_entries sel entries k mg = (n, mg')"
  shows "n = k + length (filter (\<lambda>(_, i). selector_matches sel (mg_metas mg ! i)) entries) \<and>
    mg_next_id mg' = mg_next_id mg \<and> mg_active mg' = mg_active mg \<and> length (mg_metas mg') = length (mg_metas mg) \<and>
    (\<forall>j < length (mg_metas mg). mg_metas mg' ! j =
      (if j \<in> snd ` set entries \<and> selector_matches sel (mg_metas mg ! j) then close_meta sel (mg_metas mg ! j)
       else mg_metas mg ! j))"
  using assms
proof (induction entries arbitrary: k mg)
  case (Cons e entries)
  obtain c i where e: "e = (c, i)" by fastforce
  have i: "i < length (mg_metas mg)" "i \<notin> snd ` set entries" and d: "distinct (map snd entries)"
    and sub: "snd ` set entries \<subseteq> {..< length (mg_metas mg)}"
    using Cons.prems(1,2) e by auto
  show ?case
  proof (cases "selector_matches sel (mg_metas mg ! i)")
    case False
    then show ?thesis using Cons.IH [OF d sub] Cons.prems(3) e by auto
  next
    case True
    let ?mg = "update_meta i (close_meta sel) mg"
    have nth: "mg_metas ?mg ! j = (if j = i then close_meta sel (mg_metas mg ! i) else mg_metas mg ! j)" for j
      using i(1) by (simp add: update_meta_def)
    have same: "mg_next_id ?mg = mg_next_id mg" "mg_active ?mg = mg_active mg" "length (mg_metas ?mg) = length (mg_metas mg)"
      by (simp_all add: update_meta_def)
    have flt: "filter (\<lambda>(_, j). selector_matches sel (mg_metas ?mg ! j)) entries =
        filter (\<lambda>(_, j). selector_matches sel (mg_metas mg ! j)) entries"
      using i(2) unfolding nth by (intro filter_cong) (auto simp: image_iff)
    have c: "close_entries sel entries (k + 1) ?mg = (n, mg')" using Cons.prems(3) e True by simp
    from Cons.IH [OF d _ c, unfolded same flt, OF sub, unfolded nth] show ?thesis
      using True e i(2) by auto
  qed
qed auto

lemma registry_distinct_indices: "registry_inv mg live \<Longrightarrow> distinct (map snd (mg_active mg))"
  unfolding registry_inv_def by (auto simp: distinct_map inj_on_def simp del: of_nat_Suc)

lemma registry_indices: "registry_inv mg live \<Longrightarrow> snd ` set (mg_active mg) = live"
  unfolding registry_inv_def by (simp add: image_image)

lemma conn_close_spec:
  assumes inv: "registry_inv mg live" and c: "conn_close sel mg = (n, mg')"
  shows "registry_inv mg' live"
    and "n = card {i \<in> live. selector_matches sel (mg_metas mg ! i)}"
    and "\<And>j. j < length (mg_metas mg) \<Longrightarrow> mg_metas mg' ! j =
      (if j \<in> live \<and> selector_matches sel (mg_metas mg ! j) then close_meta sel (mg_metas mg ! j)
       else mg_metas mg ! j)"
    and "length (mg_metas mg') = length (mg_metas mg)"
proof -
  have sub: "snd ` set (mg_active mg) \<subseteq> {..< length (mg_metas mg)}"
    using inv registry_indices [OF inv] by (simp add: registry_inv_def)
  note spec = close_entries_spec [OF registry_distinct_indices [OF inv] sub c [unfolded conn_close_def],
      unfolded registry_indices [OF inv]]
  let ?P = "\<lambda>i. selector_matches sel (mg_metas mg ! i)"
  have "n = length (filter ?P (map snd (mg_active mg)))"
    using spec by (simp add: filter_map o_def case_prod_unfold)
  also have "\<dots> = card (set (filter ?P (map snd (mg_active mg))))"
    by (rule distinct_card [symmetric]) (rule distinct_filter [OF registry_distinct_indices [OF inv]])
  also have "set (filter ?P (map snd (mg_active mg))) = {i \<in> live. ?P i}"
    using registry_indices [OF inv] by auto
  finally show "n = card {i \<in> live. ?P i}" .
  show "\<And>j. j < length (mg_metas mg) \<Longrightarrow> mg_metas mg' ! j =
      (if j \<in> live \<and> ?P j then close_meta sel (mg_metas mg ! j) else mg_metas mg ! j)"
    using spec by blast
  moreover have "mg_next_id mg' = mg_next_id mg" "mg_active mg' = mg_active mg"
    "length (mg_metas mg') = length (mg_metas mg)" using spec by auto
  moreover have "cm_id (mg_metas mg' ! j) = cm_id (mg_metas mg ! j)" if "j < length (mg_metas mg)" for j
    using calculation(1) [OF that] by (simp add: close_meta_def set_close_reason_def)
  ultimately show "registry_inv mg' live" "length (mg_metas mg') = length (mg_metas mg)"
    using inv unfolding registry_inv_def by (simp_all del: of_nat_Suc)
qed

lemma registry_inv_finish:
  assumes "registry_inv mg live" "i \<in> live"
  shows "registry_inv (manager_finish i up down reason mg) (live - {i})"
proof -
  let ?f = "\<lambda>meta. set_close_reason (case meta_close_reason (mg_metas mg ! i) of Active \<Rightarrow> reason | existing \<Rightarrow> existing)
      (meta\<lparr>cm_bytes_up := up, cm_bytes_down := down\<rparr>)"
  have u: "registry_inv (update_meta i ?f mg) live"
    by (rule registry_inv_update [OF assms(1)]) (simp add: set_close_reason_def)
  have i: "i < length (mg_metas mg)" using assms by (auto simp: registry_inv_def)
  have "cm_id (mg_metas (update_meta i ?f mg) ! i) = cm_id (mg_metas mg ! i)"
    using i by (simp add: update_meta_def set_close_reason_def)
  from registry_inv_remove [OF u assms(2), unfolded this] show ?thesis
    by (simp add: manager_finish_def Let_def update_meta_def)
qed

lemma conn_reach_inv: "conn_reach mg live \<Longrightarrow> registry_inv mg live"
proof (induction rule: conn_reach.induct)
  case start
  show ?case by (simp add: registry_inv_def manager_default_def)
next
  case (track mg live inbound outbound user prot tran path now g mg')
  then show ?case by (blast intro: registry_inv_track)
next
  case (close mg live sel)
  then show ?case using conn_close_spec(1) [of mg live sel] by (metis prod.collapse)
next
  case (count mg live g up down)
  then show ?case by (simp add: add_bytes_def registry_inv_update)
next
  case (finish mg live g up down reason)
  then show ?case by (simp add: guard_finish_def registry_inv_finish)
next
  case (drop mg live g)
  then show ?case by (simp add: drop_guard_def Let_def registry_inv_finish)
qed

lemma reason_from_to_u8: "reason_from_u8 (reason_to_u8 r) = r"
  by (cases r) (simp_all add: reason_from_u8_def)

section \<open>Correctness\<close>

text \<open>C8: after any sequence of openings, close commands, byte counts, completions and drops, the
  registry lists exactly the connections whose guard is alive, each once and under its own
  identifier: no entry leaks and none is lost.\<close>

theorem conn_registry_exact:
  assumes "conn_reach mg live"
  shows "distinct (map fst (mg_active mg)) \<and> length (mg_active mg) = card live \<and>
     set (mg_active mg) = {(cm_id (mg_metas mg ! i), i) | i. i \<in> live}"
proof -
  have inv: "registry_inv mg live" by (rule conn_reach_inv [OF assms])
  have lt: "i \<in> live \<Longrightarrow> i < length (mg_metas mg)" and le: "length (mg_metas mg) \<le> 2 ^ 64 - 1" for i
    using inv by (auto simp: registry_inv_def)
  have s: "set (mg_active mg) = {(cm_id (mg_metas mg ! i), i) | i. i \<in> live}"
    using inv lt unfolding registry_inv_def by (auto simp del: of_nat_Suc)
  have "inj_on fst (set (mg_active mg))"
  proof (rule inj_onI)
    fix x y assume "x \<in> set (mg_active mg)" "y \<in> set (mg_active mg)" "fst x = fst y"
    then obtain i j where ij: "i \<in> live" "j \<in> live" "x = (of_nat (Suc i), i)" "y = (of_nat (Suc j), j)"
      "(of_nat (Suc i) :: u64) = of_nat (Suc j)"
      using inv unfolding registry_inv_def by (auto simp del: of_nat_Suc)
    then have "i = j" using id_inj [of i j] order.strict_trans2 [OF lt le] by (simp del: of_nat_Suc)
    then show "x = y" using ij by simp
  qed
  moreover have "length (mg_active mg) = card (snd ` set (mg_active mg))"
    using registry_distinct_indices [OF inv] by (metis distinct_card length_map list.set_map)
  ultimately show ?thesis
    using s inv registry_indices [OF inv] by (simp add: distinct_map registry_inv_def)
qed

lemma demo_reach: "\<exists>mg. conn_reach mg {0} \<and> length (mg_metas mg) = 1 \<and> cm_user (mg_metas mg ! 0) = Some ''u''"
proof -
  obtain g mg where t: "conn_track ''in'' ''out'' (Some ''u'') ProtoTcp TransTcp RelayCopy 0 manager_default = (g, mg)"
    by fastforce
  then have "gd_meta g = 0" "length (mg_metas mg) = 1" "cm_user (mg_metas mg ! 0) = Some ''u''"
    by (auto simp: conn_track_def manager_default_def)
  then show ?thesis using conn_reach.track [OF conn_reach.start _ t] by (auto simp: manager_default_def)
qed

theorem conn_registry_exact_witness: "\<exists>mg. conn_reach mg {0} \<and> length (mg_active mg) = 1"
  using conn_registry_exact [of _ "{0}"] demo_reach by auto

text \<open>A close command cancels exactly the live connections its selector describes, reports their
  number, leaves every other connection unchanged, and the reason it records survives the later
  completion of the connection.\<close>

lemma conn_close_exact:
  assumes "conn_reach mg live" "conn_close sel mg = (n, mg')"
  shows "n = card {i \<in> live. selector_matches sel (mg_metas mg ! i)} \<and>
     (\<forall>i < length (mg_metas mg). mg_metas mg' ! i =
        (if i \<in> live \<and> selector_matches sel (mg_metas mg ! i)
         then (mg_metas mg ! i)\<lparr>cm_close_reason := reason_to_u8 (selector_reason sel), cm_cancelled := True\<rparr>
         else mg_metas mg ! i)) \<and>
     (\<forall>i \<in> live. selector_matches sel (mg_metas mg ! i) \<longrightarrow>
        meta_close_reason (mg_metas (manager_finish i up down reason mg') ! i) = selector_reason sel)"
proof -
  note spec = conn_close_spec [OF conn_reach_inv [OF assms(1)] assms(2)]
  note len = spec(4)
  have "meta_close_reason (mg_metas (manager_finish i up down reason mg') ! i) = selector_reason sel"
    if i: "i \<in> live" "selector_matches sel (mg_metas mg ! i)" for i
  proof -
    have lt: "i < length (mg_metas mg)" using conn_reach_inv [OF assms(1)] i(1) by (auto simp: registry_inv_def)
    have "meta_close_reason (mg_metas mg' ! i) = selector_reason sel"
      using spec(3) [OF lt] i by (simp add: close_meta_def set_close_reason_def meta_close_reason_def reason_from_to_u8)
    then show ?thesis using lt len
      by (cases sel) (simp_all add: manager_finish_def Let_def update_meta_def set_close_reason_def
          meta_close_reason_def reason_from_u8_def)
  qed
  then show ?thesis using spec(2,3) by (auto simp: close_meta_def set_close_reason_def)
qed

end
