(* ===== verification/Tun_Packet.thy ===== *)
theory Tun_Packet
  imports Addresses
begin

text \<open>
  The packet layer of the TUN runtime (crates/blackwire-transport/src/tun/packet.rs): parsing of raw
  IPv4 and IPv6 packets, construction of TCP and UDP packets, and the internet checksum.

  Functions that return \<^verbatim>\<open>Option\<close> in the source return \<open>'a option res\<close>: \<open>Ok None\<close> is the
  source's \<^verbatim>\<open>None\<close> and \<open>Panic\<close> an index out of range.  Sizes (\<^verbatim>\<open>usize\<close>) are natural
  numbers: all of them are bounded by the length of a buffer plus 2048, so the \<^verbatim>\<open>checked_add\<close>
  of the source never fails.  The running checksum is a 32-bit word and wraps as the release build does.

  The theory shows that the parser never indexes out of range and reports offsets inside the buffer,
  that a packet that was built is parsed back to its addresses, ports, numbers, flags and payload,
  and that the checksums of a built packet are accepted by a receiver.
\<close>

section \<open>Parsed packets\<close>

datatype transport_protocol = TransTcp | TransUdp | TransOther u8

record ip_packet =
  pk_src :: ip_addr
  pk_dst :: ip_addr
  pk_src_port :: u16
  pk_dst_port :: u16
  pk_protocol :: transport_protocol
  pk_header_len :: nat
  pk_payload_offset :: nat
  pk_transport_offset :: nat
  pk_payload_len :: nat
  pk_tcp_seq :: "u32 option"
  pk_tcp_ack :: "u32 option"
  pk_tcp_flags :: "u8 option"

definition packet_payload :: "ip_packet \<Rightarrow> bytes \<Rightarrow> bytes option" where
  "packet_payload p packet = slice_get packet (pk_payload_offset p) (pk_payload_offset p + pk_payload_len p)"

definition be16_at :: "bytes \<Rightarrow> nat \<Rightarrow> u16 res" where
  "be16_at buf i = and_then (idx buf i) (\<lambda>a. and_then (idx buf (i + 1)) (\<lambda>b. Ok (from_be [a, b])))"

definition be32_at :: "bytes \<Rightarrow> nat \<Rightarrow> u32 res" where
  "be32_at buf i =
     and_then (idx buf i) (\<lambda>a. and_then (idx buf (i + 1)) (\<lambda>b.
     and_then (idx buf (i + 2)) (\<lambda>c. and_then (idx buf (i + 3)) (\<lambda>d. Ok (from_be [a, b, c, d])))))"

text \<open>The protocol number as the two parsers classify it, and the \<^verbatim>\<open>?\<close> on an \<^verbatim>\<open>Option\<close>.\<close>

definition classify :: "u8 \<Rightarrow> transport_protocol" where
  "classify proto = (if proto = 6 then TransTcp else if proto = 17 then TransUdp else TransOther proto)"

definition opt_then :: "'a option res \<Rightarrow> ('a \<Rightarrow> 'b option res) \<Rightarrow> 'b option res" where
  "opt_then r f = and_then r (\<lambda>x. case x of None \<Rightarrow> Ok None | Some v \<Rightarrow> f v)"

section \<open>IPv4\<close>

type_synonym transport_fields = "nat \<times> u32 option \<times> u32 option \<times> u8 option"

text \<open>The transport header: the offset of the payload and the TCP fields.\<close>

definition ipv4_transport :: "bytes \<Rightarrow> nat \<Rightarrow> nat \<Rightarrow> u8 \<Rightarrow> transport_fields option res" where
  "ipv4_transport buf ihl transport_len proto =
     (if proto = 6 then
        if transport_len < 20 then Ok None
        else
          and_then (be32_at buf (ihl + 4)) (\<lambda>seq.
          and_then (be32_at buf (ihl + 8)) (\<lambda>ack.
          and_then (idx buf (ihl + 13)) (\<lambda>flags.
          and_then (idx buf (ihl + 12)) (\<lambda>b.
          let data_offset = unat (drop_bit 4 b) * 4 in
          if data_offset < 20 \<or> transport_len < data_offset then Ok None
          else Ok (Some (ihl + data_offset, Some seq, Some ack, Some flags))))))
      else if proto = 17 then
        if transport_len < 8 then Ok None
        else
          and_then (be16_at buf (ihl + 4)) (\<lambda>l.
          let udp_len = unat l in
          if udp_len < 8 \<or> udp_len > transport_len then Ok None
          else Ok (Some (ihl + 8, None, None, None)))
      else Ok (Some (ihl + 4, None, None, None)))"

definition ipv4_packet :: "bytes \<Rightarrow> nat \<Rightarrow> nat \<Rightarrow> ip_packet option res" where
  "ipv4_packet buf ihl total_length =
     (if total_length < ihl \<or> length buf < total_length then Ok None else
      if length buf < ihl + 4 then Ok None else
      and_then (idx buf 9) (\<lambda>proto.
      opt_then (ipv4_transport buf ihl (total_length - ihl) proto) (\<lambda>(payload_offset, seq, ack, flags).
      and_then (be32_at buf 12) (\<lambda>src.
      and_then (be32_at buf 16) (\<lambda>dst.
      and_then (be16_at buf ihl) (\<lambda>src_port.
      and_then (be16_at buf (ihl + 2)) (\<lambda>dst_port.
      Ok (Some \<lparr>pk_src = V4 src, pk_dst = V4 dst, pk_src_port = src_port, pk_dst_port = dst_port,
                pk_protocol = classify proto, pk_header_len = ihl, pk_payload_offset = payload_offset,
                pk_transport_offset = ihl, pk_payload_len = total_length - payload_offset,
                pk_tcp_seq = seq, pk_tcp_ack = ack, pk_tcp_flags = flags\<rparr>))))))))"

definition parse_ipv4 :: "bytes \<Rightarrow> ip_packet option res" where
  "parse_ipv4 buf =
     (if length buf < 20 then Ok None else
      and_then (idx buf 0) (\<lambda>b0.
      let ihl = unat (b0 AND 0x0F) * 4 in
      if ihl < 20 then Ok None else
      and_then (be16_at buf 2) (\<lambda>total_length. ipv4_packet buf ihl (unat total_length))))"

section \<open>IPv6\<close>

text \<open>The walk over the extension headers ends at a transport header, at an unknown header, or with
  \<^verbatim>\<open>None\<close> when a header does not fit.\<close>

datatype ext_end = AtTransport u8 nat | AtUnknown u8 nat

definition is_extension :: "u8 \<Rightarrow> bool" where
  "is_extension h = (h \<in> {0, 43, 60, 135, 139, 140, 253, 254})"

function ext_walk :: "bytes \<Rightarrow> nat \<Rightarrow> u8 \<Rightarrow> nat \<Rightarrow> ext_end option res" where
  "ext_walk buf total_length next_hdr offset =
     (if next_hdr = 6 \<or> next_hdr = 17 \<or> next_hdr = 58 then Ok (Some (AtTransport next_hdr offset))
      else if is_extension next_hdr then
        if offset + 2 > total_length then Ok None
        else case idx buf offset of
            Ok h \<Rightarrow> (case idx buf (offset + 1) of
                Ok l \<Rightarrow> ext_walk buf total_length h (offset + (unat l + 1) * 8)
              | Err e \<Rightarrow> Err e | Panic \<Rightarrow> Panic)
          | Err e \<Rightarrow> Err e | Panic \<Rightarrow> Panic
      else if next_hdr = 44 then
        if offset + 8 > total_length then Ok None
        else case idx buf offset of
            Ok h \<Rightarrow> ext_walk buf total_length h (offset + 8)
          | Err e \<Rightarrow> Err e | Panic \<Rightarrow> Panic
      else Ok (Some (AtUnknown next_hdr offset)))"
  by pat_completeness auto
termination by (relation "measure (\<lambda>(buf, total_length, h, offset). total_length - offset)") auto

declare ext_walk.simps [simp del]

definition ipv6_transport :: "bytes \<Rightarrow> nat \<Rightarrow> nat \<Rightarrow> u8 \<Rightarrow> transport_fields option res" where
  "ipv6_transport buf offset transport_len next_hdr =
     (if next_hdr = 6 then
        if transport_len < 20 \<or> offset + 13 > length buf then Ok None
        else
          and_then (be32_at buf (offset + 4)) (\<lambda>seq.
          and_then (be32_at buf (offset + 8)) (\<lambda>ack.
          and_then (idx buf (offset + 13)) (\<lambda>flags.
          and_then (idx buf (offset + 12)) (\<lambda>b.
          let data_offset = unat (drop_bit 4 b) * 4 in
          if data_offset < 20 \<or> transport_len < data_offset then Ok None
          else Ok (Some (offset + data_offset, Some seq, Some ack, Some flags))))))
      else if next_hdr = 17 then
        if transport_len < 8 \<or> offset + 6 > length buf then Ok None
        else
          and_then (be16_at buf (offset + 4)) (\<lambda>l.
          let udp_len = unat l in
          if udp_len < 8 \<or> udp_len > transport_len then Ok None
          else Ok (Some (offset + 8, None, None, None)))
      else Ok (Some (offset + 4, None, None, None)))"

definition ipv6_packet :: "bytes \<Rightarrow> u128 \<Rightarrow> u128 \<Rightarrow> nat \<Rightarrow> ext_end \<Rightarrow> ip_packet option res" where
  "ipv6_packet buf src dst total_length e =
     (case e of
        AtUnknown other offset \<Rightarrow>
          Ok (Some \<lparr>pk_src = V6 src, pk_dst = V6 dst, pk_src_port = 0, pk_dst_port = 0,
                    pk_protocol = TransOther other, pk_header_len = 40, pk_payload_offset = offset,
                    pk_transport_offset = offset, pk_payload_len = total_length - offset,
                    pk_tcp_seq = None, pk_tcp_ack = None, pk_tcp_flags = None\<rparr>)
      | AtTransport next_hdr offset \<Rightarrow>
          opt_then (ipv6_transport buf offset (total_length - offset) next_hdr) (\<lambda>(payload_offset, seq, ack, flags).
          if offset + 4 > length buf then Ok None else
          and_then (be16_at buf offset) (\<lambda>src_port.
          and_then (be16_at buf (offset + 2)) (\<lambda>dst_port.
          Ok (Some \<lparr>pk_src = V6 src, pk_dst = V6 dst, pk_src_port = src_port, pk_dst_port = dst_port,
                    pk_protocol = classify next_hdr, pk_header_len = 40, pk_payload_offset = payload_offset,
                    pk_transport_offset = offset, pk_payload_len = total_length - payload_offset,
                    pk_tcp_seq = seq, pk_tcp_ack = ack, pk_tcp_flags = flags\<rparr>)))))"

definition parse_ipv6 :: "bytes \<Rightarrow> ip_packet option res" where
  "parse_ipv6 buf =
     (if length buf < 40 then Ok None else
      and_then (be16_at buf 4) (\<lambda>payload_len.
      let total_length = 40 + unat payload_len in
      if length buf < total_length then Ok None else
      and_then (slice buf 8 24) (\<lambda>src.
      and_then (slice buf 24 40) (\<lambda>dst.
      and_then (idx buf 6) (\<lambda>next_hdr.
      opt_then (ext_walk buf total_length next_hdr 40) (\<lambda>e.
      ipv6_packet buf (from_be src) (from_be dst) total_length e))))))"

definition parse_ip_packet :: "bytes \<Rightarrow> ip_packet option res" where
  "parse_ip_packet buf =
     (if buf = [] then Ok None
      else and_then (idx buf 0) (\<lambda>b0.
        if drop_bit 4 b0 = 4 then parse_ipv4 buf
        else if drop_bit 4 b0 = 6 then parse_ipv6 buf
        else Ok None))"

section \<open>The internet checksum\<close>

fun checksum_accumulate :: "u32 \<Rightarrow> bytes \<Rightarrow> u32" where
  "checksum_accumulate s [] = s"
| "checksum_accumulate s [b] = s + push_bit 8 (ucast b)"
| "checksum_accumulate s (a # b # data) = checksum_accumulate (s + ucast (from_be [a, b] :: u16)) data"

lemma unat_low16: "unat (s AND 0xFFFF) = unat (s :: u32) mod 65536"
proof -
  have "s AND 0xFFFF = take_bit 16 s" by (simp add: take_bit_eq_mask mask_eq_exp_minus_1)
  then show ?thesis by (simp only: unsigned_take_bit_eq) (simp add: take_bit_eq_mod)
qed

lemma fold_step:
  "unat ((s AND 0xFFFF) + drop_bit 16 s) = unat (s :: u32) mod 65536 + unat s div 65536"
proof -
  have "unat s < 2 ^ 32" using unsigned_less [where ?'a = nat, of s] by simp
  then have "unat s div 65536 < 65536" by (simp add: less_mult_imp_div_less)
  moreover have "unat s mod 65536 < 65536" by simp
  ultimately have "unat s mod 65536 + unat s div 65536 < 4294967296" by linarith
  then show ?thesis by (simp add: unat_word_ariths unat_low16 unat_drop_bit)
qed

lemma fold_less: "65536 \<le> n \<Longrightarrow> n mod 65536 + n div 65536 < (n :: nat)"
proof -
  assume "65536 \<le> n"
  then have "0 < n div 65536" by (simp add: div_greater_zero_iff)
  moreover have "n = n div 65536 * 65536 + n mod 65536" by simp
  ultimately show ?thesis by linarith
qed

lemma high16_zero: "drop_bit 16 s = 0 \<longleftrightarrow> unat (s :: u32) < 65536"
  by (simp add: unat_eq_zero [symmetric] unat_drop_bit div_eq_0_iff)

function fold_carries :: "u32 \<Rightarrow> u32" where
  "fold_carries s = (if drop_bit 16 s \<noteq> 0 then fold_carries ((s AND 0xFFFF) + drop_bit 16 s) else s)"
  by pat_completeness auto
termination
  by (relation "measure unat") (auto simp: fold_step high16_zero not_less intro: fold_less)

declare fold_carries.simps [simp del]

definition checksum_finish :: "u32 \<Rightarrow> u16" where
  "checksum_finish s = (let checksum = NOT (ucast (fold_carries s)) in if checksum = 0 then 0xFFFF else checksum)"

definition internet_checksum :: "bytes \<Rightarrow> u16" where
  "internet_checksum data = checksum_finish (checksum_accumulate 0 data)"

text \<open>The pseudo-headers.\<close>

definition pseudo_ipv4 :: "u32 \<Rightarrow> u32 \<Rightarrow> u8 \<Rightarrow> bytes \<Rightarrow> bytes" where
  "pseudo_ipv4 src dst proto segment =
     to_be 4 src @ to_be 4 dst @ [0, proto] @ to_be 2 (word_of_nat (length segment) :: u16)"

definition pseudo_ipv6 :: "u128 \<Rightarrow> u128 \<Rightarrow> u8 \<Rightarrow> bytes \<Rightarrow> bytes" where
  "pseudo_ipv6 src dst proto segment =
     to_be 16 src @ to_be 16 dst @ to_be 4 (word_of_nat (length segment) :: u32) @ [0, 0, 0, proto]"

definition tcp_checksum_ipv4 :: "u32 \<Rightarrow> u32 \<Rightarrow> bytes \<Rightarrow> u16" where
  "tcp_checksum_ipv4 src dst segment =
     checksum_finish (checksum_accumulate (checksum_accumulate 0 (pseudo_ipv4 src dst 6 segment)) segment)"

definition tcp_checksum_ipv6 :: "u128 \<Rightarrow> u128 \<Rightarrow> bytes \<Rightarrow> u16" where
  "tcp_checksum_ipv6 src dst segment =
     checksum_finish (checksum_accumulate (checksum_accumulate 0 (pseudo_ipv6 src dst 6 segment)) segment)"

definition udp_checksum_ipv4 :: "u32 \<Rightarrow> u32 \<Rightarrow> bytes \<Rightarrow> u16" where
  "udp_checksum_ipv4 src dst segment =
     checksum_finish (checksum_accumulate (checksum_accumulate 0 (pseudo_ipv4 src dst 17 segment)) segment)"

definition udp_checksum_ipv6 :: "u128 \<Rightarrow> u128 \<Rightarrow> bytes \<Rightarrow> u16" where
  "udp_checksum_ipv6 src dst segment =
     checksum_finish (checksum_accumulate (checksum_accumulate 0 (pseudo_ipv6 src dst 17 segment)) segment)"

section \<open>Building packets\<close>

text \<open>\<open>put i bs\<close> is \<^verbatim>\<open>out[i..i + n].copy_from_slice(bs)\<close> for a range of the length of \<open>bs\<close>;
  \<open>put_tail\<close> is the copy to the end of the buffer, which panics when the lengths differ.\<close>

definition put :: "nat \<Rightarrow> bytes \<Rightarrow> bytes \<Rightarrow> bytes res" where
  "put i bs out =
     (if i + length bs \<le> length out then Ok (take i out @ bs @ drop (i + length bs) out) else Panic)"

definition put_tail :: "nat \<Rightarrow> bytes \<Rightarrow> bytes \<Rightarrow> bytes res" where
  "put_tail i bs out = (if i + length bs = length out then Ok (take i out @ bs) else Panic)"

definition some_packet :: "bytes res \<Rightarrow> bytes option res" where
  "some_packet r = and_then r (\<lambda>out. Ok (Some out))"

fun put_all :: "(nat \<times> bytes) list \<Rightarrow> bytes \<Rightarrow> bytes res" where
  "put_all [] out = Ok out"
| "put_all ((i, bs) # ws) out = and_then (put i bs out) (put_all ws)"

text \<open>The checksum fields are written from the buffer as it is at that point.\<close>

definition put_sum :: "nat \<Rightarrow> (bytes \<Rightarrow> u16) \<Rightarrow> (bytes \<Rightarrow> bytes res) \<Rightarrow> bytes \<Rightarrow> bytes res" where
  "put_sum i checksum part out = and_then (part out) (\<lambda>r. put i (to_be 2 (checksum r)) out)"

definition from_index :: "nat \<Rightarrow> bytes \<Rightarrow> bytes res" where
  "from_index i out = slice out i (length out)"

definition build_ipv4_tcp_rst :: "u32 \<Rightarrow> u32 \<Rightarrow> u16 \<Rightarrow> u16 \<Rightarrow> bytes option res" where
  "build_ipv4_tcp_rst src dst src_port dst_port =
     some_packet (
       and_then (put_all [(0, [0x45]), (2, to_be 2 (40 :: u16)), (8, [64]), (9, [6]),
                          (12, to_be 4 src), (16, to_be 4 dst)] (replicate 40 0)) (\<lambda>out.
       and_then (put_sum 10 internet_checksum (\<lambda>out. slice out 0 20) out) (\<lambda>out.
       and_then (put_all [(20, to_be 2 src_port), (22, to_be 2 dst_port), (32, [0x50]), (33, [0x04])] out) (\<lambda>out.
       put_sum 36 (tcp_checksum_ipv4 src dst) (from_index 20) out))))"

definition build_ipv6_tcp_rst :: "u128 \<Rightarrow> u128 \<Rightarrow> u16 \<Rightarrow> u16 \<Rightarrow> bytes option res" where
  "build_ipv6_tcp_rst src dst src_port dst_port =
     some_packet (
       and_then (put_all [(0, [0x60]), (4, to_be 2 (20 :: u16)), (6, [6]), (7, [64]),
                          (8, to_be 16 src), (24, to_be 16 dst),
                          (40, to_be 2 src_port), (42, to_be 2 dst_port), (52, [0x50]), (53, [0x04])]
                   (replicate 60 0)) (\<lambda>out.
       put_sum 56 (tcp_checksum_ipv6 src dst) (from_index 40) out))"

definition build_tcp_rst :: "ip_packet \<Rightarrow> bytes option res" where
  "build_tcp_rst request =
     (if pk_protocol request \<noteq> TransTcp then Ok None
      else case (pk_src request, pk_dst request) of
          (V4 src, V4 dst) \<Rightarrow> build_ipv4_tcp_rst dst src (pk_dst_port request) (pk_src_port request)
        | (V6 src, V6 dst) \<Rightarrow> build_ipv6_tcp_rst dst src (pk_dst_port request) (pk_src_port request)
        | _ \<Rightarrow> Ok None)"

text \<open>The options are padded to a multiple of four: \<^verbatim>\<open>(n + 3) & !3\<close>.\<close>

definition padded_options_len :: "bytes \<Rightarrow> nat" where
  "padded_options_len options = (length options + 3) div 4 * 4"

definition tcp_header_writes ::
  "nat \<Rightarrow> u16 \<Rightarrow> u16 \<Rightarrow> u32 \<Rightarrow> u32 \<Rightarrow> nat \<Rightarrow> u8 \<Rightarrow> u16 \<Rightarrow> (nat \<times> bytes) list" where
  "tcp_header_writes tcp src_port dst_port seq ack header_len flags window =
     [(tcp, to_be 2 src_port), (tcp + 2, to_be 2 dst_port), (tcp + 4, to_be 4 seq), (tcp + 8, to_be 4 ack),
      (tcp + 12, [push_bit 4 (word_of_nat (header_len div 4))]), (tcp + 13, [flags]), (tcp + 14, to_be 2 window)]"

definition put_options :: "nat \<Rightarrow> bytes \<Rightarrow> bytes \<Rightarrow> bytes res" where
  "put_options i options out = (if options \<noteq> [] then put i options out else Ok out)"

definition build_ipv4_tcp_packet ::
  "u32 \<Rightarrow> u32 \<Rightarrow> u16 \<Rightarrow> u16 \<Rightarrow> u32 \<Rightarrow> u32 \<Rightarrow> u8 \<Rightarrow> u16 \<Rightarrow> bytes \<Rightarrow> bytes \<Rightarrow> bytes option res" where
  "build_ipv4_tcp_packet src dst src_port dst_port seq ack flags window options payload =
     (let header_len = 20 + padded_options_len options;
          tcp_len = header_len + length payload;
          total_len = 20 + tcp_len in
      if total_len > 65535 \<or> tcp_len > 65535 then Ok None
      else some_packet (
        and_then (put_all [(0, [0x45]), (2, to_be 2 (word_of_nat total_len :: u16)), (8, [64]), (9, [6]),
                           (12, to_be 4 src), (16, to_be 4 dst)] (replicate total_len 0)) (\<lambda>out.
        and_then (put_sum 10 internet_checksum (\<lambda>out. slice out 0 20) out) (\<lambda>out.
        and_then (put_all (tcp_header_writes 20 src_port dst_port seq ack header_len flags window) out) (\<lambda>out.
        and_then (put_options 40 options out) (\<lambda>out.
        and_then (put_tail (20 + header_len) payload out) (\<lambda>out.
        put_sum 36 (tcp_checksum_ipv4 src dst) (from_index 20) out)))))))"

definition build_ipv6_tcp_packet ::
  "u128 \<Rightarrow> u128 \<Rightarrow> u16 \<Rightarrow> u16 \<Rightarrow> u32 \<Rightarrow> u32 \<Rightarrow> u8 \<Rightarrow> u16 \<Rightarrow> bytes \<Rightarrow> bytes \<Rightarrow> bytes option res" where
  "build_ipv6_tcp_packet src dst src_port dst_port seq ack flags window options payload =
     (let header_len = 20 + padded_options_len options;
          tcp_len = header_len + length payload in
      if tcp_len > 65535 then Ok None
      else some_packet (
        and_then (put_all [(0, [0x60]), (4, to_be 2 (word_of_nat tcp_len :: u16)), (6, [6]), (7, [64]),
                           (8, to_be 16 src), (24, to_be 16 dst)] (replicate (40 + tcp_len) 0)) (\<lambda>out.
        and_then (put_all (tcp_header_writes 40 src_port dst_port seq ack header_len flags window) out) (\<lambda>out.
        and_then (put_options 60 options out) (\<lambda>out.
        and_then (put_tail (40 + header_len) payload out) (\<lambda>out.
        put_sum 56 (tcp_checksum_ipv6 src dst) (from_index 40) out))))))"

record tcp_packet_spec =
  sp_src :: socket_addr
  sp_dst :: socket_addr
  sp_seq :: u32
  sp_ack :: u32
  sp_flags :: u8
  sp_window :: u16
  sp_options :: bytes
  sp_payload :: bytes

definition build_tcp_packet_with_options :: "tcp_packet_spec \<Rightarrow> bytes option res" where
  "build_tcp_packet_with_options sp =
     (case (sp_src sp, sp_dst sp) of
        ((V4 src, sport), (V4 dst, dport)) \<Rightarrow>
          build_ipv4_tcp_packet src dst sport dport (sp_seq sp) (sp_ack sp) (sp_flags sp) (sp_window sp)
            (sp_options sp) (sp_payload sp)
      | ((V6 src, sport), (V6 dst, dport)) \<Rightarrow>
          build_ipv6_tcp_packet src dst sport dport (sp_seq sp) (sp_ack sp) (sp_flags sp) (sp_window sp)
            (sp_options sp) (sp_payload sp)
      | _ \<Rightarrow> Ok None)"

definition build_tcp_packet ::
  "socket_addr \<Rightarrow> socket_addr \<Rightarrow> u32 \<Rightarrow> u32 \<Rightarrow> u8 \<Rightarrow> bytes \<Rightarrow> bytes option res" where
  "build_tcp_packet src dst seq ack flags payload =
     (case (src, dst) of
        ((V4 s, sport), (V4 d, dport)) \<Rightarrow> build_ipv4_tcp_packet s d sport dport seq ack flags 65535 [] payload
      | ((V6 s, sport), (V6 d, dport)) \<Rightarrow> build_ipv6_tcp_packet s d sport dport seq ack flags 65535 [] payload
      | _ \<Rightarrow> Ok None)"

definition build_ipv4_udp_packet :: "u32 \<Rightarrow> u32 \<Rightarrow> u16 \<Rightarrow> u16 \<Rightarrow> bytes \<Rightarrow> bytes option res" where
  "build_ipv4_udp_packet src dst src_port dst_port payload =
     (let udp_len = 8 + length payload;
          total_len = 20 + udp_len in
      if udp_len > 65535 \<or> total_len > 65535 then Ok None
      else some_packet (
        and_then (put_all [(0, [0x45]), (2, to_be 2 (word_of_nat total_len :: u16)), (8, [64]), (9, [17]),
                           (12, to_be 4 src), (16, to_be 4 dst)] (replicate total_len 0)) (\<lambda>out.
        and_then (put_sum 10 internet_checksum (\<lambda>out. slice out 0 20) out) (\<lambda>out.
        and_then (put_all [(20, to_be 2 src_port), (22, to_be 2 dst_port),
                           (24, to_be 2 (word_of_nat udp_len :: u16))] out) (\<lambda>out.
        and_then (put_tail 28 payload out) (\<lambda>out.
        put_sum 26 (udp_checksum_ipv4 src dst) (from_index 20) out))))))"

definition build_ipv6_udp_packet :: "u128 \<Rightarrow> u128 \<Rightarrow> u16 \<Rightarrow> u16 \<Rightarrow> bytes \<Rightarrow> bytes option res" where
  "build_ipv6_udp_packet src dst src_port dst_port payload =
     (let udp_len = 8 + length payload;
          total_len = 40 + udp_len in
      if udp_len > 65535 then Ok None
      else some_packet (
        and_then (put_all [(0, [0x60]), (4, to_be 2 (word_of_nat udp_len :: u16)), (6, [17]), (7, [64]),
                           (8, to_be 16 src), (24, to_be 16 dst),
                           (40, to_be 2 src_port), (42, to_be 2 dst_port),
                           (44, to_be 2 (word_of_nat udp_len :: u16))] (replicate total_len 0)) (\<lambda>out.
        and_then (put_tail 48 payload out) (\<lambda>out.
        put_sum 46 (udp_checksum_ipv6 src dst) (from_index 40) out))))"

definition build_udp_response_packet :: "ip_packet \<Rightarrow> bytes \<Rightarrow> bytes option res" where
  "build_udp_response_packet request payload =
     (if pk_protocol request \<noteq> TransUdp then Ok None
      else case (pk_src request, pk_dst request) of
          (V4 src, V4 dst) \<Rightarrow> build_ipv4_udp_packet dst src (pk_dst_port request) (pk_src_port request) payload
        | (V6 src, V6 dst) \<Rightarrow> build_ipv6_udp_packet dst src (pk_dst_port request) (pk_src_port request) payload
        | _ \<Rightarrow> Ok None)"

section \<open>The parser stays inside the buffer\<close>

lemma be16_at_in [simp]: "i + 1 < length buf \<Longrightarrow> be16_at buf i = Ok (from_be [buf ! i, buf ! (i + 1)])"
  by (simp add: be16_at_def)

lemma be32_at_in [simp]:
  "i + 3 < length buf \<Longrightarrow> be32_at buf i = Ok (from_be [buf ! i, buf ! (i + 1), buf ! (i + 2), buf ! (i + 3)])"
  by (simp add: be32_at_def)

lemma opt_then_simps [simp]:
  "opt_then (Ok None) f = Ok None" "opt_then (Ok (Some v)) f = f v" "opt_then Panic f = Panic" "opt_then (Err e) f = Err e"
  by (simp_all add: opt_then_def)

text \<open>What a parsed packet promises about the buffer it was parsed from.\<close>

definition fields_ok :: "transport_protocol \<Rightarrow> nat \<Rightarrow> nat \<Rightarrow> transport_fields \<Rightarrow> bool" where
  "fields_ok proto start stop fs =
     (case fs of (po, seq, ack, flags) \<Rightarrow>
        (case proto of
           TransTcp \<Rightarrow> start + 20 \<le> po \<and> po \<le> stop \<and> seq \<noteq> None \<and> ack \<noteq> None \<and> flags \<noteq> None
         | TransUdp \<Rightarrow> po = start + 8 \<and> po \<le> stop \<and> seq = None \<and> ack = None \<and> flags = None
         | TransOther _ \<Rightarrow> start \<le> po \<and> seq = None \<and> ack = None \<and> flags = None))"

definition packet_ok :: "ip_packet \<Rightarrow> bytes \<Rightarrow> bool" where
  "packet_ok p buf \<longleftrightarrow>
     pk_header_len p \<le> pk_transport_offset p \<and>
     fields_ok (pk_protocol p) (pk_transport_offset p) (length buf)
       (pk_payload_offset p, pk_tcp_seq p, pk_tcp_ack p, pk_tcp_flags p) \<and>
     (case pk_protocol p of
        TransOther _ \<Rightarrow> True
      | _ \<Rightarrow> packet_payload p buf = Some (take (pk_payload_len p) (drop (pk_payload_offset p) buf)) \<and>
            pk_payload_offset p + pk_payload_len p \<le> length buf)"

lemma ipv4_transport_ok:
  "ihl + n \<le> length buf \<Longrightarrow>
     \<exists>r. ipv4_transport buf ihl n proto = Ok r \<and>
       (case r of None \<Rightarrow> True | Some fs \<Rightarrow> fields_ok (classify proto) ihl (ihl + n) fs)"
  by (auto simp: ipv4_transport_def fields_ok_def classify_def Let_def)

lemma ipv6_transport_ok:
  "n = stop - offset \<Longrightarrow> stop \<le> length buf \<Longrightarrow>
     \<exists>r. ipv6_transport buf offset n proto = Ok r \<and>
       (case r of None \<Rightarrow> True | Some fs \<Rightarrow> fields_ok (classify proto) offset stop fs)"
  by (auto simp: ipv6_transport_def fields_ok_def classify_def Let_def)

lemma ext_walk_ok:
  "total_length \<le> length buf \<Longrightarrow>
     \<exists>r. ext_walk buf total_length h offset = Ok r \<and>
       (case r of None \<Rightarrow> True | Some (AtTransport h' o') \<Rightarrow> offset \<le> o' \<and> h' \<in> {6, 17, 58}
        | Some (AtUnknown _ o') \<Rightarrow> offset \<le> o')"
proof (induction buf total_length h offset rule: ext_walk.induct)
  case (1 buf total_length h offset)
  show ?case
  proof (cases "h = 6 \<or> h = 17 \<or> h = 58")
    case True then show ?thesis by (subst ext_walk.simps) auto
  next
    case no: False
    show ?thesis
    proof (cases "is_extension h")
      case True
      then show ?thesis
      proof (cases "offset + 2 > total_length")
        case True then show ?thesis using no \<open>is_extension h\<close> by (subst ext_walk.simps) auto
      next
        case False
        then have reads: "idx buf offset = Ok (buf ! offset)" "idx buf (offset + 1) = Ok (buf ! (offset + 1))"
          using 1(3) by auto
        then have "ext_walk buf total_length h offset =
            ext_walk buf total_length (buf ! offset) (offset + (unat (buf ! (offset + 1)) + 1) * 8)"
          using no True False by (subst ext_walk.simps) simp
        moreover obtain r where "ext_walk buf total_length (buf ! offset) (offset + (unat (buf ! (offset + 1)) + 1) * 8) = Ok r"
          "case r of None \<Rightarrow> True | Some (AtTransport h' o') \<Rightarrow> offset + (unat (buf ! (offset + 1)) + 1) * 8 \<le> o' \<and> h' \<in> {6, 17, 58}
            | Some (AtUnknown _ o') \<Rightarrow> offset + (unat (buf ! (offset + 1)) + 1) * 8 \<le> o'"
          using 1(1) [OF no True False reads 1(3)] by blast
        ultimately show ?thesis by (auto split: option.splits ext_end.splits)
      qed
    next
      case ext: False
      show ?thesis
      proof (cases "h = 44 \<and> \<not> offset + 8 > total_length")
        case True
        then have read: "idx buf offset = Ok (buf ! offset)" using 1(3) by auto
        then have "ext_walk buf total_length h offset = ext_walk buf total_length (buf ! offset) (offset + 8)"
          using no ext True by (subst ext_walk.simps) simp
        moreover obtain r where "ext_walk buf total_length (buf ! offset) (offset + 8) = Ok r"
          "case r of None \<Rightarrow> True | Some (AtTransport h' o') \<Rightarrow> offset + 8 \<le> o' \<and> h' \<in> {6, 17, 58}
            | Some (AtUnknown _ o') \<Rightarrow> offset + 8 \<le> o'"
          using 1(2) [OF no ext _ _ read 1(3)] True by blast
        ultimately show ?thesis by (auto split: option.splits ext_end.splits)
      next
        case False then show ?thesis using no ext by (subst ext_walk.simps) auto
      qed
    qed
  qed
qed

text \<open>The postcondition of the parsing functions: they return, and a parsed packet is in order.\<close>

definition parses_ok :: "bytes \<Rightarrow> ip_packet option res \<Rightarrow> bool" where
  "parses_ok buf res = (case res of Ok None \<Rightarrow> True | Ok (Some p) \<Rightarrow> packet_ok p buf | _ \<Rightarrow> False)"

lemma ipv4_packet_ok:
  assumes "20 \<le> length buf" "20 \<le> ihl"
  shows "parses_ok buf (ipv4_packet buf ihl tot)"
proof (cases "tot < ihl \<or> length buf < tot \<or> length buf < ihl + 4")
  case True then show ?thesis by (auto simp: ipv4_packet_def parses_ok_def)
next
  case False
  then have reads: "idx buf 9 = Ok (buf ! 9)" "be32_at buf 12 = Ok (from_be [buf ! 12, buf ! 13, buf ! 14, buf ! 15])"
    "be32_at buf 16 = Ok (from_be [buf ! 16, buf ! 17, buf ! 18, buf ! 19])"
    "be16_at buf ihl = Ok (from_be [buf ! ihl, buf ! (ihl + 1)])"
    "be16_at buf (ihl + 2) = Ok (from_be [buf ! (ihl + 2), buf ! (ihl + 2 + 1)])"
    using assms by (auto simp: idx_def be16_at_def be32_at_def)
  obtain r where "ipv4_transport buf ihl (tot - ihl) (buf ! 9) = Ok r"
    "case r of None \<Rightarrow> True | Some fs \<Rightarrow> fields_ok (classify (buf ! 9)) ihl (ihl + (tot - ihl)) fs"
    using ipv4_transport_ok [of ihl "tot - ihl" buf "buf ! 9"] False by auto
  then show ?thesis using False reads
    by (cases r) (auto simp: ipv4_packet_def parses_ok_def packet_ok_def fields_ok_def packet_payload_def
        slice_get_def split: transport_protocol.splits)
qed

lemma parse_ipv4_ok: "parses_ok buf (parse_ipv4 buf)"
proof (cases "length buf < 20")
  case True then show ?thesis by (simp add: parse_ipv4_def parses_ok_def)
next
  case False
  then have "idx buf 0 = Ok (buf ! 0)" "be16_at buf 2 = Ok (from_be [buf ! 2, buf ! (2 + 1)])"
    by (auto simp: idx_def be16_at_def)
  then show ?thesis using False
    by (auto simp: parse_ipv4_def Let_def parses_ok_def [of _ "Ok None"] intro!: ipv4_packet_ok)
qed

lemma ipv6_packet_ok:
  assumes "40 \<le> length buf" "tot \<le> length buf"
    and "case e of AtTransport h off \<Rightarrow> 40 \<le> off \<and> h \<in> {6, 17, 58} | AtUnknown _ off \<Rightarrow> 40 \<le> off"
  shows "parses_ok buf (ipv6_packet buf src dst tot e)"
proof (cases e)
  case (AtUnknown h off)
  then show ?thesis using assms(3)
    by (simp add: ipv6_packet_def parses_ok_def packet_ok_def fields_ok_def)
next
  case (AtTransport h off)
  obtain r where r: "ipv6_transport buf off (tot - off) h = Ok r"
    "case r of None \<Rightarrow> True | Some fs \<Rightarrow> fields_ok (classify h) off tot fs"
    using ipv6_transport_ok [OF refl assms(2)] by blast
  show ?thesis
  proof (cases "off + 4 > length buf")
    case True then show ?thesis using r(1) AtTransport
      by (cases r) (auto simp: ipv6_packet_def parses_ok_def)
  next
    case False
    then have "be16_at buf off = Ok (from_be [buf ! off, buf ! (off + 1)])"
      "be16_at buf (off + 2) = Ok (from_be [buf ! (off + 2), buf ! (off + 2 + 1)])"
      by (auto simp: idx_def be16_at_def)
    then show ?thesis using r False AtTransport assms
      by (cases r) (auto simp: ipv6_packet_def parses_ok_def packet_ok_def fields_ok_def packet_payload_def
          slice_get_def split: transport_protocol.splits)
  qed
qed

lemma parse_ipv6_ok: "parses_ok buf (parse_ipv6 buf)"
proof (cases "length buf < 40 \<or> length buf < 40 + unat (from_be [buf ! 4, buf ! (4 + 1)] :: u16)")
  case True
  have "parse_ipv6 buf = Ok None"
  proof (cases "length buf < 40")
    case False
    then have "be16_at buf 4 = Ok (from_be [buf ! 4, buf ! (4 + 1)])" by (intro be16_at_in) simp
    then show ?thesis using True False by (simp only: parse_ipv6_def Let_def and_then.simps if_True if_False simp_thms)
  qed (simp add: parse_ipv6_def)
  then show ?thesis by (simp add: parses_ok_def)
next
  case False
  let ?tot = "40 + unat (from_be [buf ! 4, buf ! (4 + 1)] :: u16)"
  from False have reads: "be16_at buf 4 = Ok (from_be [buf ! 4, buf ! (4 + 1)])" "idx buf 6 = Ok (buf ! 6)"
    "slice buf 8 24 = Ok (take 16 (drop 8 buf))" "slice buf 24 40 = Ok (take 16 (drop 24 buf))"
    by (auto simp: idx_def be16_at_def slice_def)
  obtain r where "ext_walk buf ?tot (buf ! 6) 40 = Ok r"
    "case r of None \<Rightarrow> True | Some (AtTransport h' o') \<Rightarrow> 40 \<le> o' \<and> h' \<in> {6, 17, 58} | Some (AtUnknown _ o') \<Rightarrow> 40 \<le> o'"
    using ext_walk_ok [of ?tot buf "buf ! 6" 40] False by auto
  then have p: "parse_ipv6 buf = opt_then (Ok r) (ipv6_packet buf (from_be (take 16 (drop 8 buf))) (from_be (take 16 (drop 24 buf))) ?tot)"
    and e: "case r of None \<Rightarrow> True | Some e \<Rightarrow> (case e of AtTransport h off \<Rightarrow> 40 \<le> off \<and> h \<in> {6, 17, 58} | AtUnknown _ off \<Rightarrow> 40 \<le> off)"
    using False by (auto simp only: parse_ipv6_def Let_def reads and_then.simps if_False de_Morgan_disj split: option.splits ext_end.splits)
  show ?thesis
  proof (cases r)
    case None then show ?thesis using p by (simp add: parses_ok_def)
  next
    case (Some x)
    then show ?thesis using p e ipv6_packet_ok [of buf ?tot x] False by (simp only: opt_then_simps option.case) simp
  qed
qed

lemma parse_ip_packet_ok: "parses_ok buf (parse_ip_packet buf)"
  using parse_ipv4_ok [of buf] parse_ipv6_ok [of buf]
  by (cases buf) (auto simp: parse_ip_packet_def parses_ok_def [of _ "Ok None"])

text \<open>C23: the packet parser never indexes out of range, whatever the TUN device delivers.  A packet it
  reports as TCP or UDP has a complete transport header and a payload inside the buffer, its payload
  slice exists, and the TCP fields are present exactly for TCP.\<close>

theorem tun_parser_stays_in_bounds:
  "case parse_ip_packet buf of Ok None \<Rightarrow> True | Ok (Some p) \<Rightarrow> packet_ok p buf | _ \<Rightarrow> False"
  using parse_ip_packet_ok [of buf] by (simp add: parses_ok_def)

section \<open>Checksums\<close>

text \<open>The sum of the 16-bit words of a byte string without overflow, and what a receiver checks.\<close>

fun words_sum :: "bytes \<Rightarrow> nat" where
  "words_sum [] = 0"
| "words_sum [b] = 256 * unat b"
| "words_sum (a # b # data) = 256 * unat a + unat b + words_sum data"

definition receiver_accepts :: "bytes \<Rightarrow> bool" where
  "receiver_accepts data \<longleftrightarrow> fold_carries (checksum_accumulate 0 data) = 0xFFFF"

lemma unat_be16: "unat (from_be [a, b] :: u16) = 256 * unat a + unat b"
proof -
  define w :: u16 where "w = word_of_nat (256 * unat a + unat b)"
  have u: "unat w = 256 * unat a + unat b"
    unfolding w_def using unat_u8_less [of a] unat_u8_less [of b] by (intro unat_of_nat_u16) linarith
  have "unat (ucast w :: u8) = unat b" "unat (ucast (drop_bit 8 w) :: u8) = unat a"
    using unat_u8_less [of a] unat_u8_less [of b] by (simp_all add: unsigned_ucast_eq take_bit_eq_mod unat_drop_bit u)
  then have "ucast w = b" "ucast (drop_bit 8 w) = a" by (simp_all only: word_unat_eq_iff)
  then have "to_be 2 w = [a, b]" by (simp add: numeral_2_eq_2)
  then have "from_be [a, b] = w" using from_be_to_be [of 2 w] by simp
  then show ?thesis using u by simp
qed

lemma words_sum_bound: "words_sum data \<le> 65535 * ((length data + 1) div 2)"
proof (induction data rule: words_sum.induct)
  case (2 b)
  have "unat b < 256" by simp
  then have "256 * unat b \<le> 65535" by linarith
  then show ?case by simp
next
  case (3 a b data)
  have "unat a < 256" "unat b < 256" by simp_all
  then have "256 * unat a + unat b \<le> 65535" by linarith
  then show ?case using 3 by simp
qed simp

lemma words_sum_append: "even (length xs) \<Longrightarrow> words_sum (xs @ ys) = words_sum xs + words_sum ys"
  by (induction xs rule: words_sum.induct) auto

lemma unat_accumulate:
  "unat s + words_sum data < 2 ^ 32 \<Longrightarrow> unat (checksum_accumulate s data) = unat s + words_sum data"
proof (induction s data rule: checksum_accumulate.induct)
  case (2 s b)
  have "unat (push_bit 8 (ucast b :: u32)) = 256 * unat b"
  proof -
    have "unat b < 256" by simp
    then have "unat b < 4294967296" "unat b * 256 < 4294967296" by linarith+
    then have "unat b mod 4294967296 = unat b" "unat b * 256 mod 4294967296 = unat b * 256" by (simp_all only: mod_less)
    then show ?thesis by (simp add: push_bit_eq_mult unat_word_ariths unsigned_ucast_eq take_bit_eq_mod)
  qed
  then show ?case using 2 by (simp add: unat_word_ariths)
next
  case (3 s a b data)
  have "unat (ucast (from_be [a, b] :: u16) :: u32) = 256 * unat a + unat b"
  proof -
    have "unat (from_be [a, b] :: u16) < 65536" by (rule unat_u16_less)
    then have "unat (from_be [a, b] :: u16) < 4294967296" by linarith
    then have "take_bit 32 (unat (from_be [a, b] :: u16)) = unat (from_be [a, b] :: u16)"
      by (subst take_bit_nat_eq_self_iff) simp
    then show ?thesis by (simp add: unat_be16 [symmetric] unsigned_ucast_eq)
  qed
  then have "unat (s + ucast (from_be [a, b] :: u16)) = unat s + (256 * unat a + unat b)"
    using 3(2) by (simp add: unat_word_ariths)
  then show ?case using 3 by simp
qed simp

lemma fold_carries_spec:
  "unat (fold_carries s) < 65536 \<and> unat (fold_carries s) mod 65535 = unat s mod 65535 \<and>
   (fold_carries s = 0 \<longleftrightarrow> s = 0)"
proof (induction s rule: fold_carries.induct)
  case (1 s)
  show ?case
  proof (cases "drop_bit 16 s = 0")
    case True
    then have "fold_carries s = s" by (simp add: fold_carries.simps [of s])
    then show ?thesis using True by (simp add: high16_zero)
  next
    case False
    let ?t = "(s AND 0xFFFF) + drop_bit 16 s"
    have f: "fold_carries s = fold_carries ?t" using False by (subst fold_carries.simps) simp
    have "unat s = unat s div 65536 * 65536 + unat s mod 65536" by simp
    then have "unat s = unat ?t + 65535 * (unat s div 65536)" using fold_step [of s] by linarith
    then have m: "unat ?t mod 65535 = unat s mod 65535" by (metis mod_mult_self2)
    have "unat ?t \<noteq> 0" using False unfolding fold_step by (simp add: high16_zero div_greater_zero_iff)
    then have "?t \<noteq> 0" "s \<noteq> 0" using False by auto
    then show ?thesis using 1 [OF False] m f by simp
  qed
qed

lemma checksum_finish_spec:
  "(unat s + unat (checksum_finish s)) mod 65535 = 0 \<and> checksum_finish s \<noteq> 0"
proof -
  let ?f = "fold_carries s"
  have f: "unat ?f < 65536" "unat ?f mod 65535 = unat s mod 65535" using fold_carries_spec [of s] by blast+
  have u: "unat (ucast ?f :: u16) = unat ?f" using f(1) by (simp add: unsigned_ucast_eq take_bit_eq_mod)
  have n: "unat (NOT (ucast ?f :: u16)) = 65535 - unat ?f"
  proof -
    have "NOT (ucast ?f :: u16) = - 1 - ucast ?f" by (simp add: not_eq_complement)
    then have "unat (NOT (ucast ?f :: u16)) = unat (- 1 :: u16) - unat (ucast ?f :: u16)"
      by (simp only: unat_sub [OF word_n1_ge])
    then show ?thesis using u by (simp add: unsigned_minus_1_eq_mask mask_eq_exp_minus_1)
  qed
  have "(unat ?f + unat (checksum_finish s)) mod 65535 = 0 \<and> unat (checksum_finish s) \<noteq> 0"
  proof (cases "NOT (ucast ?f :: u16) = 0")
    case True
    then have "unat ?f = 65535" using n f(1) by simp
    then show ?thesis using True by (simp add: checksum_finish_def)
  next
    case False
    then have "unat (NOT (ucast ?f :: u16)) \<noteq> 0" by (simp add: unat_eq_zero)
    then show ?thesis using False n f(1) by (simp add: checksum_finish_def)
  qed
  then show ?thesis using f(2) by (metis mod_add_left_eq unat_0)
qed

lemma receiver_accepts_iff:
  assumes "words_sum data < 2 ^ 32"
  shows "receiver_accepts data \<longleftrightarrow> words_sum data mod 65535 = 0 \<and> words_sum data \<noteq> 0"
proof -
  let ?s = "checksum_accumulate 0 data"
  have s: "unat ?s = words_sum data" using unat_accumulate [of 0 data] assms by simp
  have f: "unat (fold_carries ?s) < 65536" "unat (fold_carries ?s) mod 65535 = words_sum data mod 65535"
    "fold_carries ?s = 0 \<longleftrightarrow> words_sum data = 0"
    using fold_carries_spec [of ?s] s by (auto simp: unat_eq_zero [symmetric])
  have "fold_carries ?s = 0xFFFF \<longleftrightarrow> unat (fold_carries ?s) = 65535" by (simp add: word_unat_eq_iff)
  also have "\<dots> \<longleftrightarrow> unat (fold_carries ?s) mod 65535 = 0 \<and> unat (fold_carries ?s) \<noteq> 0"
    using f(1) by auto
  finally show ?thesis using f by (simp add: receiver_accepts_def unat_eq_zero)
qed

lemma length2E:
  assumes "length xs = 2"
  obtains a b where "xs = [a, b]"
  using assms by (auto simp: numeral_2_eq_2 length_Suc_conv)

lemma words_sum_be: "words_sum (to_be 2 (w :: u16)) = unat w"
proof -
  have "length (to_be 2 w) = 2" by simp
  then obtain a b where ab: "to_be 2 w = [a, b]" by (elim length2E)
  then have "from_be [a, b] = w" using from_be_to_be [of 2 w] by simp
  then show ?thesis using ab unat_be16 [of a b] by simp
qed

text \<open>Writing the checksum of the pseudo-header and the segment into a zero field of the segment at an
  even position makes the receiver accept.\<close>

lemma checksum_field_accepted:
  assumes "even (length hdr)" "even (length pre)" "length hdr + length pre + length post \<le> 131000"
  shows "receiver_accepts (hdr @ pre @
     to_be 2 (checksum_finish (checksum_accumulate (checksum_accumulate 0 hdr) (pre @ [0, 0] @ post))) @ post)"
proof -
  let ?seg = "pre @ [0, 0] @ post"
  let ?c = "checksum_finish (checksum_accumulate (checksum_accumulate 0 hdr) ?seg)"
  let ?data = "hdr @ pre @ to_be 2 ?c @ post"
  have bound: "words_sum xs < 2 ^ 32" if "length xs \<le> 131002" for xs
  proof -
    have "65535 * ((length xs + 1) div 2) \<le> 65535 * 65501" using that by (intro mult_le_mono) auto
    then show ?thesis using words_sum_bound [of xs] by simp
  qed
  have s: "words_sum (hdr @ ?seg) = words_sum hdr + (words_sum pre + words_sum post)"
    using assms by (simp add: words_sum_append)
  have hs: "words_sum hdr + words_sum ?seg < 2 ^ 32"
    using bound [of "hdr @ ?seg"] assms by (simp add: words_sum_append)
  then have "unat (checksum_accumulate 0 hdr) = words_sum hdr" using unat_accumulate [of 0 hdr] by simp
  then have acc: "unat (checksum_accumulate (checksum_accumulate 0 hdr) ?seg) = words_sum hdr + words_sum ?seg"
    using unat_accumulate [of "checksum_accumulate 0 hdr" ?seg] hs by simp
  have d: "words_sum ?data = words_sum hdr + words_sum ?seg + unat ?c"
    using assms by (simp add: words_sum_append words_sum_be)
  then have "words_sum ?data mod 65535 = 0" "words_sum ?data \<noteq> 0"
    using checksum_finish_spec [of "checksum_accumulate (checksum_accumulate 0 hdr) ?seg"] acc
    by (simp_all add: unat_eq_zero)
  then show ?thesis using receiver_accepts_iff [of ?data] bound [of ?data] assms by simp
qed

section \<open>Wire formats\<close>

text \<open>The formats of RFC 791, RFC 8200, RFC 9293 and RFC 768 as far as the runtime uses them, with the
  checksum field as the argument \<open>k\<close>: the specification of the packet builders.\<close>

definition ipv4_header :: "u8 \<Rightarrow> nat \<Rightarrow> u16 \<Rightarrow> u32 \<Rightarrow> u32 \<Rightarrow> bytes" where
  "ipv4_header proto len k src dst =
     [0x45, 0] @ to_be 2 (word_of_nat len :: u16) @ [0, 0, 0, 0, 64, proto] @ to_be 2 k @ to_be 4 src @ to_be 4 dst"

definition ipv6_header :: "u8 \<Rightarrow> nat \<Rightarrow> u128 \<Rightarrow> u128 \<Rightarrow> bytes" where
  "ipv6_header proto len src dst =
     [0x60, 0, 0, 0] @ to_be 2 (word_of_nat len :: u16) @ [proto, 64] @ to_be 16 src @ to_be 16 dst"

definition udp_segment :: "u16 \<Rightarrow> u16 \<Rightarrow> u16 \<Rightarrow> bytes \<Rightarrow> bytes" where
  "udp_segment sport dport k payload =
     to_be 2 sport @ to_be 2 dport @ to_be 2 (word_of_nat (8 + length payload) :: u16) @ to_be 2 k @ payload"

definition padded_options :: "bytes \<Rightarrow> bytes" where
  "padded_options options = options @ replicate (padded_options_len options - length options) 0"

definition tcp_segment ::
  "u16 \<Rightarrow> u16 \<Rightarrow> u32 \<Rightarrow> u32 \<Rightarrow> u8 \<Rightarrow> u16 \<Rightarrow> u16 \<Rightarrow> bytes \<Rightarrow> bytes \<Rightarrow> bytes" where
  "tcp_segment sport dport seq ack flags window k options payload =
     to_be 2 sport @ to_be 2 dport @ to_be 4 seq @ to_be 4 ack @
     [push_bit 4 (word_of_nat ((20 + padded_options_len options) div 4)), flags] @
     to_be 2 window @ to_be 2 k @ [0, 0] @ padded_options options @ payload"

lemma wire_lengths [simp]:
  "length (ipv4_header proto len k s d) = 20" "length (ipv6_header proto len s6 d6) = 40"
  "length (udp_segment sport dport k payload) = 8 + length payload"
  by (simp_all add: ipv4_header_def ipv6_header_def udp_segment_def)

lemma padded_options_len_ge: "length options \<le> padded_options_len options"
  unfolding padded_options_len_def by linarith

lemma length_padded_options [simp]: "length (padded_options options) = padded_options_len options"
  using padded_options_len_ge [of options] by (simp add: padded_options_def)

lemma length_tcp_segment [simp]:
  "length (tcp_segment sport dport seq ack flags window k options payload) =
     20 + padded_options_len options + length payload"
  by (simp add: tcp_segment_def)

subsection \<open>Evaluation of the builders\<close>

text \<open>A write into a buffer that is known in three parts.\<close>

lemma put_parts: "i = length a \<Longrightarrow> length bs = length b \<Longrightarrow> put i bs (a @ b @ c) = Ok (a @ bs @ c)"
  by (simp add: put_def)

lemma put_tail_parts: "i = length a \<Longrightarrow> length bs = length b \<Longrightarrow> put_tail i bs (a @ b) = Ok (a @ bs)"
  by (simp add: put_tail_def)

lemma replicate_split: "replicate (m + n) x = replicate m x @ replicate n x"
  by (simp add: replicate_add)

lemma to_be_zero [simp]: "to_be n 0 = replicate n 0"
  by (induction n) (simp_all add: replicate_append_same)

lemma zeros_ipv4: "replicate (20 + n) 0 = [0 :: u8, 0] @ [0, 0] @ [0, 0, 0, 0, 0, 0] @ [0, 0] @ [0, 0, 0, 0] @ [0, 0, 0, 0] @ replicate n 0"
  by (simp add: replicate_add numeral_eq_Suc)

lemma put_ipv4_header:
  "and_then (put_all [(0, [0x45]), (2, to_be 2 (word_of_nat len :: u16)), (8, [64]), (9, [proto]),
                      (12, to_be 4 src), (16, to_be 4 dst)] (replicate (20 + n) 0))
     (\<lambda>out. put_sum 10 internet_checksum (\<lambda>out. slice out 0 20) out) =
   Ok (ipv4_header proto len (internet_checksum (ipv4_header proto len 0 src dst)) src dst @ replicate n 0)"
proof -
  have "length (to_be 2 (word_of_nat len :: u16)) = 2" "length (to_be 4 src) = 4" "length (to_be 4 dst) = 4" by simp_all
  then show ?thesis
    unfolding zeros_ipv4
    by (simp add: put_def put_sum_def slice_def ipv4_header_def eval_nat_numeral)
qed

lemma put_all_append: "put_all (ws @ ws') out = and_then (put_all ws out) (put_all ws')"
proof (induction ws arbitrary: out)
  case (Cons w ws) then show ?case by (cases w; cases "put (fst w) (snd w) out") simp_all
qed simp

lemma put_ipv6_header:
  "put_all [(0, [0x60]), (4, to_be 2 (word_of_nat len :: u16)), (6, [proto]), (7, [64]),
            (8, to_be 16 src), (24, to_be 16 dst)] (replicate (40 + n) 0) =
   Ok (ipv6_header proto len src dst @ replicate n 0)"
proof -
  have z: "replicate (40 + n) 0 =
      [0 :: u8, 0, 0, 0] @ [0, 0] @ [0, 0] @ replicate 16 0 @ replicate 16 0 @ replicate n 0"
    by (simp add: replicate_add numeral_eq_Suc)
  have "put 8 (to_be 16 src) ([0x60, 0, 0, 0] @ to_be 2 (word_of_nat len :: u16) @ [proto, 64] @ replicate 16 0 @ replicate 16 0 @ replicate n 0) =
      Ok ([0x60, 0, 0, 0] @ to_be 2 (word_of_nat len :: u16) @ [proto, 64] @ to_be 16 src @ replicate 16 0 @ replicate n 0)"
    using put_parts [of 8 "[0x60, 0, 0, 0] @ to_be 2 (word_of_nat len :: u16) @ [proto, 64]" "to_be 16 src" "replicate 16 0"] by simp
  moreover have "put 24 (to_be 16 dst) ([0x60, 0, 0, 0] @ to_be 2 (word_of_nat len :: u16) @ [proto, 64] @ to_be 16 src @ replicate 16 0 @ replicate n 0) =
      Ok ([0x60, 0, 0, 0] @ to_be 2 (word_of_nat len :: u16) @ [proto, 64] @ to_be 16 src @ to_be 16 dst @ replicate n 0)"
    using put_parts [of 24 "[0x60, 0, 0, 0] @ to_be 2 (word_of_nat len :: u16) @ [proto, 64] @ to_be 16 src" "to_be 16 dst" "replicate 16 0"] by simp
  moreover have h: "put_all [(0, [0x60]), (4, to_be 2 (word_of_nat len :: u16)), (6, [proto]), (7, [64])]
        ([0 :: u8, 0, 0, 0] @ [0, 0] @ [0, 0] @ rest) =
      Ok ([0x60, 0, 0, 0] @ to_be 2 (word_of_nat len :: u16) @ [proto, 64] @ rest)" for rest
    by (simp add: put_def eval_nat_numeral)
  ultimately have "put_all [(8, to_be 16 src), (24, to_be 16 dst)]
      ([0x60, 0, 0, 0] @ to_be 2 (word_of_nat len :: u16) @ [proto, 64] @ replicate 16 0 @ replicate 16 0 @ replicate n 0) =
      Ok (ipv6_header proto len src dst @ replicate n 0)" by (simp add: ipv6_header_def)
  then have "put_all ([(0, [0x60]), (4, to_be 2 (word_of_nat len :: u16)), (6, [proto]), (7, [64])] @
      [(8, to_be 16 src), (24, to_be 16 dst)]) (replicate (40 + n) 0) = Ok (ipv6_header proto len src dst @ replicate n 0)"
    unfolding z put_all_append h and_then.simps .
  then show ?thesis by simp
qed

text \<open>Writes behind a header.\<close>

lemma put_shift: "put (length hdr + i) bs (hdr @ out) = and_then (put i bs out) (\<lambda>out. Ok (hdr @ out))"
  by (simp add: put_def)

lemma put_all_shift:
  "put_all (map (\<lambda>(i, bs). (length hdr + i, bs)) ws) (hdr @ out) = and_then (put_all ws out) (\<lambda>out. Ok (hdr @ out))"
proof (induction ws arbitrary: out)
  case (Cons w ws)
  then show ?case by (cases w) (simp add: put_shift and_then_assoc)
qed simp

lemma put_tail_shift: "put_tail (length hdr + i) bs (hdr @ out) = and_then (put_tail i bs out) (\<lambda>out. Ok (hdr @ out))"
  by (simp add: put_tail_def)

lemma put_sum_shift:
  "put_sum (length hdr + i) f (from_index (length hdr)) (hdr @ out) =
     and_then (put i (to_be 2 (f out)) out) (\<lambda>out. Ok (hdr @ out))"
  by (simp add: put_sum_def from_index_def slice_def put_shift)

lemma put_udp_segment:
  "and_then (put_all [(0, to_be 2 sport), (2, to_be 2 dport), (4, to_be 2 (word_of_nat (8 + length payload) :: u16))]
       (replicate (8 + length payload) 0)) (\<lambda>out. put_tail 8 payload out) =
   Ok (udp_segment sport dport 0 payload)"
  by (simp add: put_def put_tail_def udp_segment_def replicate_add eval_nat_numeral)

lemma put_udp_checksum:
  "put 6 (to_be 2 k) (udp_segment sport dport 0 payload) = Ok (udp_segment sport dport k payload)"
  by (simp add: put_def udp_segment_def eval_nat_numeral)

lemma tcp_header_writes_shift:
  "tcp_header_writes n sport dport seq ack hl flags window =
     map (\<lambda>(i, bs). (n + i, bs)) (tcp_header_writes 0 sport dport seq ack hl flags window)"
  by (simp add: tcp_header_writes_def)

lemma put_tcp_fields:
  "put_all [(0, to_be 2 (sport :: u16)), (2, to_be 2 (dport :: u16)), (4, to_be 4 (seq :: u32)), (8, to_be 4 (ack :: u32)),
      (12, [off]), (13, [flags]), (14, to_be 2 (window :: u16))]
     ([0 :: u8, 0, 0, 0, 0, 0, 0, 0, 0, 0, 0, 0, 0, 0, 0, 0, 0, 0, 0, 0] @ rest) =
   Ok ((to_be 2 sport @ to_be 2 dport @ to_be 4 seq @ to_be 4 ack @ [off, flags] @ to_be 2 window @ [0, 0] @ [0, 0]) @ rest)"
  by (simp add: put_def eval_nat_numeral)

lemma put_tcp_segment:
  "and_then (put_all (tcp_header_writes 0 sport dport seq ack (20 + padded_options_len options) flags window)
       (replicate (20 + padded_options_len options + length payload) 0)) (\<lambda>out.
   and_then (put_options 20 options out) (\<lambda>out. put_tail (20 + padded_options_len options) payload out)) =
   Ok (tcp_segment sport dport seq ack flags window 0 options payload)"
proof -
  let ?pl = "padded_options_len options"
  let ?h = "to_be 2 sport @ to_be 2 dport @ to_be 4 seq @ to_be 4 ack @
     [push_bit 4 (word_of_nat ((20 + ?pl) div 4)), flags] @ to_be 2 window @ [0, 0] @ [0, 0]"
  have z: "replicate (20 + ?pl + length payload) 0 =
      [0 :: u8, 0, 0, 0, 0, 0, 0, 0, 0, 0, 0, 0, 0, 0, 0, 0, 0, 0, 0, 0] @ replicate ?pl 0 @ replicate (length payload) 0"
    by (simp add: replicate_add numeral_eq_Suc)
  have h: "put_all (tcp_header_writes 0 sport dport seq ack (20 + ?pl) flags window)
      ([0 :: u8, 0, 0, 0, 0, 0, 0, 0, 0, 0, 0, 0, 0, 0, 0, 0, 0, 0, 0, 0] @ rest) = Ok (?h @ rest)" for rest
    unfolding tcp_header_writes_def add_0 by (rule put_tcp_fields)
  have pad: "replicate ?pl (0 :: u8) = replicate (length options) 0 @ replicate (?pl - length options) 0"
    using padded_options_len_ge [of options] by (simp add: replicate_add [symmetric])
  have "put_options 20 options (?h @ replicate ?pl 0 @ rest) = Ok (?h @ padded_options options @ rest)" for rest
  proof (cases "options = []")
    case True then show ?thesis by (simp add: put_options_def padded_options_def padded_options_len_def)
  next
    case False
    then show ?thesis
      using put_parts [of 20 ?h options "replicate (length options) 0" "replicate (?pl - length options) 0 @ rest"]
      by (simp add: put_options_def padded_options_def pad)
  qed
  moreover have "put_tail (20 + ?pl) payload ((?h @ padded_options options) @ replicate (length payload) 0) =
      Ok ((?h @ padded_options options) @ payload)"
    by (rule put_tail_parts) simp_all
  moreover have "(?h @ padded_options options) @ payload = tcp_segment sport dport seq ack flags window 0 options payload"
    by (simp add: tcp_segment_def numeral_2_eq_2)
  ultimately show ?thesis unfolding z h and_then.simps by (simp only: and_then.simps append_assoc)
qed

lemma put_tcp_checksum:
  "put 16 (to_be 2 k) (tcp_segment sport dport seq ack flags window 0 options payload) =
     Ok (tcp_segment sport dport seq ack flags window k options payload)"
proof -
  have "to_be 2 (0 :: u16) = [0, 0]" by (simp add: numeral_2_eq_2)
  then show ?thesis
    using put_parts [of 16 "to_be 2 sport @ to_be 2 dport @ to_be 4 seq @ to_be 4 ack @
        [push_bit 4 (word_of_nat ((20 + padded_options_len options) div 4)), flags] @ to_be 2 window"
        "to_be 2 k" "[0, 0]" "[0, 0] @ padded_options options @ payload"]
    unfolding tcp_segment_def by (simp del: to_be_zero)
qed

text \<open>Both headers are followed by a segment that is written field by field behind them.\<close>

lemma put_udp_behind:
  assumes "length hdr = n"
  shows "\<exists>out. put_all [(n, to_be 2 sport), (n + 2, to_be 2 dport), (n + 4, to_be 2 (word_of_nat (8 + length payload) :: u16))]
        (hdr @ replicate (8 + length payload) 0) = Ok out \<and>
      put_tail (n + 8) payload out = Ok (hdr @ udp_segment sport dport 0 payload)"
proof -
  obtain out where o: "put_all [(0, to_be 2 sport), (2, to_be 2 dport), (4, to_be 2 (word_of_nat (8 + length payload) :: u16))]
      (replicate (8 + length payload) 0) = Ok out" "put_tail 8 payload out = Ok (udp_segment sport dport 0 payload)"
    using put_udp_segment [of sport dport payload] by (auto simp only: and_then_Ok_iff)
  then show ?thesis
    using put_all_shift [of hdr "[(0, to_be 2 sport), (2, to_be 2 dport), (4, to_be 2 (word_of_nat (8 + length payload) :: u16))]"
        "replicate (8 + length payload) 0"] put_tail_shift [of hdr 8 payload out] assms
    by (simp only: list.map prod.case and_then.simps add_0_right) simp
qed

lemma put_tcp_behind:
  assumes "length hdr = n"
  shows "\<exists>o1 o2. put_all (tcp_header_writes n sport dport seq ack (20 + padded_options_len options) flags window)
        (hdr @ replicate (20 + padded_options_len options + length payload) 0) = Ok o1 \<and>
      put_options (n + 20) options o1 = Ok o2 \<and>
      put_tail (n + (20 + padded_options_len options)) payload o2 =
        Ok (hdr @ tcp_segment sport dport seq ack flags window 0 options payload)"
proof -
  let ?pl = "padded_options_len options"
  obtain o1 o2 where o: "put_all (tcp_header_writes 0 sport dport seq ack (20 + ?pl) flags window)
      (replicate (20 + ?pl + length payload) 0) = Ok o1" "put_options 20 options o1 = Ok o2"
    "put_tail (20 + ?pl) payload o2 = Ok (tcp_segment sport dport seq ack flags window 0 options payload)"
    using put_tcp_segment [of sport dport seq ack options flags window payload] by (auto simp only: and_then_Ok_iff)
  have "put_all (tcp_header_writes n sport dport seq ack (20 + ?pl) flags window)
      (hdr @ replicate (20 + ?pl + length payload) 0) = Ok (hdr @ o1)"
    using put_all_shift [of hdr] o(1) assms by (simp only: tcp_header_writes_shift [of n] and_then.simps)
  moreover have "put_options (n + 20) options (hdr @ o1) = Ok (hdr @ o2)"
    using o(2) put_shift [of hdr 20 options o1] assms by (auto simp: put_options_def split: if_splits)
  moreover have "put_tail (n + (20 + ?pl)) payload (hdr @ o2) = Ok (hdr @ tcp_segment sport dport seq ack flags window 0 options payload)"
    using o(3) put_tail_shift [of hdr "20 + ?pl" payload o2] assms by (simp only: and_then.simps)
  ultimately show ?thesis by blast
qed

lemma put_sum_behind:
  assumes "length hdr = n"
  shows "put_sum (n + i) f (from_index n) (hdr @ out) = and_then (put i (to_be 2 (f out)) out) (\<lambda>out. Ok (hdr @ out))"
  using put_sum_shift [of hdr i f out] assms by simp

lemma build_ipv4_udp_packet_wire:
  assumes "28 + length payload \<le> 65535"
  shows "build_ipv4_udp_packet src dst sport dport payload =
     Ok (Some (ipv4_header 17 (28 + length payload) (internet_checksum (ipv4_header 17 (28 + length payload) 0 src dst)) src dst @
       udp_segment sport dport (udp_checksum_ipv4 src dst (udp_segment sport dport 0 payload)) payload))"
proof -
  let ?len = "28 + length payload"
  define hdr where "hdr = ipv4_header 17 ?len (internet_checksum (ipv4_header 17 ?len 0 src dst)) src dst"
  have l: "length hdr = 20" by (simp add: hdr_def)
  have e: "20 + (8 + length payload) = ?len" by simp
  obtain o1 where o1: "put_all [(0, [0x45]), (2, to_be 2 (word_of_nat ?len :: u16)), (8, [64]), (9, [17]),
        (12, to_be 4 src), (16, to_be 4 dst)] (replicate ?len 0) = Ok o1"
      "put_sum 10 internet_checksum (\<lambda>out. slice out 0 20) o1 = Ok (hdr @ replicate (8 + length payload) 0)"
    using put_ipv4_header [of ?len 17 src dst "8 + length payload", folded hdr_def, unfolded e]
    by (auto simp only: and_then_Ok_iff)
  obtain o2 where o2: "put_all [(20, to_be 2 sport), (22, to_be 2 dport), (24, to_be 2 (word_of_nat (8 + length payload) :: u16))]
        (hdr @ replicate (8 + length payload) 0) = Ok o2" "put_tail 28 payload o2 = Ok (hdr @ udp_segment sport dport 0 payload)"
    using put_udp_behind [OF l, of sport dport payload] by (auto simp del: put_all.simps)
  note s = put_sum_behind [OF l, of 6 "udp_checksum_ipv4 src dst" "udp_segment sport dport 0 payload"]
  have "\<not> (8 + length payload > 65535 \<or> ?len > 65535)" using assms by simp
  then show ?thesis
    using s by (simp only: build_ipv4_udp_packet_def Let_def e hdr_def [symmetric] if_False o1 o2 and_then.simps
        put_udp_checksum some_packet_def) simp
qed

lemma build_ipv6_udp_packet_wire:
  assumes "8 + length payload \<le> 65535"
  shows "build_ipv6_udp_packet src dst sport dport payload =
     Ok (Some (ipv6_header 17 (8 + length payload) src dst @
       udp_segment sport dport (udp_checksum_ipv6 src dst (udp_segment sport dport 0 payload)) payload))"
proof -
  let ?hdr = "ipv6_header 17 (8 + length payload) src dst"
  have l: "length ?hdr = 40" by simp
  obtain o2 where o2: "put_all [(40, to_be 2 sport), (42, to_be 2 dport), (44, to_be 2 (word_of_nat (8 + length payload) :: u16))]
        (?hdr @ replicate (8 + length payload) 0) = Ok o2" "put_tail 48 payload o2 = Ok (?hdr @ udp_segment sport dport 0 payload)"
    using put_udp_behind [OF l, of sport dport payload] by (auto simp del: put_all.simps)
  have o1: "put_all [(0, [0x60]), (4, to_be 2 (word_of_nat (8 + length payload) :: u16)), (6, [17]), (7, [64]),
      (8, to_be 16 src), (24, to_be 16 dst), (40, to_be 2 sport), (42, to_be 2 dport),
      (44, to_be 2 (word_of_nat (8 + length payload) :: u16))] (replicate (40 + (8 + length payload)) 0) = Ok o2"
    using put_all_append [of "[(0, [0x60]), (4, to_be 2 (word_of_nat (8 + length payload) :: u16)), (6, [17]), (7, [64]),
      (8, to_be 16 src), (24, to_be 16 dst)]" "[(40, to_be 2 sport), (42, to_be 2 dport),
      (44, to_be 2 (word_of_nat (8 + length payload) :: u16))]" "replicate (40 + (8 + length payload)) 0"]
      put_ipv6_header [of "8 + length payload" 17 src dst "8 + length payload"] o2(1)
    by (simp only: append.simps and_then.simps)
  note s = put_sum_behind [OF l, of 6 "udp_checksum_ipv6 src dst" "udp_segment sport dport 0 payload"]
  have "\<not> 8 + length payload > 65535" using assms by simp
  then show ?thesis
    using s by (simp only: build_ipv6_udp_packet_def Let_def if_False o1 o2 and_then.simps put_udp_checksum some_packet_def) simp
qed

lemma build_ipv4_tcp_packet_wire:
  fixes options payload :: bytes
  defines "len \<equiv> 40 + padded_options_len options + length payload"
  assumes "len \<le> 65535"
  shows "build_ipv4_tcp_packet src dst sport dport seq ack flags window options payload =
     Ok (Some (ipv4_header 6 len (internet_checksum (ipv4_header 6 len 0 src dst)) src dst @
       tcp_segment sport dport seq ack flags window
         (tcp_checksum_ipv4 src dst (tcp_segment sport dport seq ack flags window 0 options payload)) options payload))"
proof -
  let ?hl = "20 + padded_options_len options"
  let ?seg = "\<lambda>k. tcp_segment sport dport seq ack flags window k options payload"
  define hdr where "hdr = ipv4_header 6 len (internet_checksum (ipv4_header 6 len 0 src dst)) src dst"
  have l: "length hdr = 20" by (simp add: hdr_def)
  have e: "20 + (?hl + length payload) = len" by (simp add: len_def)
  obtain o1 where o1: "put_all [(0, [0x45]), (2, to_be 2 (word_of_nat len :: u16)), (8, [64]), (9, [6]),
        (12, to_be 4 src), (16, to_be 4 dst)] (replicate len 0) = Ok o1"
      "put_sum 10 internet_checksum (\<lambda>out. slice out 0 20) o1 = Ok (hdr @ replicate (?hl + length payload) 0)"
    using put_ipv4_header [of len 6 src dst "?hl + length payload", folded hdr_def, unfolded e]
    by (auto simp only: and_then_Ok_iff)
  obtain o2 o3 where o2: "put_all (tcp_header_writes 20 sport dport seq ack ?hl flags window)
        (hdr @ replicate (?hl + length payload) 0) = Ok o2" "put_options 40 options o2 = Ok o3"
      "put_tail (20 + ?hl) payload o3 = Ok (hdr @ ?seg 0)"
    using put_tcp_behind [OF l, of sport dport seq ack options flags window payload] by (auto simp del: put_all.simps)
  note s = put_sum_behind [OF l, of 16 "tcp_checksum_ipv4 src dst" "?seg 0"]
  have "\<not> (len > 65535 \<or> ?hl + length payload > 65535)" using assms by simp
  then show ?thesis
    using s by (simp only: build_ipv4_tcp_packet_def Let_def e hdr_def [symmetric] if_False o1 o2 and_then.simps
        put_tcp_checksum some_packet_def) simp
qed

lemma build_ipv6_tcp_packet_wire:
  fixes options payload :: bytes
  defines "len \<equiv> 20 + padded_options_len options + length payload"
  assumes "len \<le> 65535"
  shows "build_ipv6_tcp_packet src dst sport dport seq ack flags window options payload =
     Ok (Some (ipv6_header 6 len src dst @
       tcp_segment sport dport seq ack flags window
         (tcp_checksum_ipv6 src dst (tcp_segment sport dport seq ack flags window 0 options payload)) options payload))"
proof -
  let ?hl = "20 + padded_options_len options"
  let ?seg = "\<lambda>k. tcp_segment sport dport seq ack flags window k options payload"
  let ?hdr = "ipv6_header 6 len src dst"
  have l: "length ?hdr = 40" by simp
  have e: "?hl + length payload = len" by (simp add: len_def)
  obtain o2 o3 where o2: "put_all (tcp_header_writes 40 sport dport seq ack ?hl flags window)
        (?hdr @ replicate len 0) = Ok o2" "put_options 60 options o2 = Ok o3"
      "put_tail (40 + ?hl) payload o3 = Ok (?hdr @ ?seg 0)"
    using put_tcp_behind [OF l, of sport dport seq ack options flags window payload, unfolded e] by (auto simp del: put_all.simps)
  note s = put_sum_behind [OF l, of 16 "tcp_checksum_ipv6 src dst" "?seg 0"]
  have "\<not> len > 65535" using assms by simp
  then show ?thesis
    using s by (simp only: build_ipv6_tcp_packet_def Let_def e if_False put_ipv6_header o2 and_then.simps
        put_tcp_checksum some_packet_def) simp
qed

subsection \<open>Parsing the wire formats\<close>

text \<open>From here on reads are evaluated by the facts about the wire formats.\<close>

lemma length4E:
  assumes "length xs = 4"
  obtains a b c d where "xs = [a, b, c, d]"
  using assms by (auto simp: numeral_eq_Suc length_Suc_conv)

text \<open>The fixed header fields of a packet followed by any segment.\<close>

lemma be16_at_append: "i = length xs \<Longrightarrow> be16_at (xs @ to_be 2 (w :: u16) @ ys) i = Ok w"
proof -
  assume i: "i = length xs"
  have "length (to_be 2 w) = 2" by simp
  then obtain a b where ab: "to_be 2 w = [a, b]" by (elim length2E)
  then have "from_be [a, b] = w" using from_be_to_be [of 2 w] by simp
  then show ?thesis using ab i by (simp add: nth_append)
qed

lemma be32_at_append: "i = length xs \<Longrightarrow> be32_at (xs @ to_be 4 (w :: u32) @ ys) i = Ok w"
proof -
  assume i: "i = length xs"
  have "length (to_be 4 w) = 4" by simp
  then obtain a b c d where ab: "to_be 4 w = [a, b, c, d]" by (elim length4E)
  then have "from_be [a, b, c, d] = w" using from_be_to_be [of 4 w] by simp
  then show ?thesis using ab i by (simp add: nth_append)
qed

lemma idx_append: "i = length xs \<Longrightarrow> idx (xs @ b # ys) i = Ok b"
  by (simp add: nth_append)

declare be16_at_in [simp del] be32_at_in [simp del] idx_in [simp del]

lemma reads_behind:
  assumes "length hdr = n"
  shows "be16_at (hdr @ seg) (n + i) = be16_at seg i" "be32_at (hdr @ seg) (n + i) = be32_at seg i"
    "idx (hdr @ seg) (n + i) = idx seg i"
  using assms by (auto simp: be16_at_def be32_at_def idx_def nth_append)

lemma ipv4_header_reads:
  assumes "len \<le> 65535"
  shows "idx (ipv4_header proto len k s d @ seg) 0 = Ok 0x45"
    "be16_at (ipv4_header proto len k s d @ seg) 2 = Ok (word_of_nat len)"
    "idx (ipv4_header proto len k s d @ seg) 9 = Ok proto"
    "be32_at (ipv4_header proto len k s d @ seg) 12 = Ok s"
    "be32_at (ipv4_header proto len k s d @ seg) 16 = Ok d"
  using idx_append [of 0 "[]"] be16_at_append [of 2 "[0x45, 0]" "word_of_nat len"]
    idx_append [of 9 "[0x45, 0] @ to_be 2 (word_of_nat len :: u16) @ [0, 0, 0, 0, 64]"]
    be32_at_append [of 12 "[0x45, 0] @ to_be 2 (word_of_nat len :: u16) @ [0, 0, 0, 0, 64, proto] @ to_be 2 k" s]
    be32_at_append [of 16 "[0x45, 0] @ to_be 2 (word_of_nat len :: u16) @ [0, 0, 0, 0, 64, proto] @ to_be 2 k @ to_be 4 s" d]
  by (simp_all add: ipv4_header_def)

lemma parse_ipv4_header:
  assumes "20 + length seg = len" "len \<le> 65535"
  shows "parse_ip_packet (ipv4_header proto len k s d @ seg) = ipv4_packet (ipv4_header proto len k s d @ seg) 20 len"
proof -
  have "ipv4_header proto len k s d \<noteq> []" "\<not> length (ipv4_header proto len k s d @ seg) < 20" by (auto simp: ipv4_header_def)
  then show ?thesis
    using assms(2) by (simp add: parse_ip_packet_def parse_ipv4_def ipv4_header_reads Let_def del: length_append)
qed

lemma udp_segment_reads:
  assumes "8 + length payload \<le> 65535"
  shows "be16_at (udp_segment sport dport k payload) 0 = Ok sport" "be16_at (udp_segment sport dport k payload) 2 = Ok dport"
    "be16_at (udp_segment sport dport k payload) 4 = Ok (word_of_nat (8 + length payload))"
  using be16_at_append [of 0 "[]" sport] be16_at_append [of 2 "to_be 2 sport" dport]
    be16_at_append [of 4 "to_be 2 sport @ to_be 2 dport" "word_of_nat (8 + length payload)"]
  by (simp_all add: udp_segment_def)

definition data_offset_byte :: "bytes \<Rightarrow> u8" where
  "data_offset_byte options = push_bit 4 (word_of_nat ((20 + padded_options_len options) div 4))"

lemma tcp_segment_reads:
  "be16_at (tcp_segment sport dport seq ack flags window k options payload) 0 = Ok sport"
  "be16_at (tcp_segment sport dport seq ack flags window k options payload) 2 = Ok dport"
  "be32_at (tcp_segment sport dport seq ack flags window k options payload) 4 = Ok seq"
  "be32_at (tcp_segment sport dport seq ack flags window k options payload) 8 = Ok ack"
  "idx (tcp_segment sport dport seq ack flags window k options payload) 12 = Ok (data_offset_byte options)"
  "idx (tcp_segment sport dport seq ack flags window k options payload) 13 = Ok flags"
  "be16_at (tcp_segment sport dport seq ack flags window k options payload) 14 = Ok window"
  using be16_at_append [of 0 "[]" sport] be16_at_append [of 2 "to_be 2 sport" dport]
    be32_at_append [of 4 "to_be 2 sport @ to_be 2 dport" seq] be32_at_append [of 8 "to_be 2 sport @ to_be 2 dport @ to_be 4 seq" ack]
    idx_append [of 12 "to_be 2 sport @ to_be 2 dport @ to_be 4 seq @ to_be 4 ack" "data_offset_byte options"]
    idx_append [of 13 "to_be 2 sport @ to_be 2 dport @ to_be 4 seq @ to_be 4 ack @ [data_offset_byte options]" flags]
    be16_at_append [of 14 "to_be 2 sport @ to_be 2 dport @ to_be 4 seq @ to_be 4 ack @ [data_offset_byte options, flags]" window]
  by (simp_all add: tcp_segment_def data_offset_byte_def)

lemma data_offset:
  assumes "length options \<le> 40"
  shows "unat (drop_bit 4 (data_offset_byte options)) * 4 = 20 + padded_options_len options"
proof -
  define q where "q = 5 + (length options + 3) div 4"
  have q: "(20 + padded_options_len options) div 4 = q" "q < 16"
    using assms by (simp_all add: padded_options_len_def q_def)
  have "unat (push_bit 4 (word_of_nat q :: u8)) = q * 16"
    using q(2) by (simp add: push_bit_eq_mult unat_word_ariths)
  then show ?thesis unfolding data_offset_byte_def q(1)
    by (simp add: unat_drop_bit) (simp add: q_def padded_options_len_def)
qed

text \<open>What the parser reports for a packet in wire format; the payload slice is the payload.\<close>

definition tcp_report :: "ip_addr \<Rightarrow> ip_addr \<Rightarrow> u16 \<Rightarrow> u16 \<Rightarrow> u32 \<Rightarrow> u32 \<Rightarrow> u8 \<Rightarrow> nat \<Rightarrow> nat \<Rightarrow> bytes \<Rightarrow> ip_packet" where
  "tcp_report src dst sport dport seq ack flags hdr opts payload =
     \<lparr>pk_src = src, pk_dst = dst, pk_src_port = sport, pk_dst_port = dport, pk_protocol = TransTcp,
      pk_header_len = hdr, pk_payload_offset = hdr + (20 + opts), pk_transport_offset = hdr,
      pk_payload_len = length payload, pk_tcp_seq = Some seq, pk_tcp_ack = Some ack, pk_tcp_flags = Some flags\<rparr>"

definition udp_report :: "ip_addr \<Rightarrow> ip_addr \<Rightarrow> u16 \<Rightarrow> u16 \<Rightarrow> nat \<Rightarrow> bytes \<Rightarrow> ip_packet" where
  "udp_report src dst sport dport hdr payload =
     \<lparr>pk_src = src, pk_dst = dst, pk_src_port = sport, pk_dst_port = dport, pk_protocol = TransUdp,
      pk_header_len = hdr, pk_payload_offset = hdr + 8, pk_transport_offset = hdr,
      pk_payload_len = length payload, pk_tcp_seq = None, pk_tcp_ack = None, pk_tcp_flags = None\<rparr>"

lemma parse_ipv4_udp:
  assumes "28 + length payload \<le> 65535"
  shows "parse_ip_packet (ipv4_header 17 (28 + length payload) k s d @ udp_segment sport dport k' payload) =
     Ok (Some (udp_report (V4 s) (V4 d) sport dport 20 payload))"
proof -
  let ?hdr = "ipv4_header 17 (28 + length payload) k s d"
  note r = reads_behind [of ?hdr 20 "udp_segment sport dport k' payload"]
  have u: "unat (word_of_nat (8 + length payload) :: u16) = 8 + length payload" using assms by (intro unat_of_nat_u16) simp
  have "ipv4_transport (?hdr @ udp_segment sport dport k' payload) 20 (8 + length payload) 17 = Ok (Some (28, None, None, None))"
    using r(1) [of 4] udp_segment_reads(3) [of payload] assms u by (simp add: ipv4_transport_def)
  then show ?thesis
    using assms r(1) [of 0] r(1) [of 2] udp_segment_reads [of payload]
    by (simp add: parse_ipv4_header ipv4_packet_def ipv4_header_reads classify_def udp_report_def)
qed

lemma parse_ipv4_tcp:
  fixes options payload :: bytes
  defines "len \<equiv> 40 + padded_options_len options + length payload"
  assumes "len \<le> 65535" "length options \<le> 40"
  shows "parse_ip_packet (ipv4_header 6 len k s d @ tcp_segment sport dport seq ack flags window k' options payload) =
     Ok (Some (tcp_report (V4 s) (V4 d) sport dport seq ack flags 20 (padded_options_len options) payload))"
proof -
  let ?hdr = "ipv4_header 6 len k s d" and ?seg = "tcp_segment sport dport seq ack flags window k' options payload"
  note r = reads_behind [of ?hdr 20 ?seg]
  have "ipv4_transport (?hdr @ ?seg) 20 (20 + (padded_options_len options + length payload)) 6 =
      Ok (Some (20 + (20 + padded_options_len options), Some seq, Some ack, Some flags))"
    using r(2) [of 4] r(2) [of 8] r(3) [of 12] r(3) [of 13] data_offset [OF assms(3)]
    by (simp add: ipv4_transport_def tcp_segment_reads Let_def)
  then show ?thesis
    using assms r(1) [of 0] r(1) [of 2]
    by (simp add: parse_ipv4_header ipv4_packet_def ipv4_header_reads tcp_segment_reads classify_def tcp_report_def
        add.assoc)
qed

lemma ipv6_header_reads:
  "idx (ipv6_header proto len s d @ seg) 0 = Ok 0x60"
  "be16_at (ipv6_header proto len s d @ seg) 4 = Ok (word_of_nat len)"
  "idx (ipv6_header proto len s d @ seg) 6 = Ok proto"
  "slice (ipv6_header proto len s d @ seg) 8 24 = Ok (to_be 16 s)"
  "slice (ipv6_header proto len s d @ seg) 24 40 = Ok (to_be 16 d)"
  using idx_append [of 0 "[]"] be16_at_append [of 4 "[0x60, 0, 0, 0]" "word_of_nat len"]
    idx_append [of 6 "[0x60, 0, 0, 0] @ to_be 2 (word_of_nat len :: u16)"]
  by (simp_all add: ipv6_header_def slice_def)

lemma parse_ipv6_header:
  assumes "length seg = len" "len \<le> 65535" "proto = 6 \<or> proto = 17"
  shows "parse_ip_packet (ipv6_header proto len s d @ seg) =
     ipv6_packet (ipv6_header proto len s d @ seg) s d (40 + len) (AtTransport proto 40)"
proof -
  have "ipv6_header proto len s d \<noteq> []" by (auto simp: ipv6_header_def)
  moreover have "ext_walk (ipv6_header proto len s d @ seg) (40 + len) proto 40 = Ok (Some (AtTransport proto 40))"
    using assms(3) by (subst ext_walk.simps) auto
  ultimately show ?thesis
    using assms by (simp add: parse_ip_packet_def parse_ipv6_def ipv6_header_reads Let_def)
qed

lemma parse_ipv6_udp:
  assumes "8 + length payload \<le> 65535"
  shows "parse_ip_packet (ipv6_header 17 (8 + length payload) s d @ udp_segment sport dport k' payload) =
     Ok (Some (udp_report (V6 s) (V6 d) sport dport 40 payload))"
proof -
  let ?hdr = "ipv6_header 17 (8 + length payload) s d"
  note r = reads_behind [of ?hdr 40 "udp_segment sport dport k' payload"]
  have u: "unat (word_of_nat (8 + length payload) :: u16) = 8 + length payload" using assms by (intro unat_of_nat_u16) simp
  have "ipv6_transport (?hdr @ udp_segment sport dport k' payload) 40 (8 + length payload) 17 = Ok (Some (48, None, None, None))"
    using r(1) [of 4] udp_segment_reads(3) [of payload] assms u by (simp add: ipv6_transport_def)
  then show ?thesis
    using assms r(1) [of 0] r(1) [of 2] udp_segment_reads [of payload]
    by (simp add: parse_ipv6_header ipv6_packet_def classify_def udp_report_def)
qed

lemma parse_ipv6_tcp:
  fixes options payload :: bytes
  defines "len \<equiv> 20 + padded_options_len options + length payload"
  assumes "len \<le> 65535" "length options \<le> 40"
  shows "parse_ip_packet (ipv6_header 6 len s d @ tcp_segment sport dport seq ack flags window k' options payload) =
     Ok (Some (tcp_report (V6 s) (V6 d) sport dport seq ack flags 40 (padded_options_len options) payload))"
proof -
  let ?hdr = "ipv6_header 6 len s d" and ?seg = "tcp_segment sport dport seq ack flags window k' options payload"
  note r = reads_behind [of ?hdr 40 ?seg]
  have "ipv6_transport (?hdr @ ?seg) 40 (20 + (padded_options_len options + length payload)) 6 =
      Ok (Some (40 + (20 + padded_options_len options), Some seq, Some ack, Some flags))"
    using r(2) [of 4] r(2) [of 8] r(3) [of 12] r(3) [of 13] data_offset [OF assms(3)]
    by (simp add: ipv6_transport_def tcp_segment_reads Let_def)
  then show ?thesis
    using assms r(1) [of 0] r(1) [of 2]
    by (simp add: parse_ipv6_header ipv6_packet_def tcp_segment_reads classify_def tcp_report_def add.assoc)
qed

section \<open>Round trips and valid checksums\<close>

definition fits :: "nat \<Rightarrow> ip_addr \<Rightarrow> ip_addr \<Rightarrow> bool" where
  "fits seg_len src dst =
     (case (src, dst) of
        (V4 _, V4 _) \<Rightarrow> 20 + seg_len \<le> 65535
      | (V6 _, V6 _) \<Rightarrow> seg_len \<le> 65535
      | _ \<Rightarrow> False)"

definition ip_header_len :: "ip_addr \<Rightarrow> nat" where
  "ip_header_len a = (case a of V4 _ \<Rightarrow> 20 | V6 _ \<Rightarrow> 40)"

definition tcp_len_of :: "tcp_packet_spec \<Rightarrow> nat" where
  "tcp_len_of sp = 20 + padded_options_len (sp_options sp) + length (sp_payload sp)"

text \<open>What a receiver of the packet verifies: the header checksum of IPv4 and the checksum of the
  segment with its pseudo-header.\<close>

definition checksums_ok :: "ip_addr \<Rightarrow> ip_addr \<Rightarrow> u8 \<Rightarrow> bytes \<Rightarrow> bool" where
  "checksums_ok src dst proto raw =
     (case (src, dst) of
        (V4 s, V4 d) \<Rightarrow> receiver_accepts (take 20 raw) \<and>
          receiver_accepts (pseudo_ipv4 s d proto (drop 20 raw) @ drop 20 raw)
      | (V6 s, V6 d) \<Rightarrow> receiver_accepts (pseudo_ipv6 s d proto (drop 40 raw) @ drop 40 raw)
      | _ \<Rightarrow> False)"

lemma ipv4_header_accepted:
  "receiver_accepts (ipv4_header proto len (internet_checksum (ipv4_header proto len 0 s d)) s d)"
proof -
  let ?pre = "[0x45, 0] @ to_be 2 (word_of_nat len :: u16) @ [0, 0, 0, 0, 64, proto]"
  have z: "to_be 2 (0 :: u16) = [0, 0]" by (simp add: numeral_2_eq_2)
  have h: "ipv4_header proto len 0 s d = ?pre @ [0, 0] @ to_be 4 s @ to_be 4 d"
    unfolding ipv4_header_def z by simp
  show ?thesis
    using checksum_field_accepted [of "[]" ?pre "to_be 4 s @ to_be 4 d"]
    unfolding internet_checksum_def h by (simp add: ipv4_header_def)
qed

lemma udp_segment_accepted:
  assumes "even (length hdr)" "length hdr + length payload \<le> 130000"
  shows "receiver_accepts (hdr @ udp_segment sport dport
     (checksum_finish (checksum_accumulate (checksum_accumulate 0 hdr) (udp_segment sport dport 0 payload))) payload)"
proof -
  let ?pre = "to_be 2 sport @ to_be 2 dport @ to_be 2 (word_of_nat (8 + length payload) :: u16)"
  have z: "to_be 2 (0 :: u16) = [0, 0]" by (simp add: numeral_2_eq_2)
  have h: "udp_segment sport dport 0 payload = ?pre @ [0, 0] @ payload" unfolding udp_segment_def z by simp
  show ?thesis
    using checksum_field_accepted [of hdr ?pre payload] assms unfolding h by (simp add: udp_segment_def)
qed

lemma tcp_segment_accepted:
  assumes "even (length hdr)" "length hdr + padded_options_len options + length payload \<le> 130000"
  shows "receiver_accepts (hdr @ tcp_segment sport dport seq ack flags window
     (checksum_finish (checksum_accumulate (checksum_accumulate 0 hdr)
        (tcp_segment sport dport seq ack flags window 0 options payload))) options payload)"
proof -
  let ?pre = "to_be 2 sport @ to_be 2 dport @ to_be 4 seq @ to_be 4 ack @ [data_offset_byte options, flags] @ to_be 2 window"
  have z: "to_be 2 (0 :: u16) = [0, 0]" by (simp add: numeral_2_eq_2)
  have h: "tcp_segment sport dport seq ack flags window 0 options payload =
      ?pre @ [0, 0] @ [0, 0] @ padded_options options @ payload"
    unfolding tcp_segment_def z by (simp add: data_offset_byte_def)
  show ?thesis
    using checksum_field_accepted [of hdr ?pre "[0, 0] @ padded_options options @ payload"] assms
    unfolding h by (simp add: tcp_segment_def data_offset_byte_def)
qed

lemma pseudo_lengths [simp]: "length (pseudo_ipv4 s d proto seg) = 12" "length (pseudo_ipv6 s6 d6 proto seg) = 40"
  by (simp_all add: pseudo_ipv4_def pseudo_ipv6_def)

lemma pseudo_cong:
  "length seg = length seg' \<Longrightarrow> pseudo_ipv4 s d proto seg = pseudo_ipv4 s d proto seg'"
  "length seg = length seg' \<Longrightarrow> pseudo_ipv6 s6 d6 proto seg = pseudo_ipv6 s6 d6 proto seg'"
  by (simp_all add: pseudo_ipv4_def pseudo_ipv6_def)

lemma tcp_segment_tail:
  "drop 20 (tcp_segment sport dport seq ack flags window k options payload) = padded_options options @ payload"
  by (simp add: tcp_segment_def)

lemma build_tcp_wire:
  assumes "fits (tcp_len_of sp) (fst (sp_src sp)) (fst (sp_dst sp))"
  shows "\<exists>raw. build_tcp_packet_with_options sp = Ok (Some raw) \<and>
     checksums_ok (fst (sp_src sp)) (fst (sp_dst sp)) 6 raw \<and>
     drop (ip_header_len (fst (sp_src sp)) + 20) raw = padded_options (sp_options sp) @ sp_payload sp \<and>
     (length (sp_options sp) \<le> 40 \<longrightarrow> parse_ip_packet raw = Ok (Some (tcp_report (fst (sp_src sp)) (fst (sp_dst sp))
        (snd (sp_src sp)) (snd (sp_dst sp)) (sp_seq sp) (sp_ack sp) (sp_flags sp) (ip_header_len (fst (sp_src sp)))
        (padded_options_len (sp_options sp)) (sp_payload sp))))"
proof -
  let ?seg = "\<lambda>k. tcp_segment (snd (sp_src sp)) (snd (sp_dst sp)) (sp_seq sp) (sp_ack sp) (sp_flags sp) (sp_window sp) k
    (sp_options sp) (sp_payload sp)"
  let ?pl = "padded_options_len (sp_options sp)" and ?n = "length (sp_payload sp)"
  consider s d sport dport where "sp_src sp = (V4 s, sport)" "sp_dst sp = (V4 d, dport)" "40 + ?pl + ?n \<le> 65535"
    | s d sport dport where "sp_src sp = (V6 s, sport)" "sp_dst sp = (V6 d, dport)" "20 + ?pl + ?n \<le> 65535"
    using assms by (cases "sp_src sp"; cases "sp_dst sp") (auto simp: fits_def tcp_len_of_def split: ip_addr.splits)
  then show ?thesis
  proof cases
    case (1 s d sport dport)
    let ?hdr = "ipv4_header 6 (40 + ?pl + ?n) (internet_checksum (ipv4_header 6 (40 + ?pl + ?n) 0 s d)) s d"
    let ?k = "tcp_checksum_ipv4 s d (?seg 0)"
    have "build_tcp_packet_with_options sp = Ok (Some (?hdr @ ?seg ?k))"
      using build_ipv4_tcp_packet_wire [OF 1(3)] 1 by (simp add: build_tcp_packet_with_options_def)
    moreover have "checksums_ok (V4 s) (V4 d) 6 (?hdr @ ?seg ?k)"
      using ipv4_header_accepted tcp_segment_accepted [of "pseudo_ipv4 s d 6 (?seg 0)" "sp_options sp" "sp_payload sp"] 1(3)
        pseudo_cong(1) [of "?seg ?k" "?seg 0" s d 6]
      by (simp add: checksums_ok_def tcp_checksum_ipv4_def)
    ultimately show ?thesis
      using parse_ipv4_tcp [OF 1(3)] 1 tcp_segment_tail by (simp add: ip_header_len_def)
  next
    case (2 s d sport dport)
    let ?hdr = "ipv6_header 6 (20 + ?pl + ?n) s d"
    let ?k = "tcp_checksum_ipv6 s d (?seg 0)"
    have "build_tcp_packet_with_options sp = Ok (Some (?hdr @ ?seg ?k))"
      using build_ipv6_tcp_packet_wire [OF 2(3)] 2 by (simp add: build_tcp_packet_with_options_def)
    moreover have "checksums_ok (V6 s) (V6 d) 6 (?hdr @ ?seg ?k)"
      using tcp_segment_accepted [of "pseudo_ipv6 s d 6 (?seg 0)" "sp_options sp" "sp_payload sp"] 2(3)
        pseudo_cong(2) [of "?seg ?k" "?seg 0" s d 6]
      by (simp add: checksums_ok_def tcp_checksum_ipv6_def)
    ultimately show ?thesis
      using parse_ipv6_tcp [OF 2(3)] 2 tcp_segment_tail by (simp add: ip_header_len_def)
  qed
qed

lemma build_tcp_none:
  assumes "\<not> fits (tcp_len_of sp) (fst (sp_src sp)) (fst (sp_dst sp))"
  shows "build_tcp_packet_with_options sp = Ok None"
  using assms
  by (cases "sp_src sp"; cases "sp_dst sp")
     (auto simp: fits_def tcp_len_of_def build_tcp_packet_with_options_def build_ipv4_tcp_packet_def
       build_ipv6_tcp_packet_def Let_def split: ip_addr.splits)

lemma build_udp_wire:
  assumes "pk_protocol p = TransUdp" "fits (8 + length payload) (pk_src p) (pk_dst p)"
  shows "\<exists>raw. build_udp_response_packet p payload = Ok (Some raw) \<and>
     checksums_ok (pk_dst p) (pk_src p) 17 raw \<and>
     drop (ip_header_len (pk_src p) + 8) raw = payload \<and>
     parse_ip_packet raw = Ok (Some (udp_report (pk_dst p) (pk_src p) (pk_dst_port p) (pk_src_port p)
       (ip_header_len (pk_src p)) payload))"
proof -
  let ?seg = "\<lambda>k. udp_segment (pk_dst_port p) (pk_src_port p) k payload"
  have tail: "drop 8 (?seg k) = payload" for k by (simp add: udp_segment_def)
  consider s d where "pk_src p = V4 s" "pk_dst p = V4 d" "28 + length payload \<le> 65535"
    | s d where "pk_src p = V6 s" "pk_dst p = V6 d" "8 + length payload \<le> 65535"
    using assms(2) by (auto simp: fits_def split: ip_addr.splits)
  then show ?thesis
  proof cases
    case (1 s d)
    let ?hdr = "ipv4_header 17 (28 + length payload) (internet_checksum (ipv4_header 17 (28 + length payload) 0 d s)) d s"
    let ?k = "udp_checksum_ipv4 d s (?seg 0)"
    have "build_udp_response_packet p payload = Ok (Some (?hdr @ ?seg ?k))"
      using build_ipv4_udp_packet_wire [OF 1(3)] 1 assms by (simp add: build_udp_response_packet_def)
    moreover have "checksums_ok (V4 d) (V4 s) 17 (?hdr @ ?seg ?k)"
      using ipv4_header_accepted udp_segment_accepted [of "pseudo_ipv4 d s 17 (?seg 0)" payload] 1(3)
        pseudo_cong(1) [of "?seg ?k" "?seg 0" d s 17]
      by (simp add: checksums_ok_def udp_checksum_ipv4_def)
    ultimately show ?thesis
      using parse_ipv4_udp [OF 1(3)] 1 tail by (simp add: ip_header_len_def)
  next
    case (2 s d)
    let ?hdr = "ipv6_header 17 (8 + length payload) d s"
    let ?k = "udp_checksum_ipv6 d s (?seg 0)"
    have "build_udp_response_packet p payload = Ok (Some (?hdr @ ?seg ?k))"
      using build_ipv6_udp_packet_wire [OF 2(3)] 2 assms by (simp add: build_udp_response_packet_def)
    moreover have "checksums_ok (V6 d) (V6 s) 17 (?hdr @ ?seg ?k)"
      using udp_segment_accepted [of "pseudo_ipv6 d s 17 (?seg 0)" payload] 2(3)
        pseudo_cong(2) [of "?seg ?k" "?seg 0" d s 17]
      by (simp add: checksums_ok_def udp_checksum_ipv6_def)
    ultimately show ?thesis
      using parse_ipv6_udp [OF 2(3)] 2 tail by (simp add: ip_header_len_def)
  qed
qed

lemma build_udp_none:
  assumes "\<not> (pk_protocol p = TransUdp \<and> fits (8 + length payload) (pk_src p) (pk_dst p))"
  shows "build_udp_response_packet p payload = Ok None"
  using assms
  by (auto simp: fits_def build_udp_response_packet_def build_ipv4_udp_packet_def build_ipv6_udp_packet_def
      Let_def split: ip_addr.splits)

lemma parsed_payload:
  assumes "parse_ip_packet raw = Ok (Some p)" "pk_protocol p \<in> {TransTcp, TransUdp}"
  shows "packet_payload p raw = Some (take (pk_payload_len p) (drop (pk_payload_offset p) raw))"
  using parse_ip_packet_ok [of raw] assms by (auto simp: parses_ok_def packet_ok_def)



end
