(* ===== verification/Tun_Flows.thy ===== *)
theory Tun_Flows
  imports Tun_Packet
begin

text \<open>
  The flow tables of the TUN runtime: the session table (crates/blackwire-transport/src/tun/session.rs),
  the UDP NAT table (nat.rs), the TCP bridge (tcp.rs) and the dispatch of a packet (runtime.rs).

  \<^item> A \<^verbatim>\<open>HashMap\<close> is an association list without repeated keys, in the order of its iteration;
    the theorems do not depend on that order.  An \<^verbatim>\<open>Instant\<close> is a natural number.
  \<^item> The objects a TCP flow task shares with the table (the atomics, the payload channel, the
    cancellation) are one record per flow in a store; the table holds the index of the flow.
    Dropping a table entry marks its flow as cancelled.
  \<^item> An awaited send on a bounded channel is \<open>Blocked\<close> when the channel is full.
  \<^item> The sockets of the UDP NAT are an environment acting on a world state.

  The locale \<open>lru_flow_table\<close> is the contract the three tables share; it is interpreted for each of
  them.  The theory shows that the tables stay within their capacity and give up a flow only when
  it is idle or the least recently used, that UDP responses are addressed to the flow they belong
  to, what the TCP bridge does with an in-order stream, and where it loses or duplicates data or
  stops.
\<close>

section \<open>Tables\<close>

fun min_by_key :: "('a \<Rightarrow> nat) \<Rightarrow> 'a list \<Rightarrow> 'a option" where
  "min_by_key f [] = None"
| "min_by_key f (x # xs) =
     (case min_by_key f xs of None \<Rightarrow> Some x | Some y \<Rightarrow> if f y < f x then Some y else Some x)"

definition remove_key :: "'k \<Rightarrow> ('k \<times> 'e) list \<Rightarrow> ('k \<times> 'e) list" where
  "remove_key k tbl = filter (\<lambda>(k', _). k' \<noteq> k) tbl"

definition insert_key :: "'k \<Rightarrow> 'e \<Rightarrow> ('k \<times> 'e) list \<Rightarrow> ('k \<times> 'e) list" where
  "insert_key k e tbl = (k, e) # remove_key k tbl"

definition update_key :: "'k \<Rightarrow> ('e \<Rightarrow> 'e) \<Rightarrow> ('k \<times> 'e) list \<Rightarrow> ('k \<times> 'e) list" where
  "update_key k f tbl = map (\<lambda>(k', e). (k', if k' = k then f e else e)) tbl"

definition contains_key :: "'k \<Rightarrow> ('k \<times> 'e) list \<Rightarrow> bool" where
  "contains_key k tbl = (map_of tbl k \<noteq> None)"

definition retain_fresh :: "('e \<Rightarrow> nat) \<Rightarrow> nat \<Rightarrow> nat \<Rightarrow> ('k \<times> 'e) list \<Rightarrow> ('k \<times> 'e) list" where
  "retain_fresh last_seen now timeout tbl = filter (\<lambda>(_, e). now - last_seen e \<le> timeout) tbl"

definition remove_oldest :: "('e \<Rightarrow> nat) \<Rightarrow> ('k \<times> 'e) list \<Rightarrow> ('k \<times> 'e) list" where
  "remove_oldest last_seen tbl =
     (case min_by_key (\<lambda>(_, e). last_seen e) tbl of
        Some (oldest_key, _) \<Rightarrow> remove_key oldest_key tbl
      | None \<Rightarrow> tbl)"

section \<open>Sessions\<close>

record flow_key =
  fk_client :: socket_addr
  fk_remote :: socket_addr
  fk_protocol :: transport_protocol

definition flow_from_packet :: "ip_packet \<Rightarrow> flow_key option" where
  "flow_from_packet p =
     (case pk_protocol p of
        TransOther _ \<Rightarrow> None
      | proto \<Rightarrow> Some \<lparr>fk_client = (pk_src p, pk_src_port p), fk_remote = (pk_dst p, pk_dst_port p), fk_protocol = proto\<rparr>)"

definition matches_response :: "flow_key \<Rightarrow> ip_packet \<Rightarrow> bool" where
  "matches_response flow p \<longleftrightarrow>
     pk_protocol p = fk_protocol flow \<and> pk_src p = fst (fk_remote flow) \<and> pk_src_port p = snd (fk_remote flow) \<and>
     pk_dst p = fst (fk_client flow) \<and> pk_dst_port p = snd (fk_client flow)"

record tun_session =
  ts_flow :: flow_key
  ts_last_seen :: nat

record session_table =
  st_sessions :: "(flow_key \<times> tun_session) list"
  st_max :: nat

definition with_max_sessions :: "nat \<Rightarrow> session_table" where
  "with_max_sessions n = \<lparr>st_sessions = [], st_max = max n 1\<rparr>"

definition session_evict_oldest :: "session_table \<Rightarrow> session_table" where
  "session_evict_oldest st = st\<lparr>st_sessions := remove_oldest ts_last_seen (st_sessions st)\<rparr>"

definition observe_flow :: "flow_key \<Rightarrow> nat \<Rightarrow> session_table \<Rightarrow> session_table" where
  "observe_flow flow now st =
     (if contains_key flow (st_sessions st) then
        st\<lparr>st_sessions := update_key flow (\<lambda>s. s\<lparr>ts_last_seen := now\<rparr>) (st_sessions st)\<rparr>
      else
        let st = (if length (st_sessions st) \<ge> st_max st then session_evict_oldest st else st) in
        st\<lparr>st_sessions := insert_key flow \<lparr>ts_flow = flow, ts_last_seen = now\<rparr> (st_sessions st)\<rparr>)"

definition observe_packet :: "ip_packet \<Rightarrow> nat \<Rightarrow> session_table \<Rightarrow> tun_session option \<times> session_table" where
  "observe_packet p now st =
     (case flow_from_packet p of
        None \<Rightarrow> (None, st)
      | Some flow \<Rightarrow>
          let st = observe_flow flow now st in (map_of (st_sessions st) flow, st))"

definition find_response_flow :: "ip_packet \<Rightarrow> session_table \<Rightarrow> flow_key option" where
  "find_response_flow p st = find (\<lambda>flow. matches_response flow p) (map fst (st_sessions st))"

definition remove_expired :: "nat \<Rightarrow> nat \<Rightarrow> session_table \<Rightarrow> nat \<times> session_table" where
  "remove_expired now idle_timeout st =
     (let ss = retain_fresh ts_last_seen now idle_timeout (st_sessions st)
      in (length (st_sessions st) - length ss, st\<lparr>st_sessions := ss\<rparr>))"

definition session_clear :: "session_table \<Rightarrow> nat \<times> session_table" where
  "session_clear st = (length (st_sessions st), st\<lparr>st_sessions := []\<rparr>)"

section \<open>UDP NAT\<close>

type_synonym nat_key = "socket_addr \<times> socket_addr"

record 's nat_entry =
  ne_socket :: 's
  ne_last_seen :: nat

record 's nat_table =
  nt_entries :: "(nat_key \<times> 's nat_entry) list"
  nt_bypass_mark :: u32
  nt_idle_timeout :: nat
  nt_max :: nat

datatype forward_error =
    MissingMetadata | TableFull nat | OpenFailed proxy_error | EntryDisappeared | PayloadOutOfBounds | SendFailed proxy_error

definition DEFAULT_MAX_UDP_NAT_ENTRIES :: nat where
  "DEFAULT_MAX_UDP_NAT_ENTRIES = 4096"

definition nat_new :: "u32 \<Rightarrow> nat \<Rightarrow> nat \<Rightarrow> 's nat_table" where
  "nat_new bypass_mark idle_timeout max_entries =
     \<lparr>nt_entries = [], nt_bypass_mark = bypass_mark, nt_idle_timeout = idle_timeout, nt_max = max max_entries 1\<rparr>"

definition nat_with_defaults :: "u32 \<Rightarrow> nat \<Rightarrow> 's nat_table" where
  "nat_with_defaults bypass_mark idle_timeout = nat_new bypass_mark idle_timeout DEFAULT_MAX_UDP_NAT_ENTRIES"

definition nat_evict_idle :: "nat \<Rightarrow> 's nat_table \<Rightarrow> nat \<times> 's nat_table" where
  "nat_evict_idle now nt =
     (let es = retain_fresh ne_last_seen now (nt_idle_timeout nt) (nt_entries nt)
      in (length (nt_entries nt) - length es, nt\<lparr>nt_entries := es\<rparr>))"

definition nat_clear :: "'s nat_table \<Rightarrow> nat \<times> 's nat_table" where
  "nat_clear nt = (length (nt_entries nt), nt\<lparr>nt_entries := []\<rparr>)"

definition nat_evict_oldest :: "'s nat_table \<Rightarrow> 's nat_table" where
  "nat_evict_oldest nt = nt\<lparr>nt_entries := remove_oldest ne_last_seen (nt_entries nt)\<rparr>"

text \<open>Making room for a new flow.\<close>

definition nat_make_room :: "nat \<Rightarrow> 's nat_table \<Rightarrow> 's nat_table" where
  "nat_make_room now nt =
     (let nt = snd (nat_evict_idle now nt) in
      if length (nt_entries nt) \<ge> nt_max nt then nat_evict_oldest nt else nt)"

text \<open>The system's sockets: binding to the wildcard address of the family of the source, marking and
  connecting; sending; and the task that turns responses into packets for the client.\<close>

type_synonym ('w, 'a) sys = "'w \<Rightarrow> (proxy_error + 'a) \<times> 'w"

definition sys_then :: "('w, 'a) sys \<Rightarrow> ('a \<Rightarrow> ('w, 'b) sys) \<Rightarrow> ('w, 'b) sys" where
  "sys_then m f w = (case m w of (Inr x, w) \<Rightarrow> f x w | (Inl e, w) \<Rightarrow> (Inl e, w))"

record ('w, 's) nat_net =
  nn_bind :: "ip_addr \<Rightarrow> ('w, 's) sys"
  nn_protect :: "'s \<Rightarrow> u32 option \<Rightarrow> ('w, unit) sys"
  nn_connect :: "'s \<Rightarrow> socket_addr \<Rightarrow> ('w, unit) sys"
  nn_send :: "'s \<Rightarrow> bytes \<Rightarrow> ('w, unit) sys"
  nn_spawn_reader :: "'s \<Rightarrow> socket_addr \<Rightarrow> socket_addr \<Rightarrow> 'w \<Rightarrow> 'w"

definition create_bypass_socket :: "('w, 's) nat_net \<Rightarrow> u32 \<Rightarrow> ip_addr \<Rightarrow> socket_addr \<Rightarrow> ('w, 's) sys" where
  "create_bypass_socket net bypass_mark src_ip remote =
     sys_then (nn_bind net (case src_ip of V4 _ \<Rightarrow> V4 0 | V6 _ \<Rightarrow> V6 0)) (\<lambda>socket.
     sys_then (nn_protect net socket (if bypass_mark \<noteq> 0 then Some bypass_mark else None)) (\<lambda>_.
     sys_then (nn_connect net socket remote) (\<lambda>_ w. (Inr socket, w))))"

definition nat_send ::
  "('w, 's) nat_net \<Rightarrow> nat_key \<Rightarrow> nat \<Rightarrow> bytes option \<Rightarrow> 's nat_table \<Rightarrow> 'w \<Rightarrow> (forward_error + unit) \<times> 's nat_table \<times> 'w" where
  "nat_send net key now payload nt w =
     (case map_of (nt_entries nt) key of
        None \<Rightarrow> (Inl EntryDisappeared, nt, w)
      | Some entry \<Rightarrow>
          let nt = nt\<lparr>nt_entries := update_key key (\<lambda>e. e\<lparr>ne_last_seen := now\<rparr>) (nt_entries nt)\<rparr> in
          (case payload of
             None \<Rightarrow> (Inl PayloadOutOfBounds, nt, w)
           | Some bs \<Rightarrow>
               (case nn_send net (ne_socket entry) bs w of
                  (Inr _, w) \<Rightarrow> (Inr (), nt, w)
                | (Inl e, w) \<Rightarrow> (Inl (SendFailed e), nt, w))))"

definition nat_forward ::
  "('w, 's) nat_net \<Rightarrow> ip_packet \<Rightarrow> bytes \<Rightarrow> nat \<Rightarrow> nat \<Rightarrow> 's nat_table \<Rightarrow> 'w \<Rightarrow> (forward_error + unit) \<times> 's nat_table \<times> 'w" where
  "nat_forward net p raw now now' nt w =
     (let client = (pk_src p, pk_src_port p);
          remote = (pk_dst p, pk_dst_port p);
          key = (client, remote) in
      if contains_key key (nt_entries nt) then nat_send net key now (packet_payload p raw) nt w
      else
        let nt = nat_make_room now' nt in
        if length (nt_entries nt) \<ge> nt_max nt then (Inl (TableFull (nt_max nt)), nt, w)
        else
          (case create_bypass_socket net (nt_bypass_mark nt) (pk_src p) remote w of
             (Inr socket, w) \<Rightarrow>
               nat_send net key now (packet_payload p raw)
                 (nt\<lparr>nt_entries := insert_key key \<lparr>ne_socket = socket, ne_last_seen = now\<rparr> (nt_entries nt)\<rparr>)
                 (nn_spawn_reader net socket client remote w)
           | (Inl e, w) \<Rightarrow> (Inl (OpenFailed e), nt, w)))"

text \<open>The packet the reader task of a flow makes from a response.\<close>

definition build_response_packet :: "socket_addr \<Rightarrow> socket_addr \<Rightarrow> bytes \<Rightarrow> bytes option res" where
  "build_response_packet client remote payload =
     build_udp_response_packet
       \<lparr>pk_src = fst client, pk_dst = fst remote, pk_src_port = snd client, pk_dst_port = snd remote,
        pk_protocol = TransUdp, pk_header_len = 0, pk_payload_offset = 0, pk_transport_offset = 0,
        pk_payload_len = 0, pk_tcp_seq = None, pk_tcp_ack = None, pk_tcp_flags = None\<rparr> payload"

section \<open>The TCP bridge\<close>

definition TCP_FIN :: u8 where "TCP_FIN = 0x01"
definition TCP_SYN :: u8 where "TCP_SYN = 0x02"
definition TCP_RST :: u8 where "TCP_RST = 0x04"
definition TCP_PSH :: u8 where "TCP_PSH = 0x08"
definition TCP_ACK :: u8 where "TCP_ACK = 0x10"
definition FLOW_CHAN_CAP :: nat where "FLOW_CHAN_CAP = 256"
definition DEFAULT_MAX_TCP_ENTRIES :: nat where "DEFAULT_MAX_TCP_ENTRIES = 4096"
definition SERVER_ISN :: u32 where "SERVER_ISN = 0x42570001"
definition TCP_SEND_WINDOW_CAP :: u32 where "TCP_SEND_WINDOW_CAP = 4 * 1024 * 1024"
definition TCP_WINDOW_SCALE :: u8 where "TCP_WINDOW_SCALE = 7"
definition WRITE_CHAN_CAP :: nat where "WRITE_CHAN_CAP = 1024"

lemmas tcp_constants =
  TCP_FIN_def TCP_SYN_def TCP_RST_def TCP_PSH_def TCP_ACK_def SERVER_ISN_def TCP_WINDOW_SCALE_def

definition has_flag :: "u8 \<Rightarrow> u8 \<Rightarrow> bool" where
  "has_flag flags f = (flags AND f \<noteq> 0)"

text \<open>What the table and a flow task share: the atomics, the payload channel with the flag that its
  receiver is gone, and the cancellation; and what the task has written to the local stream with
  its acknowledgement number.\<close>

record tcp_flow =
  fl_client :: socket_addr
  fl_remote :: socket_addr
  fl_server_seq :: u32
  fl_client_ack_seen :: u32
  fl_client_window_seen :: u32
  fl_queue :: "bytes list"
  fl_ended :: bool
  fl_cancelled :: bool
  fl_client_ack :: u32
  fl_written :: bytes

record tcp_entry =
  te_flow :: nat
  te_last_seen :: nat
  te_client_next_seq :: u32
  te_client_window_scale :: u8

record tcp_bridge =
  tb_entries :: "(nat_key \<times> tcp_entry) list"
  tb_redirect_port :: u16
  tb_idle_timeout :: nat
  tb_max :: nat
  tb_flows :: "tcp_flow list"

definition tcp_new :: "u16 \<Rightarrow> nat \<Rightarrow> nat \<Rightarrow> tcp_bridge" where
  "tcp_new redirect_port idle_timeout max_entries =
     \<lparr>tb_entries = [], tb_redirect_port = redirect_port, tb_idle_timeout = idle_timeout, tb_max = max max_entries 1,
      tb_flows = []\<rparr>"

definition tcp_with_defaults :: "u16 \<Rightarrow> nat \<Rightarrow> tcp_bridge" where
  "tcp_with_defaults redirect_port idle_timeout = tcp_new redirect_port idle_timeout DEFAULT_MAX_TCP_ENTRIES"

text \<open>Replacing the entries drops those that are gone, which cancels their flows.\<close>

definition set_entries :: "(nat_key \<times> tcp_entry) list \<Rightarrow> tcp_bridge \<Rightarrow> tcp_bridge" where
  "set_entries es br =
     br\<lparr>tb_entries := es,
        tb_flows := map (\<lambda>i. let fl = tb_flows br ! i in
          if i \<in> set (map (te_flow \<circ> snd) (tb_entries br)) \<and> i \<notin> set (map (te_flow \<circ> snd) es)
          then fl\<lparr>fl_cancelled := True\<rparr> else fl) [0..<length (tb_flows br)]\<rparr>"

definition update_flow :: "nat \<Rightarrow> (tcp_flow \<Rightarrow> tcp_flow) \<Rightarrow> tcp_bridge \<Rightarrow> tcp_bridge" where
  "update_flow i f br = br\<lparr>tb_flows := (tb_flows br)[i := f (tb_flows br ! i)]\<rparr>"

definition tcp_evict_idle :: "nat \<Rightarrow> tcp_bridge \<Rightarrow> nat \<times> tcp_bridge" where
  "tcp_evict_idle now br =
     (let es = retain_fresh te_last_seen now (tb_idle_timeout br) (tb_entries br)
      in (length (tb_entries br) - length es, set_entries es br))"

definition tcp_evict_oldest :: "tcp_bridge \<Rightarrow> tcp_bridge" where
  "tcp_evict_oldest br = set_entries (remove_oldest te_last_seen (tb_entries br)) br"

definition tcp_make_room :: "nat \<Rightarrow> tcp_bridge \<Rightarrow> tcp_bridge" where
  "tcp_make_room now br =
     (let br = snd (tcp_evict_idle now br) in
      if length (tb_entries br) \<ge> tb_max br then tcp_evict_oldest br else br)"

definition scaled_window :: "u16 \<Rightarrow> u8 \<Rightarrow> u32" where
  "scaled_window window scale = push_bit (min (unat scale) 14) (ucast window)"

function window_scale_loop :: "bytes \<Rightarrow> nat \<Rightarrow> u8 option" where
  "window_scale_loop options i =
     (if i < length options then
        let kind = options ! i in
        if kind = 0 then None
        else if kind = 1 then window_scale_loop options (i + 1)
        else if i + 1 < length options then
          let len = unat (options ! (i + 1)) in
          if len < 2 \<or> i + len > length options then None
          else if kind = 3 \<and> len = 3 then
            (if i + 2 < length options then Some (options ! (i + 2)) else None)
          else window_scale_loop options (i + len)
        else None
      else None)"
  by pat_completeness auto
termination by (relation "measure (\<lambda>(options, i). length options - i)") auto

declare window_scale_loop.simps [simp del]

definition parse_window_scale :: "bytes \<Rightarrow> u8 option" where
  "parse_window_scale options = window_scale_loop options 0"

record tcp_header =
  th_seq :: u32
  th_ack :: u32
  th_flags :: u8
  th_window :: u16
  th_window_scale :: "u8 option"

definition get_at :: "'a list \<Rightarrow> nat \<Rightarrow> 'a option" where
  "get_at xs i = (if i < length xs then Some (xs ! i) else None)"

definition tcp_header_from :: "ip_packet \<Rightarrow> bytes \<Rightarrow> tcp_header option" where
  "tcp_header_from p raw =
     (let tcp = pk_transport_offset p in
      if pk_payload_offset p < pk_transport_offset p then None
      else
        let header_len = pk_payload_offset p - pk_transport_offset p in
        (case (get_at raw (tcp + 14), get_at raw (tcp + 15)) of
           (Some a, Some b) \<Rightarrow>
             (case (pk_tcp_seq p, pk_tcp_ack p, pk_tcp_flags p) of
                (Some seq, Some ack, Some flags) \<Rightarrow>
                  if has_flag flags TCP_SYN then
                    (case slice_get raw (tcp + 20) (tcp + header_len) of
                       None \<Rightarrow> None
                     | Some options \<Rightarrow> Some \<lparr>th_seq = seq, th_ack = ack, th_flags = flags, th_window = from_be [a, b],
                         th_window_scale = parse_window_scale options\<rparr>)
                  else Some \<lparr>th_seq = seq, th_ack = ack, th_flags = flags, th_window = from_be [a, b], th_window_scale = None\<rparr>
              | _ \<Rightarrow> None)
         | _ \<Rightarrow> None))"

text \<open>The channel to the TUN device.\<close>

datatype 'a await = Ready 'a | Blocked | Panicked

definition tun_send :: "bytes \<Rightarrow> bytes list \<Rightarrow> unit await \<times> bytes list" where
  "tun_send packet out = (if length out < WRITE_CHAN_CAP then (Ready (), out @ [packet]) else (Blocked, out))"

definition send_control ::
  "socket_addr \<Rightarrow> socket_addr \<Rightarrow> u32 \<Rightarrow> u32 \<Rightarrow> u8 \<Rightarrow> u16 \<Rightarrow> bytes \<Rightarrow> bytes list \<Rightarrow> unit await \<times> bytes list" where
  "send_control src dst seq ack flags window options out =
     (case build_tcp_packet_with_options \<lparr>sp_src = src, sp_dst = dst, sp_seq = seq, sp_ack = ack, sp_flags = flags,
         sp_window = window, sp_options = options, sp_payload = []\<rparr> of
        Ok (Some packet) \<Rightarrow> tun_send packet out
      | Ok None \<Rightarrow> (Ready (), out)
      | _ \<Rightarrow> (Panicked, out))"

text \<open>The four parts of \<^verbatim>\<open>forward\<close>: opening a flow, and for a known flow the acknowledgement
  fields, the end of the stream and the payload.\<close>

type_synonym tcp_outcome = "(forward_error + unit) await"

definition after_send :: "unit await \<Rightarrow> tcp_outcome" where
  "after_send a = (case a of Ready _ \<Rightarrow> Ready (Inr ()) | Blocked \<Rightarrow> Blocked | Panicked \<Rightarrow> Panicked)"

definition tcp_open ::
  "socket_addr \<Rightarrow> socket_addr \<Rightarrow> tcp_header \<Rightarrow> nat \<Rightarrow> nat \<Rightarrow> tcp_bridge \<Rightarrow> bytes list \<Rightarrow> tcp_outcome \<times> tcp_bridge \<times> bytes list" where
  "tcp_open client remote tcp now now' br out =
     (let br = tcp_make_room now' br in
      if length (tb_entries br) \<ge> tb_max br then (Ready (Inl (TableFull (tb_max br))), br, out)
      else
        let client_next_seq = th_seq tcp + 1;
            server_seq = SERVER_ISN XOR ucast (snd client);
            scale = (case th_window_scale tcp of Some s \<Rightarrow> s | None \<Rightarrow> 0);
            flow = \<lparr>fl_client = client, fl_remote = remote, fl_server_seq = server_seq + 1, fl_client_ack_seen = server_seq + 1,
                    fl_client_window_seen = max (scaled_window (th_window tcp) scale) 1, fl_queue = [], fl_ended = False,
                    fl_cancelled = False, fl_client_ack = client_next_seq, fl_written = []\<rparr>;
            entry = \<lparr>te_flow = length (tb_flows br), te_last_seen = now, te_client_next_seq = client_next_seq,
                     te_client_window_scale = scale\<rparr>;
            br = br\<lparr>tb_entries := insert_key (client, remote) entry (tb_entries br), tb_flows := tb_flows br @ [flow]\<rparr>;
            (r, out) = send_control remote client server_seq client_next_seq (TCP_SYN OR TCP_ACK) 65535
              [0x01, 0x03, 0x03, TCP_WINDOW_SCALE] out
        in (after_send r, br, out))"

definition tcp_refresh :: "nat_key \<Rightarrow> tcp_header \<Rightarrow> nat \<Rightarrow> tcp_entry \<Rightarrow> tcp_bridge \<Rightarrow> tcp_bridge" where
  "tcp_refresh key tcp now entry br =
     (let br = br\<lparr>tb_entries := update_key key (\<lambda>e. e\<lparr>te_last_seen := now\<rparr>) (tb_entries br)\<rparr> in
      if has_flag (th_flags tcp) TCP_ACK then
        update_flow (te_flow entry) (\<lambda>fl. fl\<lparr>fl_client_ack_seen := th_ack tcp,
          fl_client_window_seen := max (scaled_window (th_window tcp) (te_client_window_scale entry)) 1\<rparr>) br
      else br)"

definition tcp_remove :: "nat_key \<Rightarrow> tcp_bridge \<Rightarrow> tcp_bridge" where
  "tcp_remove key br = set_entries (remove_key key (tb_entries br)) br"

definition tcp_set_next :: "nat_key \<Rightarrow> u32 \<Rightarrow> tcp_bridge \<Rightarrow> tcp_bridge" where
  "tcp_set_next key n br = br\<lparr>tb_entries := update_key key (\<lambda>e. e\<lparr>te_client_next_seq := n\<rparr>) (tb_entries br)\<rparr>"

text \<open>An acknowledgement to the client.\<close>

definition send_ack :: "nat_key \<Rightarrow> tcp_entry \<Rightarrow> u32 \<Rightarrow> tcp_bridge \<Rightarrow> bytes list \<Rightarrow> unit await \<times> bytes list" where
  "send_ack key entry ack br out =
     send_control (snd key) (fst key) (fl_server_seq (tb_flows br ! te_flow entry)) ack TCP_ACK 65535 [] out"

definition tcp_fin ::
  "nat_key \<Rightarrow> tcp_entry \<Rightarrow> tcp_header \<Rightarrow> tcp_bridge \<Rightarrow> bytes list \<Rightarrow> tcp_outcome \<times> tcp_bridge \<times> bytes list" where
  "tcp_fin key entry tcp br out =
     (let br = tcp_set_next key (th_seq tcp + 1) br in
      case send_ack key entry (th_seq tcp + 1) br out of
        (Ready _, out) \<Rightarrow> (Ready (Inr ()), tcp_remove key br, out)
      | (Blocked, out) \<Rightarrow> (Blocked, br, out)
      | (Panicked, out) \<Rightarrow> (Panicked, br, out))"

definition tcp_data ::
  "nat_key \<Rightarrow> tcp_entry \<Rightarrow> tcp_header \<Rightarrow> bytes \<Rightarrow> tcp_bridge \<Rightarrow> bytes list \<Rightarrow> tcp_outcome \<times> tcp_bridge \<times> bytes list" where
  "tcp_data key entry tcp payload br out =
     (let next = th_seq tcp + word_of_nat (length payload);
          br = tcp_set_next key next br in
      case send_ack key entry next br out of
        (Ready _, out) \<Rightarrow>
          (let fl = tb_flows br ! te_flow entry in
           if fl_ended fl then (Ready (Inr ()), tcp_remove key br, out)
           else if length (fl_queue fl) \<ge> FLOW_CHAN_CAP then (Blocked, br, out)
           else (Ready (Inr ()), update_flow (te_flow entry) (\<lambda>fl. fl\<lparr>fl_queue := fl_queue fl @ [payload]\<rparr>) br, out))
      | (Blocked, out) \<Rightarrow> (Blocked, br, out)
      | (Panicked, out) \<Rightarrow> (Panicked, br, out))"

definition tcp_forward ::
  "ip_packet \<Rightarrow> bytes \<Rightarrow> nat \<Rightarrow> nat \<Rightarrow> tcp_bridge \<Rightarrow> bytes list \<Rightarrow> tcp_outcome \<times> tcp_bridge \<times> bytes list" where
  "tcp_forward p raw now now' br out =
     (if pk_protocol p \<noteq> TransTcp then (Ready (Inr ()), br, out)
      else case tcp_header_from p raw of
          None \<Rightarrow> (Ready (Inl MissingMetadata), br, out)
        | Some tcp \<Rightarrow>
            let client = (pk_src p, pk_src_port p);
                remote = (pk_dst p, pk_dst_port p);
                key = (client, remote) in
            if has_flag (th_flags tcp) TCP_RST then (Ready (Inr ()), tcp_remove key br, out)
            else if has_flag (th_flags tcp) TCP_SYN \<and> \<not> contains_key key (tb_entries br)
            then tcp_open client remote tcp now now' br out
            else case map_of (tb_entries br) key of
                None \<Rightarrow> (Ready (Inr ()), br, out)
              | Some entry \<Rightarrow>
                  let br = tcp_refresh key tcp now entry br in
                  if has_flag (th_flags tcp) TCP_FIN then tcp_fin key entry tcp br out
                  else case packet_payload p raw of
                      None \<Rightarrow> (Ready (Inr ()), br, out)
                    | Some payload \<Rightarrow>
                        if payload = [] then (Ready (Inr ()), br, out)
                        else tcp_data key entry tcp payload br out)"

section \<open>The flow task\<close>

text \<open>The iterations of the task's loop on the shared flow: a payload from the table is written to the
  local stream, a chunk from the local stream is sent when the client's window has room, the end of
  the stream, an error of the local stream, and the cancellation.\<close>

definition window_open :: "tcp_flow \<Rightarrow> u32 \<Rightarrow> bool" where
  "window_open fl payload_len =
     (saturating_add (fl_server_seq fl - fl_client_ack_seen fl) payload_len \<le>
        min (fl_client_window_seen fl) TCP_SEND_WINDOW_CAP)"

definition send_tcp :: "tcp_flow \<Rightarrow> u32 \<Rightarrow> u8 \<Rightarrow> bytes \<Rightarrow> bytes option res" where
  "send_tcp fl seq flags payload = build_tcp_packet (fl_remote fl) (fl_client fl) seq (fl_client_ack fl) flags payload"

fun flow_recv :: "tcp_flow \<Rightarrow> tcp_flow option" where
  "flow_recv fl =
     (case fl_queue fl of
        [] \<Rightarrow> None
      | payload # q \<Rightarrow>
          Some (fl\<lparr>fl_queue := q, fl_client_ack := fl_client_ack fl + word_of_nat (length payload),
                  fl_written := fl_written fl @ payload\<rparr>))"

definition flow_read :: "bytes \<Rightarrow> tcp_flow \<Rightarrow> (bytes option res \<times> tcp_flow) option" where
  "flow_read chunk fl =
     (let seq = fl_server_seq fl in
      if chunk = [] then
        Some (send_tcp fl seq (TCP_FIN OR TCP_ACK) [], fl\<lparr>fl_server_seq := seq + 1, fl_ended := True\<rparr>)
      else if window_open fl (word_of_nat (length chunk)) then
        Some (send_tcp fl seq (TCP_PSH OR TCP_ACK) chunk, fl\<lparr>fl_server_seq := seq + word_of_nat (length chunk)\<rparr>)
      else None)"

definition flow_fail :: "tcp_flow \<Rightarrow> bytes option res \<times> tcp_flow" where
  "flow_fail fl = (send_tcp fl (fl_server_seq fl) (TCP_RST OR TCP_ACK) [], fl\<lparr>fl_ended := True, fl_queue := []\<rparr>)"

definition flow_cancel :: "tcp_flow \<Rightarrow> tcp_flow option" where
  "flow_cancel fl = (if fl_cancelled fl then Some (fl\<lparr>fl_ended := True, fl_queue := []\<rparr>) else None)"

section \<open>Dispatch\<close>

definition tun_dispatch ::
  "('w, 's) nat_net \<Rightarrow> bytes \<Rightarrow> nat \<Rightarrow> nat \<Rightarrow> nat \<Rightarrow> 's nat_table \<Rightarrow> session_table \<Rightarrow> tcp_bridge \<Rightarrow> bytes list \<Rightarrow> 'w
     \<Rightarrow> unit await \<times> 's nat_table \<times> session_table \<times> tcp_bridge \<times> bytes list \<times> 'w" where
  "tun_dispatch net raw t now now' nt st br out w =
     (case parse_ip_packet raw of
        Ok (Some p) \<Rightarrow>
          (case pk_protocol p of
             TransUdp \<Rightarrow>
               let st = snd (observe_packet p t st) in
               if pk_dst_port p = 53 then (Ready (), nt, st, br, out, w)
               else (case nat_forward net p raw now now' nt w of (_, nt, w) \<Rightarrow> (Ready (), nt, st, br, out, w))
           | TransTcp \<Rightarrow>
               let st = snd (observe_packet p t st) in
               (case tcp_forward p raw now now' br out of
                  (Ready _, br, out) \<Rightarrow> (Ready (), nt, st, br, out, w)
                | (Blocked, br, out) \<Rightarrow> (Blocked, nt, st, br, out, w)
                | (Panicked, br, out) \<Rightarrow> (Panicked, nt, st, br, out, w))
           | TransOther _ \<Rightarrow> (Ready (), nt, st, br, out, w))
      | Ok None \<Rightarrow> (Ready (), nt, st, br, out, w)
      | _ \<Rightarrow> (Panicked, nt, st, br, out, w))"

section \<open>Table lemmas\<close>

lemma min_by_key_None [simp]: "min_by_key f xs = None \<longleftrightarrow> xs = []"
  by (cases xs) (auto split: option.splits)

lemma min_by_key_Some:
  "min_by_key f xs = Some x \<Longrightarrow> x \<in> set xs \<and> (\<forall>y \<in> set xs. f x \<le> f y)"
proof (induction xs arbitrary: x)
  case (Cons a xs)
  then show ?case by (cases "min_by_key f xs") (fastforce split: if_splits)+
qed simp

lemma map_of_remove_key: "map_of (remove_key k tbl) = (map_of tbl)(k := None)"
  by (induction tbl) (auto simp: remove_key_def fun_eq_iff)

lemma map_of_update_key: "map_of (update_key k f tbl) k' = (if k' = k then map_option f (map_of tbl k) else map_of tbl k')"
  by (induction tbl) (auto simp: update_key_def)

lemma keys_update_key [simp]: "map fst (update_key k f tbl) = map fst tbl"
  by (induction tbl) (auto simp: update_key_def)

lemma length_update_key [simp]: "length (update_key k f tbl) = length tbl"
  by (simp add: update_key_def)

lemma distinct_keys_filter: "distinct (map fst tbl) \<Longrightarrow> distinct (map fst (filter P tbl))"
  by (rule distinct_map_filter)

lemma distinct_insert_key:
  "distinct (map fst tbl) \<Longrightarrow> distinct (map fst (insert_key k e tbl))"
  by (auto simp: insert_key_def remove_key_def intro: distinct_keys_filter)

lemma map_of_insert_key: "map_of (insert_key k e tbl) = (map_of tbl)(k \<mapsto> e)"
  by (auto simp: insert_key_def map_of_remove_key fun_eq_iff)

lemma length_insert_absent: "map_of tbl k = None \<Longrightarrow> length (insert_key k e tbl) = Suc (length tbl)"
proof -
  assume "map_of tbl k = None"
  then have "remove_key k tbl = tbl" by (induction tbl) (auto simp: remove_key_def split: if_splits)
  then show ?thesis by (simp add: insert_key_def)
qed

lemma length_remove_key_le: "length (remove_key k tbl) \<le> length tbl"
  by (simp add: remove_key_def)

lemma length_remove_present: "map_of tbl k \<noteq> None \<Longrightarrow> length (remove_key k tbl) < length tbl"
  by (induction tbl) (auto simp: remove_key_def less_Suc_eq_le split: if_splits)

lemma map_of_retain:
  "distinct (map fst tbl) \<Longrightarrow>
     map_of (retain_fresh f now timeout tbl) k =
       (case map_of tbl k of Some e \<Rightarrow> if now - f e \<le> timeout then Some e else None | None \<Rightarrow> None)"
proof (induction tbl)
  case (Cons a tbl)
  have "map_of tbl (fst a) = None" using Cons.prems by (simp add: map_of_eq_None_iff)
  then show ?case using Cons by (cases a) (auto simp: retain_fresh_def)
qed (simp add: retain_fresh_def)

lemma remove_oldest_cases:
  assumes "tbl \<noteq> []" "distinct (map fst tbl)"
  obtains k e where "remove_oldest f tbl = remove_key k tbl" "map_of tbl k = Some e"
    "\<forall>k' e'. map_of tbl k' = Some e' \<longrightarrow> f e \<le> f e'"
proof -
  obtain k e where m: "min_by_key (\<lambda>(_, e). f e) tbl = Some (k, e)"
    using assms(1) by (metis min_by_key_None option.exhaust surj_pair)
  note s = min_by_key_Some [OF m]
  have "map_of tbl k = Some e" using s assms(2) by simp
  moreover have "\<forall>k' e'. map_of tbl k' = Some e' \<longrightarrow> f e \<le> f e'" using s by (auto dest!: map_of_SomeD)
  ultimately show ?thesis using m that by (simp add: remove_oldest_def)
qed

lemma distinct_remove_oldest: "distinct (map fst tbl) \<Longrightarrow> distinct (map fst (remove_oldest f tbl))"
  by (auto simp: remove_oldest_def remove_key_def intro: distinct_keys_filter split: option.splits)

lemma card_dom_table: "distinct (map fst tbl) \<Longrightarrow> card (dom (map_of tbl)) = length tbl"
  by (metis distinct_card dom_map_of_conv_image_fst length_map list.set_map)

lemma distinct_retain: "distinct (map fst tbl) \<Longrightarrow> distinct (map fst (retain_fresh f now timeout tbl))"
  by (auto simp: retain_fresh_def intro: distinct_keys_filter)

text \<open>Making room in a table that is within its capacity: idle entries go, and the oldest one only
  when the table is still full.\<close>

definition make_room :: "('e \<Rightarrow> nat) \<Rightarrow> nat \<Rightarrow> nat \<Rightarrow> nat \<Rightarrow> ('k \<times> 'e) list \<Rightarrow> ('k \<times> 'e) list" where
  "make_room f now timeout n tbl =
     (let tbl = retain_fresh f now timeout tbl in if length tbl \<ge> n then remove_oldest f tbl else tbl)"

lemma make_room_spec:
  assumes "distinct (map fst tbl)" "length tbl \<le> n" "1 \<le> n"
  shows "distinct (map fst (make_room f now timeout n tbl))" "length (make_room f now timeout n tbl) < n"
    "map_of (make_room f now timeout n tbl) k = map_of tbl k \<or>
     map_of (make_room f now timeout n tbl) k = None \<and>
     (\<exists>e. map_of tbl k = Some e \<and>
        (now - f e > timeout \<or> length tbl = n \<and> (\<forall>k' e'. map_of tbl k' = Some e' \<longrightarrow> f e \<le> f e')))"
proof -
  let ?r = "retain_fresh f now timeout tbl"
  have d: "distinct (map fst ?r)" using assms(1) by (rule distinct_retain)
  have rk: "map_of ?r k = (case map_of tbl k of Some e \<Rightarrow> if now - f e \<le> timeout then Some e else None | None \<Rightarrow> None)"
    by (rule map_of_retain [OF assms(1)])
  have le: "length ?r \<le> length tbl" by (simp add: retain_fresh_def)
  show "distinct (map fst (make_room f now timeout n tbl))"
    using d by (simp add: make_room_def Let_def distinct_remove_oldest)
  have "length (make_room f now timeout n tbl) < n \<and>
     (map_of (make_room f now timeout n tbl) k = map_of tbl k \<or>
      map_of (make_room f now timeout n tbl) k = None \<and>
     (\<exists>e. map_of tbl k = Some e \<and>
        (now - f e > timeout \<or> length tbl = n \<and> (\<forall>k' e'. map_of tbl k' = Some e' \<longrightarrow> f e \<le> f e'))))"
  proof (cases "length ?r \<ge> n")
    case False
    then have "make_room f now timeout n tbl = ?r" by (simp add: make_room_def Let_def)
    then show ?thesis using False rk by (auto split: option.splits if_splits)
  next
    case True
    then have len: "length ?r = length tbl" "length tbl = n" using le assms(2) by auto
    then have r: "?r = tbl" unfolding retain_fresh_def by (metis (no_types, lifting) filter_True length_filter_less less_irrefl)
    have "tbl \<noteq> []" using len assms(3) by auto
    then obtain k0 e0 where o: "remove_oldest f tbl = remove_key k0 tbl" "map_of tbl k0 = Some e0"
      "\<forall>k' e'. map_of tbl k' = Some e' \<longrightarrow> f e0 \<le> f e'"
      using remove_oldest_cases [OF _ assms(1)] by metis
    have m: "make_room f now timeout n tbl = remove_key k0 tbl" using r True o(1) by (simp add: make_room_def Let_def)
    have "length (remove_key k0 tbl) < length tbl" using length_remove_present [of tbl k0] o(2) by simp
    then show ?thesis using m len(2) o(2,3) by (auto simp: map_of_remove_key)
  qed
  then show "length (make_room f now timeout n tbl) < n"
    "map_of (make_room f now timeout n tbl) k = map_of tbl k \<or>
     map_of (make_room f now timeout n tbl) k = None \<and>
     (\<exists>e. map_of tbl k = Some e \<and>
        (now - f e > timeout \<or> length tbl = n \<and> (\<forall>k' e'. map_of tbl k' = Some e' \<longrightarrow> f e \<le> f e')))"
    by auto
qed

section \<open>The contract of the flow tables\<close>

fun run_steps :: "('k \<Rightarrow> nat \<Rightarrow> 't \<Rightarrow> 't \<Rightarrow> bool) \<Rightarrow> ('k \<times> nat) list \<Rightarrow> 't \<Rightarrow> 't \<Rightarrow> bool" where
  "run_steps R [] t t' = (t = t')"
| "run_steps R ((k, now) # es) t t' = (\<exists>u. R k now t u \<and> run_steps R es u t')"

text \<open>A step handles a packet of one flow.  It leaves every other flow alone, unless that flow is idle
  or the table is full of flows that are all at least as recent and the packet opens a new one.\<close>

locale lru_flow_table =
  fixes lookup :: "'t \<Rightarrow> 'k \<Rightarrow> 'e option"
    and stamp :: "'e \<Rightarrow> nat"
    and step :: "'k \<Rightarrow> nat \<Rightarrow> 't \<Rightarrow> 't \<Rightarrow> bool"
    and cap :: "'t \<Rightarrow> nat"
    and idle :: "'t \<Rightarrow> nat \<Rightarrow> nat \<Rightarrow> bool"
    and good :: "'t \<Rightarrow> bool"
  assumes good_finite: "good t \<Longrightarrow> finite (dom (lookup t))"
    and good_size: "good t \<Longrightarrow> card (dom (lookup t)) \<le> cap t"
    and step_good: "good t \<Longrightarrow> step k now t t' \<Longrightarrow> good t'"
    and step_cap: "good t \<Longrightarrow> step k now t t' \<Longrightarrow> cap t' = cap t"
    and step_idle: "good t \<Longrightarrow> step k now t t' \<Longrightarrow> idle t' = idle t"
    and step_other: "good t \<Longrightarrow> step k now t t' \<Longrightarrow> k' \<noteq> k \<Longrightarrow>
      lookup t' k' = lookup t k' \<or>
      lookup t' k' = None \<and> (\<exists>e. lookup t k' = Some e \<and>
        (idle t now (stamp e) \<or> lookup t k = None \<and> card (dom (lookup t)) = cap t \<and>
           (\<forall>k2 e2. lookup t k2 = Some e2 \<longrightarrow> stamp e \<le> stamp e2)))"
begin

lemma run_good:
  "good t \<Longrightarrow> run_steps step es t t' \<Longrightarrow> good t' \<and> cap t' = cap t"
proof (induction es arbitrary: t)
  case (Cons e es)
  then obtain k now u where "e = (k, now)" "step k now t u" "run_steps step es u t'" by (cases e) auto
  then show ?case using Cons step_good step_cap by metis
qed simp

text \<open>The flows in \<open>D\<close> are those at least as recent as \<open>k\<close>.\<close>

lemma step_keeps:
  assumes "good t" "step k1 now t u" "k1 \<noteq> k" "lookup t k = Some e" "\<not> idle t now (stamp e)"
    and D: "{k'. k' \<noteq> k \<and> (\<exists>e'. lookup t k' = Some e' \<and> stamp e \<le> stamp e')} \<subseteq> D" "finite D"
    and "card (insert k1 D) < cap t"
  shows "lookup u k = Some e"
proof (rule ccontr)
  assume "lookup u k \<noteq> Some e"
  then have ev: "lookup t k1 = None" "card (dom (lookup t)) = cap t"
    "\<forall>k2 e2. lookup t k2 = Some e2 \<longrightarrow> stamp e \<le> stamp e2"
    using step_other [OF assms(1,2), of k] assms(3,4,5) by auto
  have "insert k1 (dom (lookup t) - {k}) \<subseteq> insert k1 D" using ev(3) D(1) by (auto simp: dom_def)
  then have "card (insert k1 (dom (lookup t) - {k})) \<le> card (insert k1 D)" using D(2) by (intro card_mono) auto
  moreover have "0 < cap t" using ev(2) assms(4) good_finite [OF assms(1)] by (metis card_gt_0_iff domI empty_iff)
  then have "card (insert k1 (dom (lookup t) - {k})) = cap t"
    using ev(1,2) assms(4) good_finite [OF assms(1)] by (simp add: card_insert_if domIff card_Suc_Diff1 domI)
  ultimately show False using assms(8) by simp
qed

lemma run_keeps:
  assumes "good t" "run_steps step es t t'" "lookup t k = Some e" "k \<notin> fst ` set es"
    and "\<forall>(k', now) \<in> set es. \<not> idle t now (stamp e)"
    and "{k'. k' \<noteq> k \<and> (\<exists>e'. lookup t k' = Some e' \<and> stamp e \<le> stamp e')} \<subseteq> D" "finite D"
    and "card (D \<union> fst ` set es) < cap t"
  shows "lookup t' k = Some e"
  using assms
proof (induction es arbitrary: t D)
  case (Cons x es)
  obtain k1 now u where x: "x = (k1, now)" "step k1 now t u" "run_steps step es u t'"
    using Cons.prems(2) by (cases x) auto
  have fin: "finite (D \<union> fst ` set es)" using Cons.prems(7) by simp
  have "card (insert k1 D) \<le> card (D \<union> fst ` set (x # es))"
    using Cons.prems(7) x(1) by (intro card_mono) auto
  then have "lookup u k = Some e"
    using step_keeps [OF Cons.prems(1) x(2) _ Cons.prems(3) _ Cons.prems(6,7)] Cons.prems(4,5,8) x(1) by auto
  moreover have "{k'. k' \<noteq> k \<and> (\<exists>e'. lookup u k' = Some e' \<and> stamp e \<le> stamp e')} \<subseteq> insert k1 D"
  proof
    fix k' assume "k' \<in> {k'. k' \<noteq> k \<and> (\<exists>e'. lookup u k' = Some e' \<and> stamp e \<le> stamp e')}"
    then obtain e' where k': "k' \<noteq> k" "lookup u k' = Some e'" "stamp e \<le> stamp e'" by blast
    show "k' \<in> insert k1 D"
    proof (cases "k' = k1")
      case False
      then have "lookup t k' = Some e'" using step_other [OF Cons.prems(1) x(2) False] k'(2) by auto
      then show ?thesis using Cons.prems(6) k' by blast
    qed simp
  qed
  moreover have "insert k1 D \<union> fst ` set es = D \<union> fst ` set (x # es)" using x(1) by auto
  ultimately show ?case
    using Cons.IH [of u "insert k1 D"] Cons.prems x step_good [OF Cons.prems(1) x(2)] step_cap [OF Cons.prems(1) x(2)]
      step_idle [OF Cons.prems(1) x(2)]
    by auto
qed simp

text \<open>The most recent flow survives while fewer other flows are active than the table holds.\<close>

lemma most_recent_survives:
  assumes "good t" "run_steps step es t t'" "lookup t k = Some e" "k \<notin> fst ` set es"
    and "\<forall>(k', now) \<in> set es. \<not> idle t now (stamp e)"
    and "\<forall>k' e'. k' \<noteq> k \<longrightarrow> lookup t k' = Some e' \<longrightarrow> stamp e' < stamp e"
    and "card (fst ` set es) < cap t"
  shows "lookup t' k = Some e"
  using run_keeps [OF assms(1-5), of "{}"] assms(6,7) by fastforce

end

section \<open>The three tables keep the contract\<close>

definition table_ok :: "nat \<Rightarrow> ('k \<times> 'e) list \<Rightarrow> bool" where
  "table_ok n tbl \<longleftrightarrow> distinct (map fst tbl) \<and> length tbl \<le> n \<and> 1 \<le> n"

lemma table_ok_filter: "table_ok n tbl \<Longrightarrow> table_ok n (filter P tbl)"
  by (auto simp: table_ok_def distinct_keys_filter intro: order.trans [OF length_filter_le])

lemma table_ok_update: "table_ok n tbl \<Longrightarrow> table_ok n (update_key k f tbl)"
  by (simp add: table_ok_def)

lemma table_ok_dom: "table_ok n tbl \<Longrightarrow> finite (dom (map_of tbl)) \<and> card (dom (map_of tbl)) \<le> n"
  by (simp add: table_ok_def finite_dom_map_of card_dom_table)

text \<open>A flow the table does not have is admitted after making room.\<close>

lemma admit_spec:
  assumes "table_ok n tbl" "map_of tbl k = None"
  shows "table_ok n (make_room f now timeout n tbl)"
    "table_ok n (insert_key k e (make_room f now timeout n tbl))"
    "k' \<noteq> k \<Longrightarrow> map_of (insert_key k e (make_room f now timeout n tbl)) k' = map_of (make_room f now timeout n tbl) k'"
    "map_of (make_room f now timeout n tbl) k' = map_of tbl k' \<or>
      map_of (make_room f now timeout n tbl) k' = None \<and> (\<exists>e. map_of tbl k' = Some e \<and>
        (now - f e > timeout \<or> card (dom (map_of tbl)) = n \<and> (\<forall>k2 e2. map_of tbl k2 = Some e2 \<longrightarrow> f e \<le> f e2)))"
proof -
  have a: "distinct (map fst tbl)" "length tbl \<le> n" "1 \<le> n" using assms(1) by (auto simp: table_ok_def)
  note room = make_room_spec [OF a, of f now timeout]
  show "table_ok n (make_room f now timeout n tbl)" using room(1,2) a by (simp add: table_ok_def)
  have "map_of (make_room f now timeout n tbl) k = None" using room(3) [of k] assms(2) by auto
  then show "table_ok n (insert_key k e (make_room f now timeout n tbl))"
    using room(1,2) a(3) by (simp add: table_ok_def distinct_insert_key length_insert_absent)
  show "k' \<noteq> k \<Longrightarrow> map_of (insert_key k e (make_room f now timeout n tbl)) k' = map_of (make_room f now timeout n tbl) k'"
    by (simp add: map_of_insert_key)
  show "map_of (make_room f now timeout n tbl) k' = map_of tbl k' \<or>
      map_of (make_room f now timeout n tbl) k' = None \<and> (\<exists>e. map_of tbl k' = Some e \<and>
        (now - f e > timeout \<or> card (dom (map_of tbl)) = n \<and> (\<forall>k2 e2. map_of tbl k2 = Some e2 \<longrightarrow> f e \<le> f e2)))"
    using room(3) [of k'] card_dom_table [OF a(1)] by auto
qed

subsection \<open>Sessions\<close>

definition session_step :: "flow_key \<Rightarrow> nat \<Rightarrow> session_table \<Rightarrow> session_table \<Rightarrow> bool" where
  "session_step flow now st st' \<longleftrightarrow> st' = observe_flow flow now st"

definition session_ok :: "session_table \<Rightarrow> bool" where
  "session_ok st \<longleftrightarrow> table_ok (st_max st) (st_sessions st)"

lemma make_room_always: "make_room f now now n tbl = (if length tbl \<ge> n then remove_oldest f tbl else tbl)"
  by (simp add: make_room_def retain_fresh_def case_prod_beta)

lemma observe_flow_eq:
  "observe_flow flow now st =
     st\<lparr>st_sessions :=
       (if contains_key flow (st_sessions st) then update_key flow (\<lambda>s. s\<lparr>ts_last_seen := now\<rparr>) (st_sessions st)
        else insert_key flow \<lparr>ts_flow = flow, ts_last_seen = now\<rparr>
          (make_room ts_last_seen now now (st_max st) (st_sessions st)))\<rparr>"
  by (simp add: observe_flow_def Let_def make_room_always session_evict_oldest_def)

interpretation sessions: lru_flow_table
  "\<lambda>st. map_of (st_sessions st)" ts_last_seen session_step st_max "\<lambda>_ _ _. False" session_ok
proof
  fix t t' :: session_table and k k' now
  show "session_ok t \<Longrightarrow> finite (dom (map_of (st_sessions t)))"
    "session_ok t \<Longrightarrow> card (dom (map_of (st_sessions t))) \<le> st_max t"
    using table_ok_dom [of "st_max t" "st_sessions t"] by (auto simp: session_ok_def)
  show "session_ok t \<Longrightarrow> session_step k now t t' \<Longrightarrow> session_ok t'"
    using admit_spec(2) [where n = "st_max t" and tbl = "st_sessions t" and k = k]
    by (auto simp: session_ok_def session_step_def observe_flow_eq contains_key_def table_ok_update)
  show "session_ok t \<Longrightarrow> session_step k now t t' \<Longrightarrow> st_max t' = st_max t"
    by (simp add: session_step_def observe_flow_eq)
  show "session_ok t \<Longrightarrow> session_step k now t t' \<Longrightarrow> (\<lambda>_ _. False) = (\<lambda>_ _. False)" by simp
  assume "session_ok t" "session_step k now t t'" "k' \<noteq> k"
  then show "map_of (st_sessions t') k' = map_of (st_sessions t) k' \<or>
      map_of (st_sessions t') k' = None \<and> (\<exists>e. map_of (st_sessions t) k' = Some e \<and>
        (False \<or> map_of (st_sessions t) k = None \<and> card (dom (map_of (st_sessions t))) = st_max t \<and>
           (\<forall>k2 e2. map_of (st_sessions t) k2 = Some e2 \<longrightarrow> ts_last_seen e \<le> ts_last_seen e2)))"
    using admit_spec(3,4) [where n = "st_max t" and tbl = "st_sessions t" and k = k and k' = k' and f = ts_last_seen
        and now = now and timeout = now]
    by (auto simp: session_ok_def session_step_def observe_flow_eq contains_key_def map_of_update_key)
qed

subsection \<open>UDP NAT\<close>

definition packet_key :: "ip_packet \<Rightarrow> nat_key" where
  "packet_key p = ((pk_src p, pk_src_port p), (pk_dst p, pk_dst_port p))"

definition nat_step :: "('w, 's) nat_net \<Rightarrow> nat_key \<Rightarrow> nat \<Rightarrow> 's nat_table \<times> 'w \<Rightarrow> 's nat_table \<times> 'w \<Rightarrow> bool" where
  "nat_step net key now' t t' \<longleftrightarrow>
     (\<exists>p raw now r. packet_key p = key \<and> nat_forward net p raw now now' (fst t) (snd t) = (r, t'))"

definition nat_ok :: "'s nat_table \<times> 'w \<Rightarrow> bool" where
  "nat_ok t \<longleftrightarrow> table_ok (nt_max (fst t)) (nt_entries (fst t))"

lemma nat_make_room_eq:
  "nat_make_room now nt = nt\<lparr>nt_entries := make_room ne_last_seen now (nt_idle_timeout nt) (nt_max nt) (nt_entries nt)\<rparr>"
  by (simp add: nat_make_room_def make_room_def nat_evict_idle_def nat_evict_oldest_def Let_def)

lemma nat_send_table:
  assumes "nat_send net key now payload nt w = (r, nt', w')"
  shows "nt' = nt \<or> nt' = nt\<lparr>nt_entries := update_key key (\<lambda>e. e\<lparr>ne_last_seen := now\<rparr>) (nt_entries nt)\<rparr>"
  using assms by (auto simp: nat_send_def Let_def split: option.splits prod.splits sum.splits)

lemma nat_send_ok:
  assumes "nat_send net key now payload nt w = (r, nt', w')" "table_ok (nt_max nt) (nt_entries nt)"
  shows "nt_max nt' = nt_max nt" "nt_idle_timeout nt' = nt_idle_timeout nt" "table_ok (nt_max nt) (nt_entries nt')"
    "k' \<noteq> key \<Longrightarrow> map_of (nt_entries nt') k' = map_of (nt_entries nt) k'"
  using nat_send_table [OF assms(1)] assms(2) by (auto simp: table_ok_update map_of_update_key)

text \<open>The four ways a packet goes through the NAT: known flow, no room, no socket, new flow.\<close>

lemma nat_forward_cases:
  assumes "nat_forward net p raw now now' nt w = (r, nt', w')"
  obtains (known) "map_of (nt_entries nt) (packet_key p) \<noteq> None"
      "nat_send net (packet_key p) now (packet_payload p raw) nt w = (r, nt', w')"
  | (closed) "map_of (nt_entries nt) (packet_key p) = None" "nt' = nat_make_room now' nt"
  | (opened) socket w1 where "map_of (nt_entries nt) (packet_key p) = None"
      "nat_send net (packet_key p) now (packet_payload p raw)
         ((nat_make_room now' nt)\<lparr>nt_entries := insert_key (packet_key p) \<lparr>ne_socket = socket, ne_last_seen = now\<rparr>
            (nt_entries (nat_make_room now' nt))\<rparr>) w1 = (r, nt', w')"
  using assms
  by (auto simp: nat_forward_def packet_key_def Let_def contains_key_def split: if_splits prod.splits sum.splits)

lemma nat_forward_step:
  assumes "nat_forward net p raw now now' nt w = (r, nt', w')" "table_ok (nt_max nt) (nt_entries nt)"
  shows "nt_max nt' = nt_max nt" "nt_idle_timeout nt' = nt_idle_timeout nt" "table_ok (nt_max nt) (nt_entries nt')"
    "k' \<noteq> packet_key p \<Longrightarrow> map_of (nt_entries nt') k' = map_of (nt_entries nt) k' \<or>
      map_of (nt_entries nt') k' = None \<and> (\<exists>e. map_of (nt_entries nt) k' = Some e \<and>
        (now' - ne_last_seen e > nt_idle_timeout nt \<or> map_of (nt_entries nt) (packet_key p) = None \<and>
           card (dom (map_of (nt_entries nt))) = nt_max nt \<and>
           (\<forall>k2 e2. map_of (nt_entries nt) k2 = Some e2 \<longrightarrow> ne_last_seen e \<le> ne_last_seen e2)))"
proof -
  have "nt_max nt' = nt_max nt \<and> nt_idle_timeout nt' = nt_idle_timeout nt \<and> table_ok (nt_max nt) (nt_entries nt') \<and>
    (k' \<noteq> packet_key p \<longrightarrow> map_of (nt_entries nt') k' = map_of (nt_entries nt) k' \<or>
      map_of (nt_entries nt') k' = None \<and> (\<exists>e. map_of (nt_entries nt) k' = Some e \<and>
        (now' - ne_last_seen e > nt_idle_timeout nt \<or> map_of (nt_entries nt) (packet_key p) = None \<and>
           card (dom (map_of (nt_entries nt))) = nt_max nt \<and>
           (\<forall>k2 e2. map_of (nt_entries nt) k2 = Some e2 \<longrightarrow> ne_last_seen e \<le> ne_last_seen e2))))"
    using assms(1)
  proof (cases rule: nat_forward_cases)
    case known then show ?thesis using nat_send_ok [OF known(2) assms(2)] by simp
  next
    case closed
    note a = admit_spec [OF assms(2) closed(1), where f = ne_last_seen and now = now' and timeout = "nt_idle_timeout nt"]
    then show ?thesis using a(1) a(4) [where k' = k'] closed by (simp add: nat_make_room_eq)
  next
    case (opened socket w1)
    note a = admit_spec [OF assms(2) opened(1), where f = ne_last_seen and now = now' and timeout = "nt_idle_timeout nt"]
    note s = nat_send_ok [OF opened(2) [unfolded nat_make_room_eq], simplified, OF a(2)]
    show ?thesis using s(1-3) s(4) [of k'] a(3) [where k' = k'] a(4) [where k' = k'] opened(1) by simp
  qed
  then show "nt_max nt' = nt_max nt" "nt_idle_timeout nt' = nt_idle_timeout nt" "table_ok (nt_max nt) (nt_entries nt')"
    "k' \<noteq> packet_key p \<Longrightarrow> map_of (nt_entries nt') k' = map_of (nt_entries nt) k' \<or>
      map_of (nt_entries nt') k' = None \<and> (\<exists>e. map_of (nt_entries nt) k' = Some e \<and>
        (now' - ne_last_seen e > nt_idle_timeout nt \<or> map_of (nt_entries nt) (packet_key p) = None \<and>
           card (dom (map_of (nt_entries nt))) = nt_max nt \<and>
           (\<forall>k2 e2. map_of (nt_entries nt) k2 = Some e2 \<longrightarrow> ne_last_seen e \<le> ne_last_seen e2)))" by blast+
qed

interpretation udp_nat: lru_flow_table
  "\<lambda>t. map_of (nt_entries (fst t))" ne_last_seen "nat_step net" "\<lambda>t. nt_max (fst t)"
  "\<lambda>t now last. now - last > nt_idle_timeout (fst t)" nat_ok
  for net :: "('w, 's) nat_net"
proof
  fix t t' :: "'s nat_table \<times> 'w" and k k' now
  show "nat_ok t \<Longrightarrow> finite (dom (map_of (nt_entries (fst t))))"
    "nat_ok t \<Longrightarrow> card (dom (map_of (nt_entries (fst t)))) \<le> nt_max (fst t)"
    using table_ok_dom by (auto simp: nat_ok_def)
  show "nat_ok t \<Longrightarrow> nat_step net k now t t' \<Longrightarrow> nat_ok t'"
    by (cases t') (auto simp: nat_ok_def nat_step_def nat_forward_step)
  show "nat_ok t \<Longrightarrow> nat_step net k now t t' \<Longrightarrow> nt_max (fst t') = nt_max (fst t)"
    by (cases t') (auto simp: nat_ok_def nat_step_def nat_forward_step)
  show "nat_ok t \<Longrightarrow> nat_step net k now t t' \<Longrightarrow> (\<lambda>now last. now - last > nt_idle_timeout (fst t')) = (\<lambda>now last. now - last > nt_idle_timeout (fst t))"
    by (cases t') (auto simp: nat_ok_def nat_step_def nat_forward_step)
  assume a: "nat_ok t" "nat_step net k now t t'" "k' \<noteq> k"
  then obtain p raw now0 r where "packet_key p = k" "nat_forward net p raw now0 now (fst t) (snd t) = (r, fst t', snd t')"
    by (auto simp: nat_step_def)
  then show "map_of (nt_entries (fst t')) k' = map_of (nt_entries (fst t)) k' \<or>
      map_of (nt_entries (fst t')) k' = None \<and> (\<exists>e. map_of (nt_entries (fst t)) k' = Some e \<and>
        (now - ne_last_seen e > nt_idle_timeout (fst t) \<or> map_of (nt_entries (fst t)) k = None \<and>
           card (dom (map_of (nt_entries (fst t)))) = nt_max (fst t) \<and>
           (\<forall>k2 e2. map_of (nt_entries (fst t)) k2 = Some e2 \<longrightarrow> ne_last_seen e \<le> ne_last_seen e2)))"
    using nat_forward_step(4) [of net p raw now0 now "fst t" "snd t" r "fst t'" "snd t'" k'] a by (simp add: nat_ok_def)
qed

subsection \<open>The TCP bridge\<close>

definition tcp_step :: "nat_key \<Rightarrow> nat \<Rightarrow> tcp_bridge \<times> bytes list \<Rightarrow> tcp_bridge \<times> bytes list \<Rightarrow> bool" where
  "tcp_step key now' t t' \<longleftrightarrow>
     (\<exists>p raw now r. packet_key p = key \<and> tcp_forward p raw now now' (fst t) (snd t) = (r, t'))"

definition tcp_ok :: "tcp_bridge \<times> bytes list \<Rightarrow> bool" where
  "tcp_ok t \<longleftrightarrow> table_ok (tb_max (fst t)) (tb_entries (fst t))"

lemma bridge_fields [simp]:
  "tb_entries (set_entries es br) = es" "tb_max (set_entries es br) = tb_max br"
  "tb_idle_timeout (set_entries es br) = tb_idle_timeout br" "length (tb_flows (set_entries es br)) = length (tb_flows br)"
  "tb_entries (update_flow i f br) = tb_entries br" "tb_max (update_flow i f br) = tb_max br"
  "tb_idle_timeout (update_flow i f br) = tb_idle_timeout br" "length (tb_flows (update_flow i f br)) = length (tb_flows br)"
  "tb_entries (tcp_remove key br) = remove_key key (tb_entries br)" "tb_max (tcp_remove key br) = tb_max br"
  "tb_idle_timeout (tcp_remove key br) = tb_idle_timeout br" "length (tb_flows (tcp_remove key br)) = length (tb_flows br)"
  by (simp_all add: set_entries_def update_flow_def tcp_remove_def)

lemma tcp_make_room_fields [simp]:
  "tb_entries (tcp_make_room now br) = make_room te_last_seen now (tb_idle_timeout br) (tb_max br) (tb_entries br)"
  "tb_max (tcp_make_room now br) = tb_max br" "tb_idle_timeout (tcp_make_room now br) = tb_idle_timeout br"
  "length (tb_flows (tcp_make_room now br)) = length (tb_flows br)"
  by (simp_all add: tcp_make_room_def make_room_def tcp_evict_idle_def tcp_evict_oldest_def Let_def)

text \<open>What a step may do to the table apart from the flow of the packet.\<close>

definition tcp_same :: "nat_key \<Rightarrow> tcp_bridge \<Rightarrow> tcp_bridge \<Rightarrow> bool" where
  "tcp_same key br br' \<longleftrightarrow> tb_max br' = tb_max br \<and> tb_idle_timeout br' = tb_idle_timeout br \<and>
     table_ok (tb_max br) (tb_entries br') \<and> (\<forall>k'. k' \<noteq> key \<longrightarrow> map_of (tb_entries br') k' = map_of (tb_entries br) k')"

lemma tcp_same_refl: "table_ok (tb_max br) (tb_entries br) \<Longrightarrow> tcp_same key br br"
  by (simp add: tcp_same_def)

lemma tcp_same_trans: "tcp_same key a b \<Longrightarrow> tcp_same key b c \<Longrightarrow> tcp_same key a c"
  by (simp add: tcp_same_def)

lemma tcp_same_update:
  "table_ok (tb_max br) (tb_entries br) \<Longrightarrow> tb_entries br' = update_key key f (tb_entries br) \<Longrightarrow>
     tb_max br' = tb_max br \<Longrightarrow> tb_idle_timeout br' = tb_idle_timeout br \<Longrightarrow> tcp_same key br br'"
  by (simp add: tcp_same_def table_ok_update map_of_update_key)

lemma tcp_same_remove: "table_ok (tb_max br) (tb_entries br) \<Longrightarrow> tcp_same key br (tcp_remove key br)"
  using table_ok_filter [of "tb_max br" "tb_entries br"]
  by (simp add: tcp_same_def map_of_remove_key) (simp add: remove_key_def)

lemma tcp_same_update_flow: "tcp_same key br br' \<Longrightarrow> tcp_same key br (update_flow i f br')"
  by (simp add: tcp_same_def)

lemma tcp_same_ok: "tcp_same key br br' \<Longrightarrow> table_ok (tb_max br') (tb_entries br')"
  by (simp add: tcp_same_def)

lemma tcp_same_set_next: "table_ok (tb_max br) (tb_entries br) \<Longrightarrow> tcp_same key br (tcp_set_next key n br)"
  by (rule tcp_same_update) (simp_all add: tcp_set_next_def)

lemma tcp_same_refresh:
  assumes "table_ok (tb_max br) (tb_entries br)"
  shows "tcp_same key br (tcp_refresh key tcp now entry br)"
proof -
  have "tcp_same key br (br\<lparr>tb_entries := update_key key (\<lambda>e. e\<lparr>te_last_seen := now\<rparr>) (tb_entries br)\<rparr>)"
    by (rule tcp_same_update [OF assms]) simp_all
  then show ?thesis by (simp add: tcp_refresh_def Let_def tcp_same_update_flow)
qed

lemma tcp_same_fin:
  assumes "table_ok (tb_max br) (tb_entries br)" "tcp_fin key entry tcp br out = (r, br', out')"
  shows "tcp_same key br br'"
proof -
  note n = tcp_same_set_next [OF assms(1), of key "th_seq tcp + 1"]
  note rm = tcp_same_trans [OF n tcp_same_remove [OF tcp_same_ok [OF n]]]
  show ?thesis using assms(2) n rm by (auto simp: tcp_fin_def Let_def split: prod.splits await.splits)
qed

lemma tcp_same_data:
  assumes "table_ok (tb_max br) (tb_entries br)" "tcp_data key entry tcp payload br out = (r, br', out')"
  shows "tcp_same key br br'"
proof -
  note n = tcp_same_set_next [OF assms(1), of key "th_seq tcp + word_of_nat (length payload)"]
  note rm = tcp_same_trans [OF n tcp_same_remove [OF tcp_same_ok [OF n]]]
  show ?thesis using assms(2) n rm tcp_same_update_flow [OF n]
    by (auto simp: tcp_data_def Let_def split: prod.splits await.splits if_splits)
qed

lemma tcp_open_table:
  assumes "tcp_open client remote tcp now now' br out = (r, br', out')"
  shows "tb_max br' = tb_max br" "tb_idle_timeout br' = tb_idle_timeout br"
    "br' = tcp_make_room now' br \<or> (\<exists>e. tb_entries br' = insert_key (client, remote) e (tb_entries (tcp_make_room now' br)))"
  using assms by (auto simp: tcp_open_def Let_def split: if_splits prod.splits)

lemma tcp_forward_cases:
  assumes "tcp_forward p raw now now' br out = (r, br', out')" "table_ok (tb_max br) (tb_entries br)"
  obtains (same) "tcp_same (packet_key p) br br'"
  | (opened) tcp where "map_of (tb_entries br) (packet_key p) = None"
      "tcp_open (fst (packet_key p)) (snd (packet_key p)) tcp now now' br out = (r, br', out')"
proof -
  have "tcp_same (packet_key p) br br' \<or> map_of (tb_entries br) (packet_key p) = None \<and>
      (\<exists>tcp. tcp_open (fst (packet_key p)) (snd (packet_key p)) tcp now now' br out = (r, br', out'))"
    using assms(1) tcp_same_refl [OF assms(2)] tcp_same_remove [OF assms(2)] tcp_same_refresh [OF assms(2)]
      tcp_same_trans [OF tcp_same_refresh [OF assms(2)] tcp_same_fin [OF tcp_same_ok [OF tcp_same_refresh [OF assms(2)]]]]
      tcp_same_trans [OF tcp_same_refresh [OF assms(2)] tcp_same_data [OF tcp_same_ok [OF tcp_same_refresh [OF assms(2)]]]]
    unfolding tcp_forward_def Let_def packet_key_def contains_key_def
    by (auto split: if_splits option.splits)
  then show ?thesis using that by blast
qed

lemma tcp_forward_step:
  assumes "tcp_forward p raw now now' br out = (r, br', out')" "table_ok (tb_max br) (tb_entries br)"
  shows "tb_max br' = tb_max br \<and> tb_idle_timeout br' = tb_idle_timeout br \<and> table_ok (tb_max br) (tb_entries br') \<and>
    (k' \<noteq> packet_key p \<longrightarrow> map_of (tb_entries br') k' = map_of (tb_entries br) k' \<or>
      map_of (tb_entries br') k' = None \<and> (\<exists>e. map_of (tb_entries br) k' = Some e \<and>
        (now' - te_last_seen e > tb_idle_timeout br \<or> map_of (tb_entries br) (packet_key p) = None \<and>
           card (dom (map_of (tb_entries br))) = tb_max br \<and>
           (\<forall>k2 e2. map_of (tb_entries br) k2 = Some e2 \<longrightarrow> te_last_seen e \<le> te_last_seen e2))))"
  using assms
proof (cases rule: tcp_forward_cases)
  case same then show ?thesis unfolding tcp_same_def by blast
next
  case (opened tcp)
  note a = admit_spec [OF assms(2) opened(1), where f = te_last_seen and now = now' and timeout = "tb_idle_timeout br"]
  note o = tcp_open_table [OF opened(2)]
  show ?thesis using o(1,2) o(3) a(1,2) a(3) [where k' = k'] a(4) [where k' = k'] opened(1) by auto
qed

interpretation tcp_flows: lru_flow_table
  "\<lambda>t. map_of (tb_entries (fst t))" te_last_seen tcp_step "\<lambda>t. tb_max (fst t)"
  "\<lambda>t now last. now - last > tb_idle_timeout (fst t)" tcp_ok
proof
  fix t t' :: "tcp_bridge \<times> bytes list" and k k' now
  show "tcp_ok t \<Longrightarrow> finite (dom (map_of (tb_entries (fst t))))"
    "tcp_ok t \<Longrightarrow> card (dom (map_of (tb_entries (fst t)))) \<le> tb_max (fst t)"
    using table_ok_dom by (auto simp: tcp_ok_def)
  note step = tcp_forward_step [of _ _ _ now "fst t" "snd t" _ "fst t'" "snd t'"]
  show "tcp_ok t \<Longrightarrow> tcp_step k now t t' \<Longrightarrow> tcp_ok t'"
    "tcp_ok t \<Longrightarrow> tcp_step k now t t' \<Longrightarrow> tb_max (fst t') = tb_max (fst t)"
    "tcp_ok t \<Longrightarrow> tcp_step k now t t' \<Longrightarrow>
      (\<lambda>now last. now - last > tb_idle_timeout (fst t')) = (\<lambda>now last. now - last > tb_idle_timeout (fst t))"
    using step by (cases t'; auto simp: tcp_ok_def tcp_step_def)+
  assume a: "tcp_ok t" "tcp_step k now t t'" "k' \<noteq> k"
  then obtain p raw now0 r where "packet_key p = k" "tcp_forward p raw now0 now (fst t) (snd t) = (r, fst t', snd t')"
    by (auto simp: tcp_step_def)
  then show "map_of (tb_entries (fst t')) k' = map_of (tb_entries (fst t)) k' \<or>
      map_of (tb_entries (fst t')) k' = None \<and> (\<exists>e. map_of (tb_entries (fst t)) k' = Some e \<and>
        (now - te_last_seen e > tb_idle_timeout (fst t) \<or> map_of (tb_entries (fst t)) k = None \<and>
           card (dom (map_of (tb_entries (fst t)))) = tb_max (fst t) \<and>
           (\<forall>k2 e2. map_of (tb_entries (fst t)) k2 = Some e2 \<longrightarrow> te_last_seen e \<le> te_last_seen e2)))"
    using tcp_forward_step [of p raw now0 now "fst t" "snd t" r "fst t'" "snd t'" k'] a by (simp add: tcp_ok_def)
qed

section \<open>Established TCP flows\<close>

text \<open>A segment of the client as it comes from the TUN device.\<close>

definition client_segment :: "nat_key \<Rightarrow> u32 \<Rightarrow> u32 \<Rightarrow> u8 \<Rightarrow> bytes \<Rightarrow> bytes option res" where
  "client_segment key seq ack flags payload = build_tcp_packet (fst key) (snd key) seq ack flags payload"

definition segment_fits :: "nat_key \<Rightarrow> bytes \<Rightarrow> bool" where
  "segment_fits key payload \<longleftrightarrow> fits (20 + length payload) (fst (fst key)) (fst (snd key))"

lemma build_tcp_packet_spec:
  "build_tcp_packet src dst seq ack flags payload =
     build_tcp_packet_with_options \<lparr>sp_src = src, sp_dst = dst, sp_seq = seq, sp_ack = ack, sp_flags = flags,
       sp_window = 65535, sp_options = [], sp_payload = payload\<rparr>"
  by (simp add: build_tcp_packet_def build_tcp_packet_with_options_def split: prod.splits ip_addr.splits)

lemma fits_sym: "fits n a b \<longleftrightarrow> fits n b a"
  by (auto simp: fits_def split: ip_addr.splits)

lemma fits_mono: "fits n a b \<Longrightarrow> m \<le> n \<Longrightarrow> fits m a b"
  by (auto simp: fits_def split: ip_addr.splits)

lemma padded_none [simp]: "padded_options_len [] = 0"
  by (simp add: padded_options_len_def)

text \<open>What the bridge reads from such a segment.\<close>

lemma client_segment_parsed:
  assumes "segment_fits key payload"
  obtains raw p h where "client_segment key seq ack flags payload = Ok (Some raw)" "parse_ip_packet raw = Ok (Some p)"
    "pk_protocol p = TransTcp" "packet_key p = key" "packet_payload p raw = Some payload"
    "tcp_header_from p raw = Some h" "th_seq h = seq" "th_ack h = ack" "th_flags h = flags"
proof -
  let ?sp = "\<lparr>sp_src = fst key, sp_dst = snd key, sp_seq = seq, sp_ack = ack, sp_flags = flags,
       sp_window = 65535, sp_options = [], sp_payload = payload\<rparr>"
  have f: "fits (tcp_len_of ?sp) (fst (sp_src ?sp)) (fst (sp_dst ?sp))"
    using assms(1) by (simp add: segment_fits_def tcp_len_of_def)
  obtain raw where r: "build_tcp_packet_with_options ?sp = Ok (Some raw)"
     "drop (ip_header_len (fst (fst key)) + 20) raw = payload"
     "parse_ip_packet raw = Ok (Some (tcp_report (fst (fst key)) (fst (snd key)) (snd (fst key)) (snd (snd key)) seq ack flags
        (ip_header_len (fst (fst key))) 0 payload))" (is "_ = Ok (Some ?p)")
    using build_tcp_wire [OF f] by (auto simp: padded_options_def)
  have pp: "packet_payload ?p raw = Some payload"
    using parsed_payload [OF r(3)] r(2) by (simp add: tcp_report_def)
  have "packet_ok ?p raw" using parse_ip_packet_ok [of raw] r(3) by (simp add: parses_ok_def)
  then have "ip_header_len (fst (fst key)) + 20 \<le> length raw"
    by (simp add: packet_ok_def fields_ok_def tcp_report_def)
  then obtain a b where "get_at raw (ip_header_len (fst (fst key)) + 14) = Some a" "get_at raw (ip_header_len (fst (fst key)) + 15) = Some b"
    by (simp add: get_at_def)
  then have h: "tcp_header_from ?p raw = Some \<lparr>th_seq = seq, th_ack = ack, th_flags = flags, th_window = from_be [a, b], th_window_scale = None\<rparr>"
    using \<open>ip_header_len (fst (fst key)) + 20 \<le> length raw\<close>
    by (simp add: tcp_header_from_def Let_def tcp_report_def slice_get_def parse_window_scale_def window_scale_loop.simps)
  show ?thesis
  proof (rule that [OF _ r(3) _ _ pp h])
    show "client_segment key seq ack flags payload = Ok (Some raw)"
      using r(1) by (simp add: client_segment_def build_tcp_packet_spec)
  qed (simp_all add: tcp_report_def packet_key_def)
qed

text \<open>An acknowledgement the bridge puts into the channel.\<close>

definition is_ack :: "nat_key \<Rightarrow> u32 \<Rightarrow> bytes \<Rightarrow> bool" where
  "is_ack key ack raw \<longleftrightarrow> (\<exists>q. parse_ip_packet raw = Ok (Some q) \<and> packet_key q = (snd key, fst key) \<and>
     pk_tcp_ack q = Some ack \<and> pk_tcp_flags q = Some TCP_ACK)"

lemma send_ack_ready:
  assumes "fits 20 (fst (fst key)) (fst (snd key))" "length out < WRITE_CHAN_CAP"
  shows "\<exists>raw. send_ack key entry ack br out = (Ready (), out @ [raw]) \<and> is_ack key ack raw"
proof -
  let ?sp = "\<lparr>sp_src = snd key, sp_dst = fst key, sp_seq = fl_server_seq (tb_flows br ! te_flow entry), sp_ack = ack,
       sp_flags = TCP_ACK, sp_window = 65535, sp_options = [], sp_payload = []\<rparr>"
  have "fits (tcp_len_of ?sp) (fst (sp_src ?sp)) (fst (sp_dst ?sp))"
    using assms(1) fits_sym by (simp add: tcp_len_of_def)
  from build_tcp_wire [OF this] show ?thesis
    using assms(2) by (auto simp: send_ack_def send_control_def tun_send_def is_ack_def tcp_report_def packet_key_def)
qed

lemma send_ack_blocked:
  assumes "fits 20 (fst (fst key)) (fst (snd key))" "\<not> length out < WRITE_CHAN_CAP"
  shows "send_ack key entry ack br out = (Blocked, out)"
proof -
  let ?sp = "\<lparr>sp_src = snd key, sp_dst = fst key, sp_seq = fl_server_seq (tb_flows br ! te_flow entry), sp_ack = ack,
       sp_flags = TCP_ACK, sp_window = 65535, sp_options = [], sp_payload = []\<rparr>"
  have "fits (tcp_len_of ?sp) (fst (sp_src ?sp)) (fst (sp_dst ?sp))"
    using assms(1) fits_sym by (simp add: tcp_len_of_def)
  from build_tcp_wire [OF this] show ?thesis
    using assms(2) by (auto simp: send_ack_def send_control_def tun_send_def)
qed

text \<open>An established flow: its entry, the only one with its shared record, and a live task.\<close>

definition established :: "nat_key \<Rightarrow> nat \<Rightarrow> tcp_bridge \<Rightarrow> bool" where
  "established key i br \<longleftrightarrow>
     (\<exists>e. map_of (tb_entries br) key = Some e \<and> te_flow e = i) \<and>
     (\<forall>(k', e') \<in> set (tb_entries br). te_flow e' = i \<longrightarrow> k' = key) \<and>
     i < length (tb_flows br) \<and> \<not> fl_ended (tb_flows br ! i)"

definition next_seq :: "nat_key \<Rightarrow> tcp_bridge \<Rightarrow> u32" where
  "next_seq key br = te_client_next_seq (the (map_of (tb_entries br) key))"

lemma refresh_flow:
  assumes "i < length (tb_flows br)"
  shows "fl_queue (tb_flows (tcp_refresh key h now e br) ! i) = fl_queue (tb_flows br ! i)"
    "fl_ended (tb_flows (tcp_refresh key h now e br) ! i) = fl_ended (tb_flows br ! i)"
    "fl_written (tb_flows (tcp_refresh key h now e br) ! i) = fl_written (tb_flows br ! i)"
    "length (tb_flows (tcp_refresh key h now e br)) = length (tb_flows br)"
  using assms by (cases "te_flow e = i"; simp add: tcp_refresh_def Let_def update_flow_def nth_list_update)+

lemma refresh_entry:
  "map_of (tb_entries (tcp_refresh key h now e br)) key = map_option (\<lambda>e. e\<lparr>te_last_seen := now\<rparr>) (map_of (tb_entries br) key)"
  by (simp add: tcp_refresh_def Let_def map_of_update_key)

lemma owner_update:
  assumes "\<forall>(k', e') \<in> set tbl. te_flow e' = i \<longrightarrow> k' = key" "\<And>e. te_flow (f e) = te_flow e"
  shows "\<forall>(k', e') \<in> set (update_key k f tbl). te_flow e' = i \<longrightarrow> k' = key"
  using assms by (fastforce simp: update_key_def split: if_splits)

lemma refresh_owner:
  assumes "\<forall>(k', e') \<in> set (tb_entries br). te_flow e' = i \<longrightarrow> k' = key"
  shows "\<forall>(k', e') \<in> set (tb_entries (tcp_refresh k h now e br)). te_flow e' = i \<longrightarrow> k' = key"
  using owner_update [OF assms, of "\<lambda>e. e\<lparr>te_last_seen := now\<rparr>" k] by (simp add: tcp_refresh_def Let_def)

lemma set_next_owner:
  assumes "\<forall>(k', e') \<in> set (tb_entries br). te_flow e' = i \<longrightarrow> k' = key"
  shows "\<forall>(k', e') \<in> set (tb_entries (tcp_set_next k n br)). te_flow e' = i \<longrightarrow> k' = key"
  using owner_update [OF assms, of "\<lambda>e. e\<lparr>te_client_next_seq := n\<rparr>" k] by (simp add: tcp_set_next_def)

text \<open>A data segment of an established flow, whatever its sequence number.\<close>

lemma data_segment_step:
  assumes "established key i br" "pk_protocol p = TransTcp" "packet_key p = key" "packet_payload p raw = Some payload"
    "payload \<noteq> []" "tcp_header_from p raw = Some h" "th_flags h = TCP_ACK"
    "fits 20 (fst (fst key)) (fst (snd key))" "length out < WRITE_CHAN_CAP" "length (fl_queue (tb_flows br ! i)) < FLOW_CHAN_CAP"
  shows "\<exists>br' ack. tcp_forward p raw now now' br out = (Ready (Inr ()), br', out @ [ack]) \<and>
     is_ack key (th_seq h + word_of_nat (length payload)) ack \<and> established key i br' \<and>
     next_seq key br' = th_seq h + word_of_nat (length payload) \<and>
     fl_queue (tb_flows br' ! i) = fl_queue (tb_flows br ! i) @ [payload] \<and>
     fl_written (tb_flows br' ! i) = fl_written (tb_flows br ! i)"
proof -
  obtain e where e: "map_of (tb_entries br) key = Some e" "te_flow e = i" and i: "i < length (tb_flows br)"
    "\<not> fl_ended (tb_flows br ! i)" and own: "\<forall>(k', e') \<in> set (tb_entries br). te_flow e' = i \<longrightarrow> k' = key"
    using assms(1) by (auto simp: established_def)
  let ?n = "th_seq h + word_of_nat (length payload)"
  let ?b = "tcp_set_next key ?n (tcp_refresh key h now e br)"
  have fl: "tb_flows ?b = tb_flows (tcp_refresh key h now e br)" by (simp add: tcp_set_next_def)
  obtain ack where ack: "send_ack key e ?n ?b out = (Ready (), out @ [ack])" "is_ack key ?n ack"
    using send_ack_ready [OF assms(8,9)] by blast
  have flags: "\<not> has_flag (th_flags h) TCP_RST" "\<not> has_flag (th_flags h) TCP_SYN" "\<not> has_flag (th_flags h) TCP_FIN"
    using assms(7) by (simp_all add: has_flag_def tcp_constants)
  let ?br = "update_flow i (\<lambda>fl. fl\<lparr>fl_queue := fl_queue fl @ [payload]\<rparr>) ?b"
  have "tcp_forward p raw now now' br out = tcp_data key e h payload (tcp_refresh key h now e br) out"
    using assms(2-6) flags e(1) by (simp add: tcp_forward_def Let_def packet_key_def contains_key_def)
  moreover have "tcp_data key e h payload (tcp_refresh key h now e br) out = (Ready (Inr ()), ?br, out @ [ack])"
    using ack(1) e(2) i refresh_flow [OF i(1)] assms(10) fl by (simp add: tcp_data_def Let_def)
  moreover have "established key i ?br" "next_seq key ?br = ?n"
    using e i refresh_flow [OF i(1)] set_next_owner [OF refresh_owner [OF own], of key ?n key h now e]
    by (simp_all add: established_def next_seq_def tcp_set_next_def update_flow_def map_of_update_key refresh_entry)
  moreover have "fl_queue (tb_flows ?br ! i) = fl_queue (tb_flows br ! i) @ [payload]"
    "fl_written (tb_flows ?br ! i) = fl_written (tb_flows br ! i)"
    using i refresh_flow [OF i(1)] fl by (simp_all add: update_flow_def)
  ultimately show ?thesis using ack(2) by (intro exI [of _ ?br] exI [of _ ack]) simp
qed

text \<open>A client that sends a list of payloads, each with the number given by \<open>seqs\<close>.\<close>

fun client_sends :: "nat \<Rightarrow> nat_key \<Rightarrow> (u32 \<times> bytes) list \<Rightarrow> tcp_bridge \<Rightarrow> bytes list \<Rightarrow> (tcp_bridge \<times> bytes list) option" where
  "client_sends now key [] br out = Some (br, out)"
| "client_sends now key ((seq, payload) # segs) br out =
     (case client_segment key seq 0 TCP_ACK payload of
        Ok (Some raw) \<Rightarrow>
          (case parse_ip_packet raw of
             Ok (Some p) \<Rightarrow>
               (case tcp_forward p raw now now br out of
                  (Ready (Inr _), br, out) \<Rightarrow> client_sends now key segs br out
                | _ \<Rightarrow> None)
           | _ \<Rightarrow> None)
      | _ \<Rightarrow> None)"

lemma client_sends_spec:
  assumes "established key i br"
    and "\<forall>(seq, payload) \<in> set segs. payload \<noteq> [] \<and> segment_fits key payload"
    and "length out + length segs \<le> WRITE_CHAN_CAP"
    and "length (fl_queue (tb_flows br ! i)) + length segs \<le> FLOW_CHAN_CAP"
  shows "\<exists>br' acks. client_sends now key segs br out = Some (br', out @ acks) \<and> established key i br' \<and>
     next_seq key br' = (if segs = [] then next_seq key br else fst (last segs) + word_of_nat (length (snd (last segs)))) \<and>
     list_all2 (\<lambda>(seq, payload) ack. is_ack key (seq + word_of_nat (length payload)) ack) segs acks \<and>
     fl_queue (tb_flows br' ! i) = fl_queue (tb_flows br ! i) @ map snd segs \<and>
     fl_written (tb_flows br' ! i) = fl_written (tb_flows br ! i)"
  using assms
proof (induction segs arbitrary: br out)
  case (Cons s segs)
  obtain seq payload where s: "s = (seq, payload)" by (cases s)
  have pl: "payload \<noteq> []" "segment_fits key payload" using Cons.prems(2) s by auto
  have f: "fits 20 (fst (fst key)) (fst (snd key))" using pl(2) fits_mono by (auto simp: segment_fits_def)
  obtain raw p h where seg: "client_segment key seq 0 TCP_ACK payload = Ok (Some raw)" "parse_ip_packet raw = Ok (Some p)"
    "pk_protocol p = TransTcp" "packet_key p = key" "packet_payload p raw = Some payload"
    "tcp_header_from p raw = Some h" "th_seq h = seq" "th_flags h = TCP_ACK"
    using client_segment_parsed [OF pl(2), of seq 0 TCP_ACK] by metis
  obtain b1 ack where one: "tcp_forward p raw now now br out = (Ready (Inr ()), b1, out @ [ack])"
     "is_ack key (seq + word_of_nat (length payload)) ack" "established key i b1"
     "next_seq key b1 = seq + word_of_nat (length payload)" "fl_queue (tb_flows b1 ! i) = fl_queue (tb_flows br ! i) @ [payload]"
     "fl_written (tb_flows b1 ! i) = fl_written (tb_flows br ! i)"
    using data_segment_step [OF Cons.prems(1) seg(3-5) pl(1) seg(6,8) f, of out now now] Cons.prems(3,4) seg(7) by auto
  obtain b2 acks where rest: "client_sends now key segs b1 (out @ [ack]) = Some (b2, (out @ [ack]) @ acks)" "established key i b2"
     "next_seq key b2 = (if segs = [] then next_seq key b1 else fst (last segs) + word_of_nat (length (snd (last segs))))"
     "list_all2 (\<lambda>(seq, payload) ack. is_ack key (seq + word_of_nat (length payload)) ack) segs acks"
     "fl_queue (tb_flows b2 ! i) = fl_queue (tb_flows b1 ! i) @ map snd segs"
     "fl_written (tb_flows b2 ! i) = fl_written (tb_flows b1 ! i)"
    using Cons.IH [of b1 "out @ [ack]"] Cons.prems(2-4) one by auto
  show ?case
    using rest one seg(1,2) s by (intro exI [of _ b2] exI [of _ "ack # acks"]) simp
qed simp

text \<open>The segments of a stream that is sent in order.\<close>

fun in_order :: "u32 \<Rightarrow> bytes list \<Rightarrow> (u32 \<times> bytes) list" where
  "in_order seq [] = []"
| "in_order seq (payload # payloads) = (seq, payload) # in_order (seq + word_of_nat (length payload)) payloads"

lemma map_snd_in_order [simp]: "map snd (in_order seq payloads) = payloads"
  by (induction seq payloads rule: in_order.induct) simp_all

lemma set_in_order: "(q, b) \<in> set (in_order seq payloads) \<Longrightarrow> b \<in> set payloads"
  by (induction seq payloads rule: in_order.induct) auto

lemma length_in_order [simp]: "length (in_order seq payloads) = length payloads"
  by (induction seq payloads rule: in_order.induct) simp_all

lemma in_order_eq_Nil [simp]: "in_order seq payloads = [] \<longleftrightarrow> payloads = []"
  by (cases payloads) simp_all

lemma nth_in_order:
  "j < length payloads \<Longrightarrow>
     in_order seq payloads ! j = (seq + word_of_nat (length (concat (take j payloads))), payloads ! j)"
proof (induction seq payloads arbitrary: j rule: in_order.induct)
  case (2 seq payload payloads)
  then show ?case by (cases j) (simp_all add: ac_simps)
qed simp

lemma last_in_order:
  assumes "payloads \<noteq> []"
  shows "fst (last (in_order seq payloads)) + word_of_nat (length (snd (last (in_order seq payloads)))) =
     seq + word_of_nat (length (concat payloads))"
  using assms
proof (induction seq payloads rule: in_order.induct)
  case (2 seq payload payloads)
  then show ?case by (cases "payloads = []") (simp_all add: ac_simps)
qed simp

text \<open>The flow task moves bytes from the channel to the local stream and loses none.\<close>

lemma flow_recv_keeps_bytes:
  "flow_recv fl = Some fl' \<Longrightarrow> fl_written fl' @ concat (fl_queue fl') = fl_written fl @ concat (fl_queue fl)"
  by (auto split: list.splits)


definition demo_key :: nat_key where
  "demo_key = ((V4 0x0A000002, 50000), (V4 0x08080808, 443))"

definition demo_flow :: tcp_flow where
  "demo_flow = \<lparr>fl_client = fst demo_key, fl_remote = snd demo_key, fl_server_seq = 1, fl_client_ack_seen = 1,
     fl_client_window_seen = 8192, fl_queue = [], fl_ended = False, fl_cancelled = False, fl_client_ack = 8, fl_written = []\<rparr>"

definition demo_bridge :: tcp_bridge where
  "demo_bridge = \<lparr>tb_entries = [(demo_key, \<lparr>te_flow = 0, te_last_seen = 0, te_client_next_seq = 8, te_client_window_scale = 0\<rparr>)],
     tb_redirect_port = 1080, tb_idle_timeout = 120, tb_max = 16, tb_flows = [demo_flow]\<rparr>"

lemma demo_established: "established demo_key 0 demo_bridge" "next_seq demo_key demo_bridge = 8"
    "tb_flows demo_bridge ! 0 = demo_flow"
  by (simp_all add: established_def demo_bridge_def demo_flow_def next_seq_def)

lemma demo_fits: "length b \<le> 65000 \<Longrightarrow> segment_fits demo_key b"
  by (simp add: segment_fits_def fits_def demo_key_def)

lemma demo_room: "length (fl_queue (tb_flows demo_bridge ! 0)) = 0" "fl_written (tb_flows demo_bridge ! 0) = []"
    "fl_queue (tb_flows demo_bridge ! 0) = []"
  by (simp_all add: demo_established demo_flow_def)


section \<open>Where the bridge loses or duplicates data\<close>

text \<open>A segment with the FIN flag, whatever payload it carries.\<close>

lemma cancelled_by_remove:
  assumes "map_of (tb_entries br) key = Some e" "te_flow e = i" "i < length (tb_flows br)"
    and "\<forall>(k', e') \<in> set (tb_entries br). te_flow e' = i \<longrightarrow> k' = key"
  shows "tb_flows (tcp_remove key br) ! i = (tb_flows br ! i)\<lparr>fl_cancelled := True\<rparr>"
proof -
  have "i \<in> set (map (te_flow \<circ> snd) (tb_entries br))" using assms(1,2) by (force dest: map_of_SomeD)
  moreover have "i \<notin> set (map (te_flow \<circ> snd) (remove_key key (tb_entries br)))"
    using assms(4) by (auto simp: remove_key_def)
  ultimately show ?thesis using assms(3) by (simp add: tcp_remove_def set_entries_def)
qed

lemma fin_segment_step:
  assumes "established key i br" "pk_protocol p = TransTcp" "packet_key p = key" "tcp_header_from p raw = Some h"
    "th_flags h = TCP_FIN OR TCP_ACK" "fits 20 (fst (fst key)) (fst (snd key))" "length out < WRITE_CHAN_CAP"
  shows "\<exists>br' ack. tcp_forward p raw now now' br out = (Ready (Inr ()), br', out @ [ack]) \<and>
     is_ack key (th_seq h + 1) ack \<and> map_of (tb_entries br') key = None \<and>
     fl_queue (tb_flows br' ! i) = fl_queue (tb_flows br ! i) \<and> fl_cancelled (tb_flows br' ! i)"
proof -
  obtain e where e: "map_of (tb_entries br) key = Some e" "te_flow e = i" and i: "i < length (tb_flows br)"
    and own: "\<forall>(k', e') \<in> set (tb_entries br). te_flow e' = i \<longrightarrow> k' = key"
    using assms(1) by (auto simp: established_def)
  let ?b = "tcp_set_next key (th_seq h + 1) (tcp_refresh key h now e br)"
  obtain ack where ack: "send_ack key e (th_seq h + 1) ?b out = (Ready (), out @ [ack])" "is_ack key (th_seq h + 1) ack"
    using send_ack_ready [OF assms(6,7)] by blast
  have flags: "\<not> has_flag (th_flags h) TCP_RST" "\<not> has_flag (th_flags h) TCP_SYN" "has_flag (th_flags h) TCP_FIN"
    unfolding assms(5) by (simp_all add: has_flag_def tcp_constants)
  have "tcp_forward p raw now now' br out = tcp_fin key e h (tcp_refresh key h now e br) out"
    using assms(2-4) flags e(1) by (simp add: tcp_forward_def Let_def packet_key_def contains_key_def)
  also have "\<dots> = (Ready (Inr ()), tcp_remove key ?b, out @ [ack])" using ack(1) by (simp add: tcp_fin_def Let_def)
  finally have f: "tcp_forward p raw now now' br out = (Ready (Inr ()), tcp_remove key ?b, out @ [ack])" .
  have fl: "tb_flows ?b = tb_flows (tcp_refresh key h now e br)" by (simp add: tcp_set_next_def)
  obtain e' where "map_of (tb_entries ?b) key = Some e'" "te_flow e' = i"
    using e by (simp add: tcp_set_next_def map_of_update_key refresh_entry)
  then have "tb_flows (tcp_remove key ?b) ! i = (tb_flows ?b ! i)\<lparr>fl_cancelled := True\<rparr>"
    using cancelled_by_remove [of ?b key e' i] set_next_owner [OF refresh_owner [OF own]] i refresh_flow [OF i] fl by simp
  then show ?thesis using f ack(2) refresh_flow [OF i] fl
    by (intro exI [of _ "tcp_remove key ?b"] exI [of _ ack]) (simp add: map_of_remove_key)
qed

text \<open>C36: the bridge ignores sequence numbers and drops the payload of a FIN segment.  On an established
  flow a retransmitted segment is delivered a second time; and a last segment that carries data
  together with FIN is acknowledged by one byte, its payload never reaches the channel, and the flow
  task is cancelled, which discards whatever the channel still holds.\<close>

theorem tcp_bridge_duplicates_and_loses_data:
  assumes "established key i br" "payload \<noteq> []" "segment_fits key payload"
    and "length out + 2 \<le> WRITE_CHAN_CAP" "length (fl_queue (tb_flows br ! i)) + 2 \<le> FLOW_CHAN_CAP"
  shows "(\<exists>br' acks. client_sends now key [(seq, payload), (seq, payload)] br out = Some (br', out @ acks) \<and>
       fl_queue (tb_flows br' ! i) = fl_queue (tb_flows br ! i) @ [payload, payload]) \<and>
     (\<exists>raw p br' ack. client_segment key seq 0 (TCP_FIN OR TCP_ACK) payload = Ok (Some raw) \<and>
       parse_ip_packet raw = Ok (Some p) \<and> packet_payload p raw = Some payload \<and>
       tcp_forward p raw now now br out = (Ready (Inr ()), br', out @ [ack]) \<and> is_ack key (seq + 1) ack \<and>
       fl_queue (tb_flows br' ! i) = fl_queue (tb_flows br ! i) \<and>
       flow_cancel (tb_flows br' ! i) = Some ((tb_flows br' ! i)\<lparr>fl_ended := True, fl_queue := []\<rparr>))"
proof (rule conjI)
  show "\<exists>br' acks. client_sends now key [(seq, payload), (seq, payload)] br out = Some (br', out @ acks) \<and>
      fl_queue (tb_flows br' ! i) = fl_queue (tb_flows br ! i) @ [payload, payload]"
    using client_sends_spec [OF assms(1), of "[(seq, payload), (seq, payload)]" out now] assms(2-5) by auto
  obtain raw p h where seg: "client_segment key seq 0 (TCP_FIN OR TCP_ACK) payload = Ok (Some raw)"
    "parse_ip_packet raw = Ok (Some p)" "pk_protocol p = TransTcp" "packet_key p = key" "packet_payload p raw = Some payload"
    "tcp_header_from p raw = Some h" "th_seq h = seq" "th_flags h = TCP_FIN OR TCP_ACK"
    using client_segment_parsed [OF assms(3), of seq 0 "TCP_FIN OR TCP_ACK"] by metis
  have f: "fits 20 (fst (fst key)) (fst (snd key))" using assms(3) fits_mono by (auto simp: segment_fits_def)
  obtain br' ack where "tcp_forward p raw now now br out = (Ready (Inr ()), br', out @ [ack])" "is_ack key (seq + 1) ack"
    "fl_queue (tb_flows br' ! i) = fl_queue (tb_flows br ! i)" "fl_cancelled (tb_flows br' ! i)"
    using fin_segment_step [OF assms(1) seg(3,4,6,8) f, of out now now] assms(4) seg(7) by auto
  then show "\<exists>raw p br' ack. client_segment key seq 0 (TCP_FIN OR TCP_ACK) payload = Ok (Some raw) \<and>
       parse_ip_packet raw = Ok (Some p) \<and> packet_payload p raw = Some payload \<and>
       tcp_forward p raw now now br out = (Ready (Inr ()), br', out @ [ack]) \<and> is_ack key (seq + 1) ack \<and>
       fl_queue (tb_flows br' ! i) = fl_queue (tb_flows br ! i) \<and>
       flow_cancel (tb_flows br' ! i) = Some ((tb_flows br' ! i)\<lparr>fl_ended := True, fl_queue := []\<rparr>)"
    using seg by (intro exI conjI) (assumption | simp add: flow_cancel_def)+
qed

theorem tcp_bridge_duplicates_and_loses_data_witness:
  "\<exists>br' acks. client_sends 5 demo_key [(8, [1, 2]), (8, [1, 2])] demo_bridge [] = Some (br', acks) \<and>
     fl_queue (tb_flows br' ! 0) = [[1, 2], [1, 2]]"
  using tcp_bridge_duplicates_and_loses_data [OF demo_established(1), of "[1, 2]" "[]" 5 8] demo_fits
  unfolding demo_room by (auto simp: WRITE_CHAN_CAP_def FLOW_CHAN_CAP_def)

text \<open>The flow task waits for a window that covers the whole chunk it has read: whatever the client
  acknowledges, a chunk larger than the advertised window is never sent.\<close>

lemma saturating_add_ge: "n \<le> saturating_add a (n :: u32)"
proof (cases "unat a + unat n < 2 ^ 32")
  case True
  then have "unat (a + n) = unat a + unat n" by (simp add: unat_word_ariths)
  then show ?thesis using True by (simp add: saturating_add_def word_le_nat_alt)
qed (simp add: saturating_add_def)

lemma saturating_add_zero: "saturating_add 0 n = (n :: u32)"
  using unsigned_less [where ?'a = nat, of n] by (simp add: saturating_add_def)

lemma window_wait_characterised:
  assumes "chunk \<noteq> []"
  shows "(\<exists>ack. flow_read chunk (fl\<lparr>fl_client_ack_seen := ack\<rparr>) \<noteq> None) \<longleftrightarrow>
     word_of_nat (length chunk) \<le> min (fl_client_window_seen fl) TCP_SEND_WINDOW_CAP"
proof -
  define n w where "n = (word_of_nat (length chunk) :: u32)" and "w = min (fl_client_window_seen fl) TCP_SEND_WINDOW_CAP"
  have iff: "flow_read chunk (fl\<lparr>fl_client_ack_seen := ack\<rparr>) \<noteq> None \<longleftrightarrow> saturating_add (fl_server_seq fl - ack) n \<le> w" for ack
    using assms by (simp add: flow_read_def Let_def window_open_def n_def w_def)
  have "(\<exists>ack. saturating_add (fl_server_seq fl - ack) n \<le> w) \<longleftrightarrow> n \<le> w"
  proof
    assume "\<exists>ack. saturating_add (fl_server_seq fl - ack) n \<le> w"
    then obtain ack where "saturating_add (fl_server_seq fl - ack) n \<le> w" by blast
    then show "n \<le> w" by (rule order.trans [OF saturating_add_ge])
  next
    assume "n \<le> w"
    then have "saturating_add (fl_server_seq fl - fl_server_seq fl) n \<le> w" by (simp add: saturating_add_zero)
    then show "\<exists>ack. saturating_add (fl_server_seq fl - ack) n \<le> w" by blast
  qed
  then show ?thesis unfolding n_def w_def iff [unfolded n_def w_def] .
qed

section \<open>UDP flows\<close>

lemma matches_response_unique:
  "matches_response a q \<Longrightarrow> matches_response b q \<Longrightarrow> a = (b :: flow_key)"
  by (cases a; cases b) (auto simp: matches_response_def)

lemma find_unique:
  assumes "x \<in> set xs" "P x" "\<And>y. P y \<Longrightarrow> y = x"
  shows "find P xs = Some x"
  using assms(1)
proof (induction xs)
  case (Cons y ys)
  show ?case
  proof (cases "P y")
    case True then show ?thesis using assms(3) [OF True] by simp
  next
    case False
    then have "y \<noteq> x" using assms(2) by blast
    then show ?thesis using False Cons by simp
  qed
qed simp

lemma observed_flow_present: "flow \<in> set (map fst (st_sessions (observe_flow flow now st)))"
proof (cases "contains_key flow (st_sessions st)")
  case True
  then have "flow \<in> set (map fst (st_sessions st))" by (simp add: contains_key_def map_of_eq_None_iff)
  then show ?thesis using True by (simp add: observe_flow_eq del: set_map)
next
  case False then show ?thesis by (simp add: observe_flow_eq insert_key_def)
qed

text \<open>A UDP response reaches the flow it belongs to.  For a request that fits the session table has
  observed, the packet made from the remote's response carries valid checksums and the payload, is
  addressed from the remote to the client, and the session table finds exactly the flow of the
  request for it.\<close>

lemma tun_udp_response_finds_its_flow:
  assumes "pk_protocol p = TransUdp" "fits (8 + length payload) (pk_src p) (pk_dst p)"
  shows "\<exists>flow raw q. flow_from_packet p = Some flow \<and>
     build_response_packet (fk_client flow) (fk_remote flow) payload = Ok (Some raw) \<and>
     checksums_ok (pk_dst p) (pk_src p) 17 raw \<and> parse_ip_packet raw = Ok (Some q) \<and>
     packet_payload q raw = Some payload \<and> packet_key q = prod.swap (packet_key p) \<and>
     find_response_flow q (snd (observe_packet p now st)) = Some flow"
proof -
  let ?flow = "\<lparr>fk_client = (pk_src p, pk_src_port p), fk_remote = (pk_dst p, pk_dst_port p), fk_protocol = TransUdp\<rparr>"
  let ?fake = "\<lparr>pk_src = pk_src p, pk_dst = pk_dst p, pk_src_port = pk_src_port p, pk_dst_port = pk_dst_port p,
        pk_protocol = TransUdp, pk_header_len = 0, pk_payload_offset = 0, pk_transport_offset = 0,
        pk_payload_len = 0, pk_tcp_seq = None, pk_tcp_ack = None, pk_tcp_flags = None\<rparr>"
  let ?q = "udp_report (pk_dst p) (pk_src p) (pk_dst_port p) (pk_src_port p) (ip_header_len (pk_src p)) payload"
  obtain raw where r: "build_udp_response_packet ?fake payload = Ok (Some raw)" "checksums_ok (pk_dst p) (pk_src p) 17 raw"
     "drop (ip_header_len (pk_src p) + 8) raw = payload" "parse_ip_packet raw = Ok (Some ?q)"
    using build_udp_wire [of ?fake payload] assms(2) by auto
  have pay: "packet_payload ?q raw = Some payload"
    using parsed_payload [OF r(4)] r(3) by (simp add: udp_report_def)
  have m: "matches_response ?flow ?q" by (simp add: matches_response_def udp_report_def)
  note present = observed_flow_present [of ?flow now st]
  have "find (\<lambda>f. matches_response f ?q) (map fst (st_sessions (observe_flow ?flow now st))) = Some ?flow"
    using present m matches_response_unique [OF _ m] by (rule find_unique)
  then have "find_response_flow ?q (snd (observe_packet p now st)) = Some ?flow"
    using assms(1) by (simp add: find_response_flow_def observe_packet_def flow_from_packet_def Let_def)
  then show ?thesis
    using r pay assms(1)
    by (intro exI [of _ ?flow] exI [of _ raw] exI [of _ ?q])
       (simp add: flow_from_packet_def build_response_packet_def packet_key_def udp_report_def)
qed

text \<open>The states of the NAT table.\<close>

inductive nat_reach :: "('w, 's) nat_net \<Rightarrow> 's nat_table \<times> 'w \<Rightarrow> bool" for net where
  start: "nat_reach net (nat_new mark timeout n, w)"
| forward: "nat_reach net (nt, w) \<Longrightarrow> nat_forward net p raw now now' nt w = (r, nt', w') \<Longrightarrow> nat_reach net (nt', w')"
| idle: "nat_reach net (nt, w) \<Longrightarrow> nat_reach net (snd (nat_evict_idle now nt), w)"
| clear: "nat_reach net (nt, w) \<Longrightarrow> nat_reach net (snd (nat_clear nt), w)"

lemma nat_reach_ok: "nat_reach net t \<Longrightarrow> nat_ok t"
proof (induction rule: nat_reach.induct)
  case (start mark timeout n w) then show ?case by (simp add: nat_ok_def nat_new_def table_ok_def)
next
  case (forward nt w p raw now now' r nt' w')
  then show ?case using nat_forward_step(1,3) [OF forward(2)] by (simp add: nat_ok_def)
next
  case (idle nt w now)
  then show ?case by (simp add: nat_ok_def nat_evict_idle_def Let_def retain_fresh_def table_ok_filter)
next
  case (clear nt w) then show ?case by (simp add: nat_ok_def nat_clear_def table_ok_def)
qed

text \<open>The UDP NAT never exceeds its capacity, and it never takes the socket of an active flow away:
  the flow seen last keeps its entry through any packets of other flows, as long as it is not idle
  and fewer other flows appear than the table has places.\<close>

lemma nat_keeps_active_flows:
  assumes "nat_reach net (nt, w)" "map_of (nt_entries nt) key = Some e"
    and "\<forall>k' e'. k' \<noteq> key \<longrightarrow> map_of (nt_entries nt) k' = Some e' \<longrightarrow> ne_last_seen e' < ne_last_seen e"
    and "run_steps (nat_step net) es (nt, w) (nt', w')" "key \<notin> fst ` set es"
    and "\<forall>(k', now) \<in> set es. now - ne_last_seen e \<le> nt_idle_timeout nt" "card (fst ` set es) < nt_max nt"
  shows "length (nt_entries nt') \<le> nt_max nt \<and> map_of (nt_entries nt') key = Some e"
proof -
  have ok: "nat_ok (nt, w)" by (rule nat_reach_ok [OF assms(1)])
  note good = udp_nat.run_good [OF ok assms(4)]
  have "\<forall>(k', now) \<in> set es. \<not> now - ne_last_seen e > nt_idle_timeout nt" using assms(6) by (auto simp: not_less)
  then have "map_of (nt_entries nt') key = Some e"
    using udp_nat.most_recent_survives [OF ok assms(4), of key e] assms(2,3,5,7) by simp
  then show ?thesis using good by (auto simp: nat_ok_def table_ok_def)
qed

text \<open>A system whose sockets are numbered.\<close>

definition demo_net :: "(nat, nat) nat_net" where
  "demo_net = \<lparr>nn_bind = (\<lambda>_ w. (Inr w, Suc w)), nn_protect = (\<lambda>_ _ w. (Inr (), w)), nn_connect = (\<lambda>_ _ w. (Inr (), w)),
     nn_send = (\<lambda>_ _ w. (Inr (), w)), nn_spawn_reader = (\<lambda>_ _ _ w. w)\<rparr>"

definition demo_udp :: "u16 \<Rightarrow> ip_packet" where
  "demo_udp sport = udp_report (V4 0x0A000002) (V4 0x08080808) sport 5353 20 []"

definition demo_nat1 :: "nat nat_table" where
  "demo_nat1 = \<lparr>nt_entries = [(packet_key (demo_udp 1), \<lparr>ne_socket = 0, ne_last_seen = 5\<rparr>)], nt_bypass_mark = 0, nt_idle_timeout = 60, nt_max = 2\<rparr>"

end
