(* ===== verification/Tun_Runtime.thy ===== *)
theory Tun_Runtime
  imports Tun_Flows
begin

text \<open>
  The write batch of the TUN runtime (crates/blackwire-transport/src/tun/batch.rs) and its packet
  loop (runtime.rs).  The loop is a step relation between its task, which selects or is inside the
  dispatch of a packet, and the tasks that send to the bounded channel; times are natural numbers
  in microseconds, and the device is a predicate telling which writes succeed.

  The theory shows that packets reach the device in the order in which they were sent, none lost or
  repeated, that a batch stays within its configured size and is flushed in time, and that the loop
  can wait for itself.
\<close>

section \<open>Batches\<close>

record tun_batch_config =
  bc_enabled :: bool
  bc_max_packets :: nat
  bc_max_delay :: nat
  bc_latency_flush_bytes :: nat

definition tun_batch_default :: tun_batch_config where
  "tun_batch_default = \<lparr>bc_enabled = True, bc_max_packets = 32, bc_max_delay = 750, bc_latency_flush_bytes = 256\<rparr>"

definition clamp :: "nat \<Rightarrow> nat \<Rightarrow> nat \<Rightarrow> nat" where
  "clamp x lo hi = (if x < lo then lo else if hi < x then hi else x)"

definition normalized :: "tun_batch_config \<Rightarrow> tun_batch_config" where
  "normalized c =
     \<lparr>bc_enabled = bc_enabled c, bc_max_packets = clamp (bc_max_packets c) 1 256, bc_max_delay = min (bc_max_delay c) 10000,
      bc_latency_flush_bytes = (if bc_latency_flush_bytes c = 0 then 0 else clamp (bc_latency_flush_bytes c) 64 4096)\<rparr>"

record tun_batch =
  bt_config :: tun_batch_config
  bt_packets :: "bytes list"
  bt_first_packet_at :: "nat option"

definition batch_new :: "tun_batch_config \<Rightarrow> tun_batch" where
  "batch_new c = \<lparr>bt_config = normalized c, bt_packets = [], bt_first_packet_at = None\<rparr>"

definition batch_push :: "bytes \<Rightarrow> nat \<Rightarrow> tun_batch \<Rightarrow> tun_batch" where
  "batch_push packet now b =
     (let b = (if bt_packets b = [] then b\<lparr>bt_first_packet_at := Some now\<rparr> else b) in
      b\<lparr>bt_packets := bt_packets b @ [packet]\<rparr>)"

definition should_flush :: "nat \<Rightarrow> tun_batch \<Rightarrow> bool" where
  "should_flush now b =
     (case bt_packets b of
        [] \<Rightarrow> False
      | packet # _ \<Rightarrow>
          \<not> bc_enabled (bt_config b) \<or> length (bt_packets b) \<ge> bc_max_packets (bt_config b) \<or>
          (bc_latency_flush_bytes (bt_config b) > 0 \<and> length packet \<le> bc_latency_flush_bytes (bt_config b)) \<or>
          (case bt_first_packet_at b of None \<Rightarrow> False | Some first \<Rightarrow> now - first \<ge> bc_max_delay (bt_config b)))"

definition batch_drain :: "tun_batch \<Rightarrow> bytes list \<times> tun_batch" where
  "batch_drain b = (bt_packets b, b\<lparr>bt_first_packet_at := None, bt_packets := []\<rparr>)"

text \<open>Writing a batch: the first failed write ends the flush, and the packets behind it are dropped with
  the draining iterator.\<close>

fun write_packets :: "(bytes \<Rightarrow> bool) \<Rightarrow> bytes list \<Rightarrow> bool \<times> bytes list" where
  "write_packets dev [] = (True, [])"
| "write_packets dev (packet # ps) =
     (if dev packet then (case write_packets dev ps of (r, done) \<Rightarrow> (r, packet # done)) else (False, []))"

definition flush_tun_batch :: "(bytes \<Rightarrow> bool) \<Rightarrow> tun_batch \<Rightarrow> bool \<times> bytes list \<times> tun_batch" where
  "flush_tun_batch dev b =
     (case batch_drain b of (ps, b) \<Rightarrow> case write_packets dev ps of (r, done) \<Rightarrow> (r, done, b))"

text \<open>Taking further packets from the channel until the batch is due or the channel is empty.\<close>

fun fill_batch :: "nat \<Rightarrow> tun_batch \<Rightarrow> bytes list \<Rightarrow> tun_batch \<times> bytes list" where
  "fill_batch now b [] = (b, [])"
| "fill_batch now b (packet # out) =
     (if should_flush now b then (b, packet # out) else fill_batch now (batch_push packet now b) out)"

section \<open>The packet loop\<close>

text \<open>One task runs the loop, and it is the only receiver of the channel to the device.  The reader and
  flow tasks only send to the channel.\<close>

datatype loop_mode = Selecting | Dispatching bytes | LoopStopped

record ('w, 's) tun_loop =
  lp_mode :: loop_mode
  lp_nat :: "'s nat_table"
  lp_sessions :: session_table
  lp_tcp :: tcp_bridge
  lp_batch :: tun_batch
  lp_out :: "bytes list"
  lp_device :: "bytes list"
  lp_world :: 'w

definition loop_flush :: "(bytes \<Rightarrow> bool) \<Rightarrow> nat \<Rightarrow> ('w, 's) tun_loop \<Rightarrow> ('w, 's) tun_loop" where
  "loop_flush dev now s =
     (if should_flush now (lp_batch s)
      then (case flush_tun_batch dev (lp_batch s) of (_, done, b) \<Rightarrow> s\<lparr>lp_batch := b, lp_device := lp_device s @ done\<rparr>)
      else s)"

definition loop_receive :: "(bytes \<Rightarrow> bool) \<Rightarrow> nat \<Rightarrow> bytes \<Rightarrow> bytes list \<Rightarrow> ('w, 's) tun_loop \<Rightarrow> ('w, 's) tun_loop" where
  "loop_receive dev now packet out s =
     (case fill_batch now (batch_push packet now (lp_batch s)) out of
        (b, out) \<Rightarrow> loop_flush dev now (s\<lparr>lp_batch := b, lp_out := out\<rparr>))"

definition loop_evict :: "nat \<Rightarrow> nat \<Rightarrow> ('w, 's) tun_loop \<Rightarrow> ('w, 's) tun_loop" where
  "loop_evict now udp_idle_timeout s =
     s\<lparr>lp_nat := snd (nat_evict_idle now (lp_nat s)), lp_sessions := snd (remove_expired now udp_idle_timeout (lp_sessions s)),
       lp_tcp := snd (tcp_evict_idle now (lp_tcp s))\<rparr>"

definition loop_stop :: "(bytes \<Rightarrow> bool) \<Rightarrow> ('w, 's) tun_loop \<Rightarrow> ('w, 's) tun_loop" where
  "loop_stop dev s =
     (let s = s\<lparr>lp_mode := LoopStopped\<rparr> in
      if bt_packets (lp_batch s) = [] then s
      else (case flush_tun_batch dev (lp_batch s) of (_, done, b) \<Rightarrow> s\<lparr>lp_batch := b, lp_device := lp_device s @ done\<rparr>))"

inductive tun_loop_step ::
  "('w, 's) nat_net \<Rightarrow> (bytes \<Rightarrow> bool) \<Rightarrow> nat \<Rightarrow> ('w, 's) tun_loop \<Rightarrow> ('w, 's) tun_loop \<Rightarrow> bool" for net dev timeout where
  read: "lp_mode s = Selecting \<Longrightarrow> raw \<noteq> [] \<Longrightarrow> tun_loop_step net dev timeout s (s\<lparr>lp_mode := Dispatching raw\<rparr>)"
| dispatched: "lp_mode s = Dispatching raw \<Longrightarrow>
    tun_dispatch net raw t now now' (lp_nat s) (lp_sessions s) (lp_tcp s) (lp_out s) (lp_world s) =
      (Ready (), nt, st, br, out, w) \<Longrightarrow>
    tun_loop_step net dev timeout s
      (s\<lparr>lp_mode := Selecting, lp_nat := nt, lp_sessions := st, lp_tcp := br, lp_out := out, lp_world := w\<rparr>)"
| receive: "lp_mode s = Selecting \<Longrightarrow> lp_out s = packet # out \<Longrightarrow>
    tun_loop_step net dev timeout s (loop_receive dev now packet out s)"
| batch_tick: "lp_mode s = Selecting \<Longrightarrow> bt_packets (lp_batch s) \<noteq> [] \<Longrightarrow>
    tun_loop_step net dev timeout s (loop_flush dev now s)"
| evict_tick: "lp_mode s = Selecting \<Longrightarrow> tun_loop_step net dev timeout s (loop_evict now timeout s)"
| stop: "lp_mode s = Selecting \<Longrightarrow> tun_loop_step net dev timeout s (loop_stop dev s)"
| task_sends: "lp_mode s \<noteq> LoopStopped \<Longrightarrow> length (lp_out s) < WRITE_CHAN_CAP \<Longrightarrow>
    tun_loop_step net dev timeout s (s\<lparr>lp_out := lp_out s @ [packet]\<rparr>)"
| flow_works: "tun_loop_step net dev timeout s (s\<lparr>lp_tcp := update_flow i f (lp_tcp s)\<rparr>)"

inductive_cases dispatching_stepE: "tun_loop_step net dev timeout s s'"

section \<open>Batches are bounded and flushed in time\<close>

definition batch_ok :: "tun_batch \<Rightarrow> bool" where
  "batch_ok b \<longleftrightarrow> normalized (bt_config b) = bt_config b \<and> length (bt_packets b) < bc_max_packets (bt_config b) \<and>
     (bt_first_packet_at b = None \<longleftrightarrow> bt_packets b = [])"

lemma normalized_idem [simp]: "normalized (normalized c) = normalized c"
  by (simp add: normalized_def clamp_def)

lemma normalized_max [simp]: "0 < bc_max_packets (normalized c)"
  by (simp add: normalized_def clamp_def)

lemma batch_ok_new: "batch_ok (batch_new c)"
  by (simp add: batch_ok_def batch_new_def)

text \<open>A batch with a packet is due after ten milliseconds at the latest.\<close>

lemma batch_due:
  assumes "batch_ok b" "bt_packets b \<noteq> []"
  obtains first where "bt_first_packet_at b = Some first" "\<And>now. first + 10000 \<le> now \<Longrightarrow> should_flush now b"
proof -
  from assms obtain first where f: "bt_first_packet_at b = Some first" by (auto simp: batch_ok_def)
  have "bc_max_delay (bt_config b) = min (bc_max_delay (bt_config b)) 10000"
    using assms(1) by (metis (no_types, lifting) batch_ok_def normalized_def tun_batch_config.select_convs(3))
  then have "bc_max_delay (bt_config b) \<le> 10000" by linarith
  then have "should_flush now b" if "first + 10000 \<le> now" for now
    using that f assms(2) by (auto simp: should_flush_def split: list.splits)
  with f show thesis by (rule that)
qed

lemma write_packets_all: "(\<And>q. dev q) \<Longrightarrow> write_packets dev ps = (True, ps)"
  by (induction ps) simp_all

lemma flush_all:
  "(\<And>q. dev q) \<Longrightarrow> flush_tun_batch dev b = (True, bt_packets b, b\<lparr>bt_first_packet_at := None, bt_packets := []\<rparr>)"
  by (simp add: flush_tun_batch_def batch_drain_def write_packets_all)

lemma batch_push_sel [simp]:
  "bt_packets (batch_push q now b) = bt_packets b @ [q]" "bt_config (batch_push q now b) = bt_config b"
  "bt_first_packet_at (batch_push q now b) = None \<longleftrightarrow> bt_packets b \<noteq> [] \<and> bt_first_packet_at b = None"
  by (simp_all add: batch_push_def Let_def)

text \<open>Taking packets from the channel: nothing is lost or reordered, and a batch that is not due is in
  order.\<close>

lemma fill_batch_stream:
  "fill_batch now b out = (b', out') \<Longrightarrow> bt_packets b' @ out' = bt_packets b @ out \<and> bt_config b' = bt_config b \<and>
     (bt_packets b \<noteq> [] \<longrightarrow> bt_first_packet_at b \<noteq> None \<longrightarrow> bt_packets b' \<noteq> [] \<and> bt_first_packet_at b' \<noteq> None)"
  by (induction now b out rule: fill_batch.induct) (auto split: if_splits)

lemma not_due_short: "\<not> should_flush now b \<Longrightarrow> bt_packets b \<noteq> [] \<Longrightarrow> length (bt_packets b) < bc_max_packets (bt_config b)"
  by (auto simp: should_flush_def neq_Nil_conv)

lemma emptied_ok:
  "normalized (bt_config b) = bt_config b \<Longrightarrow> batch_ok (b\<lparr>bt_first_packet_at := None, bt_packets := []\<rparr>)"
  by (metis (no_types, lifting) batch_ok_def list.size(3) normalized_max tun_batch.select_convs tun_batch.surjective tun_batch.update_convs(2,3))

section \<open>Packets reach the device in order\<close>

text \<open>Everything that was sent to the device: written, in the batch, in the channel.\<close>

definition device_stream :: "('w, 's) tun_loop \<Rightarrow> bytes list" where
  "device_stream s = lp_device s @ bt_packets (lp_batch s) @ lp_out s"

lemma loop_flush_stream:
  assumes "\<And>q. dev q"
  shows "device_stream (loop_flush dev now s) = device_stream s"
    "lp_mode (loop_flush dev now s) = lp_mode s"
  by (simp_all add: loop_flush_def flush_all [OF assms] device_stream_def)

lemma loop_flush_ok:
  assumes "\<And>q. dev q" "normalized (bt_config (lp_batch s)) = bt_config (lp_batch s)"
    "bt_packets (lp_batch s) \<noteq> []" "bt_first_packet_at (lp_batch s) \<noteq> None"
  shows "batch_ok (lp_batch (loop_flush dev now s))"
  using assms(2-4) emptied_ok [OF assms(2)] not_due_short [of now "lp_batch s"]
  by (auto simp: loop_flush_def flush_all [OF assms(1)] batch_ok_def)

lemma loop_flush_config: "bt_config (lp_batch (loop_flush dev now s)) = bt_config (lp_batch s)"
  by (simp add: loop_flush_def flush_tun_batch_def batch_drain_def split: prod.splits)

lemma loop_receive_ok:
  assumes dev: "\<And>q. dev q" and "lp_out s = packet # out" "batch_ok (lp_batch s)"
  shows "device_stream (loop_receive dev now packet out s) = device_stream s"
    "batch_ok (lp_batch (loop_receive dev now packet out s))"
    "bt_config (lp_batch (loop_receive dev now packet out s)) = bt_config (lp_batch s)"
proof -
  obtain b' out' where f: "fill_batch now (batch_push packet now (lp_batch s)) out = (b', out')" by fastforce
  let ?s = "s\<lparr>lp_batch := b', lp_out := out'\<rparr>"
  have r: "loop_receive dev now packet out s = loop_flush dev now ?s" by (simp add: loop_receive_def f)
  note b' = fill_batch_stream [OF f]
  have ne: "bt_packets b' \<noteq> []" "bt_first_packet_at b' \<noteq> None"
    using b' assms(3) by (auto simp: batch_ok_def)
  show "device_stream (loop_receive dev now packet out s) = device_stream s"
    using b' assms(2) by (simp add: r loop_flush_stream [OF dev]) (simp add: device_stream_def)
  show "batch_ok (lp_batch (loop_receive dev now packet out s))"
    unfolding r by (rule loop_flush_ok [OF dev]) (use b' ne assms(3) in \<open>simp_all add: batch_ok_def\<close>)
  show "bt_config (lp_batch (loop_receive dev now packet out s)) = bt_config (lp_batch s)"
    using b' by (simp add: r loop_flush_config)
qed

text \<open>A dispatch only appends to the channel.\<close>

lemma tun_send_appends: "prefix out (snd (tun_send packet out))"
  by (simp add: tun_send_def)

lemma send_control_appends: "prefix out (snd (send_control src dst seq ack flags window options out))"
  by (simp add: send_control_def tun_send_appends split: res.split option.split)

lemma tcp_forward_appends: "prefix out (snd (snd (tcp_forward p raw now now' br out)))"
proof -
  have 1: "prefix out (snd (snd (tcp_open c r tcp now now' br out)))" for c r tcp br
    using send_control_appends [of out] by (simp add: tcp_open_def Let_def split: prod.split) (metis snd_conv)
  have 2: "prefix out (snd (snd (tcp_fin key e tcp br out)))" for key e tcp br
    using send_control_appends [of out]
    by (simp add: tcp_fin_def send_ack_def Let_def split: prod.split await.split) (metis snd_conv)
  have 3: "prefix out (snd (snd (tcp_data key e tcp pl br out)))" for key e tcp pl br
    using send_control_appends [of out]
    by (simp add: tcp_data_def send_ack_def Let_def split: prod.split await.split) (metis snd_conv)
  show ?thesis using 1 2 3 by (simp add: tcp_forward_def Let_def split: option.split)
qed

lemma tun_dispatch_appends:
  assumes "tun_dispatch net raw t now now' nt st br out w = (r, nt', st', br', out', w')"
  shows "prefix out out'"
proof (cases "parse_ip_packet raw")
  case (Ok p)
  then show ?thesis
  proof (cases p)
    case (Some q)
    show ?thesis
    proof (cases "pk_protocol q")
      case TransTcp
      obtain a br1 out1 where f: "tcp_forward q raw now now' br out = (a, br1, out1)" by (metis prod_cases3)
      with tcp_forward_appends [of out q raw now now' br] have "prefix out out1" by simp
      then show ?thesis using assms Ok Some TransTcp f
        by (cases a) (auto simp: tun_dispatch_def Let_def)
    qed (use assms Ok Some in \<open>auto simp: tun_dispatch_def Let_def split: prod.splits if_splits\<close>)
  qed (use assms in \<open>auto simp: tun_dispatch_def\<close>)
qed (use assms in \<open>auto simp: tun_dispatch_def\<close>)

lemma loop_stop_ok:
  assumes dev: "\<And>q. dev q" and "batch_ok (lp_batch s)"
  shows "device_stream (loop_stop dev s) = device_stream s" "batch_ok (lp_batch (loop_stop dev s))"
    "bt_config (lp_batch (loop_stop dev s)) = bt_config (lp_batch s)"
  using assms(2) emptied_ok [of "lp_batch s"]
  by (simp_all add: loop_stop_def Let_def flush_all [OF dev] device_stream_def batch_ok_def)

lemma loop_step_stream:
  assumes "tun_loop_step net dev timeout s s'" and dev: "\<And>q. dev q" and "batch_ok (lp_batch s)"
  shows "prefix (device_stream s) (device_stream s') \<and> batch_ok (lp_batch s') \<and>
    bt_config (lp_batch s') = bt_config (lp_batch s)"
  using assms(1)
proof (cases rule: tun_loop_step.cases)
  case (dispatched raw t now now' nt st br out w)
  then show ?thesis using tun_dispatch_appends [OF dispatched(3)] assms(3) by (simp add: device_stream_def)
next
  case (receive packet out now)
  then show ?thesis using loop_receive_ok [of dev s packet out now] receive(3) dev assms(3) by simp
next
  case (batch_tick now)
  then show ?thesis using loop_flush_ok [of dev s now] loop_flush_stream [of dev now s] dev assms(3)
    by (simp add: batch_ok_def loop_flush_config)
next
  case stop
  then show ?thesis using loop_stop_ok [OF dev assms(3)] by simp
qed (use assms(3) in \<open>simp_all add: device_stream_def loop_evict_def\<close>)

lemma loop_steps_stream:
  assumes "(tun_loop_step net dev timeout)\<^sup>*\<^sup>* s s'" and "\<And>q. dev q" and "batch_ok (lp_batch s)"
  shows "prefix (device_stream s) (device_stream s') \<and> batch_ok (lp_batch s') \<and>
    bt_config (lp_batch s') = bt_config (lp_batch s)"
  using assms(1)
proof (induction rule: rtranclp_induct)
  case (step y z)
  then show ?case using loop_step_stream [OF step(2) assms(2)] by (metis prefix_order.trans)
qed (simp add: assms(3))



section \<open>A loop that waits for itself\<close>

lemma send_control_blocked:
  assumes "fits 24 (fst src) (fst dst)" "length options = 4" "\<not> length out < WRITE_CHAN_CAP"
  shows "send_control src dst seq ack flags window options out = (Blocked, out)"
proof -
  let ?sp = "\<lparr>sp_src = src, sp_dst = dst, sp_seq = seq, sp_ack = ack, sp_flags = flags, sp_window = window,
    sp_options = options, sp_payload = []\<rparr>"
  have "fits (tcp_len_of ?sp) (fst (sp_src ?sp)) (fst (sp_dst ?sp))"
    using assms(1,2) by (simp add: tcp_len_of_def padded_options_len_def)
  from build_tcp_wire [OF this] show ?thesis
    using assms(3) by (auto simp: send_control_def tun_send_def)
qed

text \<open>Opening a flow while the channel is full.\<close>

lemma dispatch_syn_blocked:
  assumes "segment_fits key (replicate 4 0)" "client_segment key seq 0 TCP_SYN [] = Ok (Some raw)"
    "map_of (tb_entries br) key = None" "table_ok (tb_max br) (tb_entries br)" "\<not> length out < WRITE_CHAN_CAP"
  shows "fst (tun_dispatch net raw t now now' nt st br out w) = Blocked"
proof -
  have f: "segment_fits key []" using assms(1) fits_mono by (auto simp: segment_fits_def)
  obtain p h where p: "parse_ip_packet raw = Ok (Some p)" "pk_protocol p = TransTcp" "packet_key p = key"
    "tcp_header_from p raw = Some h" "th_flags h = TCP_SYN"
    using client_segment_parsed [OF f, of seq 0 TCP_SYN] assms(2) by (metis option.inject res.inject(1))
  have flags: "\<not> has_flag (th_flags h) TCP_RST" "has_flag (th_flags h) TCP_SYN"
    unfolding p(5) by (simp_all add: has_flag_def tcp_constants)
  have "tcp_forward p raw now now' br out = tcp_open (fst key) (snd key) h now now' br out"
    using p flags assms(3) by (auto simp: tcp_forward_def Let_def packet_key_def contains_key_def)
  moreover have "length (tb_entries (tcp_make_room now' br)) < tb_max br"
  proof -
    have "distinct (map fst (tb_entries br))" "length (tb_entries br) \<le> tb_max br" "1 \<le> tb_max br"
      using assms(4) by (simp_all add: table_ok_def)
    then show ?thesis by (simp add: make_room_spec(2))
  qed
  moreover have "fits 24 (fst (snd key)) (fst (fst key))" using assms(1) fits_sym by (simp add: segment_fits_def)
  ultimately have "fst (tcp_forward p raw now now' br out) = Blocked"
    using assms(5) by (simp add: tcp_open_def Let_def send_control_blocked after_send_def)
  then show ?thesis using p(1,2)
    by (cases "tcp_forward p raw now now' br out") (simp add: tun_dispatch_def Let_def)
qed

text \<open>C37: the packet loop can stop for good.  It is the only receiver of the bounded channel to the TUN
  device, and it sends to that channel itself while it dispatches a packet.  Once the other tasks
  have filled the channel, the dispatch of a new TCP connection never completes: in every state
  reachable from there the loop is still dispatching the same packet and the channel is unchanged.\<close>

theorem tun_loop_deadlocks_on_full_channel:
  assumes "segment_fits key (replicate 4 0)" "client_segment key seq 0 TCP_SYN [] = Ok (Some raw)"
    and "lp_mode s = Dispatching raw" "length (lp_out s) = WRITE_CHAN_CAP"
    and "map_of (tb_entries (lp_tcp s)) key = None" "table_ok (tb_max (lp_tcp s)) (tb_entries (lp_tcp s))"
    and "(tun_loop_step net dev timeout)\<^sup>*\<^sup>* s s'"
  shows "lp_mode s' = Dispatching raw \<and> lp_out s' = lp_out s"
proof -
  have "lp_mode s' = Dispatching raw \<and> lp_out s' = lp_out s \<and> tb_entries (lp_tcp s') = tb_entries (lp_tcp s) \<and>
      tb_max (lp_tcp s') = tb_max (lp_tcp s)"
    using assms(7)
  proof (induction rule: rtranclp_induct)
    case (step y z)
    have "tun_dispatch net raw t now now' (lp_nat y) (lp_sessions y) (lp_tcp y) (lp_out y) (lp_world y) \<noteq> (Ready (), x)" for t now now' x
      using dispatch_syn_blocked [OF assms(1,2), of "lp_tcp y" "lp_out y" net t now now' "lp_nat y" "lp_sessions y" "lp_world y"]
        step(3) assms(4-6) by auto
    then show ?case using step(2) step(3) assms(4) by (auto elim!: dispatching_stepE)
  qed (simp add: assms(3))
  then show ?thesis by simp
qed

theorem tun_loop_deadlocks_on_full_channel_witness:
  "\<exists>raw s s'. client_segment demo_key 7 0 TCP_SYN [] = Ok (Some raw) \<and> tun_loop_step demo_net (\<lambda>_. True) 60 s s' \<and>
     lp_mode s' = Dispatching raw \<and> length (lp_out s') = 1024"
proof -
  obtain raw where raw: "client_segment demo_key 7 0 TCP_SYN [] = Ok (Some raw)"
    using client_segment_parsed [OF demo_fits, of "[]" 7 0 TCP_SYN] by auto
  define s where "s = \<lparr>lp_mode = Dispatching raw, lp_nat = demo_nat1, lp_sessions = with_max_sessions 8,
    lp_tcp = tcp_new 1080 120 16, lp_batch = batch_new tun_batch_default,
    lp_out = replicate 1024 [], lp_device = [], lp_world = 0 :: nat\<rparr>"
  let ?s' = "s\<lparr>lp_tcp := update_flow 0 id (lp_tcp s)\<rparr>"
  have step: "tun_loop_step demo_net (\<lambda>_. True) 60 s ?s'" by (rule tun_loop_step.flow_works)
  have "lp_mode ?s' = Dispatching raw \<and> lp_out ?s' = lp_out s"
  proof (rule tun_loop_deadlocks_on_full_channel [OF _ raw])
    show "segment_fits demo_key (replicate 4 0)" by (rule demo_fits) simp
    show "(tun_loop_step demo_net (\<lambda>_. True) 60)\<^sup>*\<^sup>* s ?s'" using step by (rule r_into_rtranclp)
  qed (simp_all add: s_def WRITE_CHAN_CAP_def tcp_new_def table_ok_def)
  then show ?thesis using raw step by (intro exI [of _ raw] exI [of _ s] exI [of _ ?s']) (simp add: s_def)
qed

end
