(* ===== verification/Socks.thy ===== *)
theory Socks
  imports Addresses
begin

text \<open>
  The SOCKS5 inbound (crates/blackwire-protocol/src/socks.rs), its UDP relay (socks5_udp.rs), and the
  SOCKS5 client through which the TUN bridge reaches it (\<^verbatim>\<open>connect_local_socks\<close> in
  crates/blackwire-transport/src/tun/tcp.rs).

  A connection is the bytes still to be read, the bytes written and whether writing fails.  The
  sockets of the UDP relay are an environment acting on a world state; a wait for an upstream
  datagram gives the datagram with its source, which the relay does not ask for.

  The theory characterises the handshake completely, shows that the bridge's client and the handler
  understand each other, and that the UDP relay labels a reply with the destination of the latest
  query, whoever sent it.
\<close>

section \<open>The handshake\<close>

definition SOCKS_VERSION :: u8 where "SOCKS_VERSION = 5"
definition METHOD_NO_AUTH :: u8 where "METHOD_NO_AUTH = 0x00"
definition METHOD_NO_ACCEPTABLE :: u8 where "METHOD_NO_ACCEPTABLE = 0xFF"
definition CMD_CONNECT :: u8 where "CMD_CONNECT = 0x01"
definition CMD_UDP_ASSOCIATE :: u8 where "CMD_UDP_ASSOCIATE = 0x03"
definition RSV :: u8 where "RSV = 0x00"
definition REP_SUCCESS :: u8 where "REP_SUCCESS = 0x00"
definition REP_CMD_NOT_SUPPORTED :: u8 where "REP_CMD_NOT_SUPPORTED = 0x07"

lemmas socks_constants = SOCKS_VERSION_def METHOD_NO_AUTH_def METHOD_NO_ACCEPTABLE_def CMD_CONNECT_def
  CMD_UDP_ASSOCIATE_def RSV_def REP_SUCCESS_def REP_CMD_NOT_SUPPORTED_def

datatype socks5_request = SocksConnect address | SocksUdpAssociate

record duplex =
  dx_in :: bytes
  dx_out :: bytes
  dx_broken :: bool

definition take_from :: "(bytes \<Rightarrow> ('a \<times> bytes) res) \<Rightarrow> (duplex, 'a) io" where
  "take_from f = (\<lambda>dx. case f (dx_in dx) of
       Ok (x, rest) \<Rightarrow> (Ok x, dx\<lparr>dx_in := rest\<rparr>) | Err e \<Rightarrow> (Err e, dx) | Panic \<Rightarrow> (Panic, dx))"

definition write_all :: "bytes \<Rightarrow> (duplex, unit) io" where
  "write_all bs = (\<lambda>dx. if dx_broken dx then (Err (Io BrokenPipe), dx) else (Ok (), dx\<lparr>dx_out := dx_out dx @ bs\<rparr>))"

definition send_bind_reply :: "u8 \<Rightarrow> socket_addr \<Rightarrow> (duplex, unit) io" where
  "send_bind_reply rep bind =
     io_then (io_lift (write_socks5_address [SOCKS_VERSION, rep, RSV] (from_socket_addr bind))) write_all"

definition send_reply :: "u8 \<Rightarrow> (duplex, unit) io" where
  "send_reply rep = send_bind_reply rep (V4 0, 0)"

definition socks5_request_phase :: "(duplex, socks5_request) io" where
  "socks5_request_phase =
     io_then (take_from read_u8) (\<lambda>ver.
     if ver \<noteq> SOCKS_VERSION then io_lift (Err (Protocol ''bad version in request''))
     else
       io_then (take_from read_u8) (\<lambda>cmd.
       io_then (take_from read_u8) (\<lambda>_.
       io_then (take_from read_u8) (\<lambda>atyp.
       io_then (take_from (\<lambda>s. read_socks5_address s atyp ''SOCKS5'')) (\<lambda>d.
       if cmd = CMD_CONNECT then io_then (send_reply REP_SUCCESS) (\<lambda>_. io_lift (Ok (SocksConnect d)))
       else if cmd = CMD_UDP_ASSOCIATE then io_lift (Ok SocksUdpAssociate)
       else
         io_then (send_reply REP_CMD_NOT_SUPPORTED) (\<lambda>_.
         io_lift (Err (Protocol (''SOCKS5 CMD '' @ fmt_dec (unat cmd) @ '' not supported'')))))))))"

definition perform_socks5_handshake :: "(duplex, socks5_request) io" where
  "perform_socks5_handshake =
     io_then (take_from read_u8) (\<lambda>ver.
     if ver \<noteq> SOCKS_VERSION
     then io_lift (Err (Protocol (''SOCKS version '' @ fmt_dec (unat ver) @ '' not supported (expected 5)'')))
     else
       io_then (take_from read_u8) (\<lambda>nmethods.
       if nmethods = 0 then io_lift (Err (Protocol ''no auth methods offered''))
       else
         io_then (take_from (read_exact (unat nmethods))) (\<lambda>offered.
         if METHOD_NO_AUTH \<notin> set offered
         then io_then (write_all [SOCKS_VERSION, METHOD_NO_ACCEPTABLE]) (\<lambda>_. io_lift (Err AuthFailed))
         else io_then (write_all [SOCKS_VERSION, METHOD_NO_AUTH]) (\<lambda>_. socks5_request_phase))))"

text \<open>The handshake runs over a buffered reader, which may have read \<open>ahead\<close> bytes of what follows.\<close>

definition socks5_handshake_with_early_payload :: "nat \<Rightarrow> (duplex, socks5_request \<times> bytes option) io" where
  "socks5_handshake_with_early_payload ahead =
     io_then perform_socks5_handshake (\<lambda>request dx.
       let early_payload = take ahead (dx_in dx) in
       (Ok (request, if early_payload = [] then None else Some early_payload), dx\<lparr>dx_in := drop ahead (dx_in dx)\<rparr>))"

datatype socks_outcome = SocksDispatch address "bytes option" | SocksRelay socket_addr

text \<open>The handler up to the dispatcher or the UDP relay; \<open>bound\<close> is the address of the relay socket.\<close>

definition socks5_handle :: "nat \<Rightarrow> socket_addr res \<Rightarrow> (duplex, socks_outcome) io" where
  "socks5_handle ahead bound =
     io_then (socks5_handshake_with_early_payload ahead) (\<lambda>(request, early_payload).
       case request of
         SocksConnect d \<Rightarrow> io_lift (Ok (SocksDispatch d early_payload))
       | SocksUdpAssociate \<Rightarrow>
           io_then (io_lift bound) (\<lambda>bind_addr.
           io_then (send_bind_reply REP_SUCCESS bind_addr) (\<lambda>_. io_lift (Ok (SocksRelay bind_addr)))))"

section \<open>The client of the TUN bridge\<close>

datatype socks_client_error = ClientIo | RejectedNoAuth | ConnectFailed u8 | UnsupportedAtyp u8

definition client_read :: "nat \<Rightarrow> bytes \<Rightarrow> (bytes \<Rightarrow> bytes \<Rightarrow> socks_client_error + 'a) \<Rightarrow> socks_client_error + 'a" where
  "client_read n s f = (if n \<le> length s then f (take n s) (drop n s) else Inl ClientIo)"

definition read_socks_reply :: "bytes \<Rightarrow> socks_client_error + bytes" where
  "read_socks_reply s =
     client_read 4 s (\<lambda>head s.
       if head ! 0 \<noteq> 0x05 \<or> head ! 1 \<noteq> 0x00 then Inl (ConnectFailed (head ! 1))
       else
         let atyp = head ! 3 in
         if atyp = 0x01 then client_read (4 + 2) s (\<lambda>_ s. Inr s)
         else if atyp = 0x03 then client_read 1 s (\<lambda>len s. client_read (unat (len ! 0) + 2) s (\<lambda>_ s. Inr s))
         else if atyp = 0x04 then client_read (16 + 2) s (\<lambda>_ s. Inr s)
         else Inl (UnsupportedAtyp atyp))"

fun socks_connect_request :: "socket_addr \<Rightarrow> bytes" where
  "socks_connect_request (V4 ip, p) = [0x05, 0x01, 0x00] @ [0x01] @ to_be 4 ip @ to_be 2 p"
| "socks_connect_request (V6 ip, p) = [0x05, 0x01, 0x00] @ [0x04] @ to_be 16 ip @ to_be 2 p"

text \<open>The client as a function of what it receives: its result, the bytes received after the reply, and
  what it has sent by then.\<close>

definition connect_local_socks :: "socket_addr \<Rightarrow> bytes \<Rightarrow> (socks_client_error + bytes) \<times> bytes" where
  "connect_local_socks remote s =
     (let sent = [0x05, 0x01, 0x00] in
      if length s < 2 then (Inl ClientIo, sent)
      else if take 2 s \<noteq> [0x05, 0x00] then (Inl RejectedNoAuth, sent)
      else (read_socks_reply (drop 2 s), sent @ socks_connect_request remote))"

section \<open>The UDP relay\<close>

definition SOCKS_UDP_HEADER :: nat where "SOCKS_UDP_HEADER = 3"

definition socks5_parse_udp_datagram :: "bytes \<Rightarrow> (address \<times> bytes) res" where
  "socks5_parse_udp_datagram buf =
     (if length buf < SOCKS_UDP_HEADER then Err (Protocol ''SOCKS5 UDP datagram too short'')
      else
        and_then (idx buf 0) (\<lambda>b0.
        and_then (if b0 \<noteq> 0 then Ok True else and_then (idx buf 1) (\<lambda>b1. Ok (b1 \<noteq> 0))) (\<lambda>bad.
        if bad then Err (Protocol ''SOCKS5 UDP RSV must be zero'')
        else
          and_then (idx buf 2) (\<lambda>frag.
          if frag \<noteq> 0 then Err (Protocol (''SOCKS5 UDP fragment '' @ fmt_hex frag @ '' not supported''))
          else
            and_then (idx buf 3) (\<lambda>atyp.
            and_then (slice buf 4 (length buf)) (\<lambda>data.
            and_then (decode_socks5_address data atyp ''SOCKS5 UDP'') (\<lambda>(d, consumed).
            let off = 4 + consumed in
            if off > length buf then Err (Protocol ''SOCKS5 UDP truncated payload'')
            else and_then (slice buf off (length buf)) (\<lambda>payload. Ok (d, payload)))))))))"

definition socks5_encode_udp_datagram :: "address \<Rightarrow> bytes \<Rightarrow> bytes res" where
  "socks5_encode_udp_datagram d payload =
     and_then (write_socks5_address [0, 0, 0] d) (\<lambda>buf. Ok (buf @ payload))"

definition socks5_encode_udp_datagram_into :: "address \<Rightarrow> bytes \<Rightarrow> bytes \<Rightarrow> bytes res" where
  "socks5_encode_udp_datagram_into d payload buf =
     (let buf = [];
          buf = buf @ [0, 0, 0] in
      and_then (write_socks5_address buf d) (\<lambda>buf. Ok (buf @ payload)))"

record 'w assoc_net =
  an_lookup :: "string \<Rightarrow> u16 \<Rightarrow> ('w, socket_addr list) io"
  an_send :: "bytes \<Rightarrow> socket_addr \<Rightarrow> 'w \<Rightarrow> bool \<times> 'w"
  an_wait :: "'w \<Rightarrow> (socket_addr \<times> bytes) option \<times> 'w"
  an_reply :: "bytes \<Rightarrow> socket_addr \<Rightarrow> 'w \<Rightarrow> 'w"

fun resolve_udp_dest :: "'w assoc_net \<Rightarrow> address \<Rightarrow> ('w, socket_addr) io" where
  "resolve_udp_dest net (Ipv4 ip p) = io_lift (Ok (V4 ip, p))"
| "resolve_udp_dest net (Ipv6 ip p) = io_lift (Ok (V6 ip, p))"
| "resolve_udp_dest net (Domain name p) =
     io_then (an_lookup net name p) (\<lambda>addrs.
     io_lift (case addrs of [] \<Rightarrow> Err (DnsResolutionFailed name) | a # _ \<Rightarrow> Ok a))"

text \<open>The wait for a reply; its source is not asked for.\<close>

definition relay_reply :: "'w assoc_net \<Rightarrow> address \<Rightarrow> socket_addr \<Rightarrow> 'w \<Rightarrow> 'w" where
  "relay_reply net d peer w =
     (case an_wait net w of
        (None, w) \<Rightarrow> w
      | (Some (_, reply), w) \<Rightarrow>
          if reply = [] then w
          else (case socks5_encode_udp_datagram_into d reply [] of Ok bs \<Rightarrow> an_reply net bs peer w | _ \<Rightarrow> w))"

definition relay_datagram :: "'w assoc_net \<Rightarrow> ip_addr \<Rightarrow> socket_addr \<Rightarrow> bytes \<Rightarrow> ('w, unit) io" where
  "relay_datagram net client_ip peer buf w =
     (if fst peer \<noteq> client_ip then (Ok (), w)
      else if length buf < SOCKS_UDP_HEADER + 4 then (Ok (), w)
      else case socks5_parse_udp_datagram buf of
          Panic \<Rightarrow> (Panic, w)
        | Err _ \<Rightarrow> (Ok (), w)
        | Ok (d, payload) \<Rightarrow>
            if payload = [] then (Ok (), w)
            else (case resolve_udp_dest net d w of
                (Panic, w) \<Rightarrow> (Panic, w)
              | (Err _, w) \<Rightarrow> (Ok (), w)
              | (Ok upstream, w) \<Rightarrow>
                  (case an_send net payload upstream w of
                     (False, w) \<Rightarrow> (Ok (), w)
                   | (True, w) \<Rightarrow> (Ok (), relay_reply net d peer w))))"

datatype relay_event = FromClient socket_addr bytes | ReceiveFailed string | ControlRead bytes | ControlFailed

text \<open>The relay on a sequence of events; it is still running when the events are used up.\<close>

fun relay_socks5_udp :: "'w assoc_net \<Rightarrow> ip_addr \<Rightarrow> relay_event list \<Rightarrow> 'w \<Rightarrow> unit res option \<times> 'w" where
  "relay_socks5_udp net ip [] w = (None, w)"
| "relay_socks5_udp net ip (FromClient peer buf # evs) w =
     (case relay_datagram net ip peer buf w of
        (Ok _, w) \<Rightarrow> relay_socks5_udp net ip evs w | (Err e, w) \<Rightarrow> (Some (Err e), w) | (Panic, w) \<Rightarrow> (Some Panic, w))"
| "relay_socks5_udp net ip (ReceiveFailed e # evs) w = (Some (Err (Transport e)), w)"
| "relay_socks5_udp net ip (ControlRead bs # evs) w = (if bs = [] then (Some (Ok ()), w) else relay_socks5_udp net ip evs w)"
| "relay_socks5_udp net ip (ControlFailed # evs) w = (Some (Ok ()), w)"

section \<open>Lemmas on the handshake\<close>

lemma take_from_then_Ok_iff:
  "io_then (take_from f) g dx = (Ok y, dx') \<longleftrightarrow>
     (\<exists>x rest. f (dx_in dx) = Ok (x, rest) \<and> g x (dx\<lparr>dx_in := rest\<rparr>) = (Ok y, dx'))"
  by (auto simp: io_then_def take_from_def split: res.splits)

lemma write_all_then_Ok_iff:
  "io_then (write_all bs) g dx = (Ok y, dx') \<longleftrightarrow>
     \<not> dx_broken dx \<and> g () (dx\<lparr>dx_out := dx_out dx @ bs\<rparr>) = (Ok y, dx')"
  by (simp add: io_then_def write_all_def)

lemma send_reply_bytes: "send_reply rep = write_all [5, rep, 0, 1, 0, 0, 0, 0, 0, 0]"
  by (rule ext) (simp add: send_reply_def send_bind_reply_def io_then_def io_lift_def socks_constants numeral_eq_Suc)

lemma io_lift_Ok_iff: "io_lift r w = (Ok y, w') \<longleftrightarrow> r = Ok y \<and> w' = w"
  by (auto simp: io_lift_def)

lemmas handshake_iffs = take_from_then_Ok_iff write_all_then_Ok_iff io_lift_Ok_iff

lemma request_phase_Connect_iff:
  "socks5_request_phase dx = (Ok (SocksConnect d), dx') \<longleftrightarrow>
     (\<exists>rsv atyp t. dx_in dx = [5, 1, rsv, atyp] @ t \<and> read_socks5_address t atyp ''SOCKS5'' = Ok (d, dx_in dx')) \<and>
     \<not> dx_broken dx \<and> dx' = dx\<lparr>dx_in := dx_in dx', dx_out := dx_out dx @ [5, 0, 0, 1, 0, 0, 0, 0, 0, 0]\<rparr>"
  unfolding socks5_request_phase_def
  by (auto simp: handshake_iffs read_u8_Ok_iff send_reply_bytes socks_constants split: if_splits)
    (rule exI [of _ 1], simp)

text \<open>C24: the handshake yields a CONNECT to a destination exactly for a client that speaks SOCKS5, offers
  the method without authentication among its methods and sends a CONNECT request with a well-formed
  address; it then has written the method choice and the success reply and nothing else, and it has
  consumed exactly the greeting and the request.\<close>

theorem socks5_connect_exact:
  "perform_socks5_handshake dx = (Ok (SocksConnect d), dx') \<longleftrightarrow>
     (\<exists>methods rsv atyp t.
        dx_in dx = [5, word_of_nat (length methods)] @ methods @ [5, 1, rsv, atyp] @ t \<and>
        length methods \<le> 255 \<and> 0 \<in> set methods \<and>
        read_socks5_address t atyp ''SOCKS5'' = Ok (d, dx_in dx')) \<and>
     \<not> dx_broken dx \<and>
     dx' = dx\<lparr>dx_in := dx_in dx', dx_out := dx_out dx @ [5, 0] @ [5, 0, 0, 1, 0, 0, 0, 0, 0, 0]\<rparr>"
  (is "?L \<longleftrightarrow> (\<exists>methods rsv atyp t. ?P methods rsv atyp t) \<and> ?B \<and> ?D")
proof
  assume ?L
  then obtain n t where n: "dx_in dx = 5 # n # t" "n \<noteq> 0" "unat n \<le> length t" "0 \<in> set (take (unat n) t)" "\<not> dx_broken dx"
    and r: "socks5_request_phase (dx\<lparr>dx_in := drop (unat n) t, dx_out := dx_out dx @ [5, 0]\<rparr>) = (Ok (SocksConnect d), dx')"
    unfolding perform_socks5_handshake_def
    by (auto simp: handshake_iffs read_u8_Ok_iff read_exact_Ok_iff socks_constants split: if_splits)
  from r obtain rsv atyp u where u: "drop (unat n) t = [5, 1, rsv, atyp] @ u"
    "read_socks5_address u atyp ''SOCKS5'' = Ok (d, dx_in dx')"
    and dx': "dx' = dx\<lparr>dx_in := dx_in dx', dx_out := dx_out dx @ [5, 0] @ [5, 0, 0, 1, 0, 0, 0, 0, 0, 0]\<rparr>"
    by (auto simp: request_phase_Connect_iff)
  have "dx_in dx = [5, n] @ take (unat n) t @ drop (unat n) t" using n(1) by simp
  moreover have len: "length (take (unat n) t) = unat n" using n(3) by simp
  moreover have "unat n \<le> 255" by (rule less_Suc_eq_le [THEN iffD1]) simp
  ultimately have "?P (take (unat n) t) rsv atyp u" using n(4) u unfolding len by simp
  then show "(\<exists>methods rsv atyp t. ?P methods rsv atyp t) \<and> ?B \<and> ?D" using n(5) dx' by blast
next
  assume "(\<exists>methods rsv atyp t. ?P methods rsv atyp t) \<and> ?B \<and> ?D"
  then obtain methods rsv atyp t where h: "?P methods rsv atyp t" "?B" and dx': "?D" by blast
  let ?dx = "dx\<lparr>dx_in := [5, 1, rsv, atyp] @ t, dx_out := dx_out dx @ [5, 0]\<rparr>"
  have len: "unat (word_of_nat (length methods) :: u8) = length methods" using h(1) by simp
  moreover have "methods \<noteq> []" using h(1) by auto
  ultimately have ne: "(word_of_nat (length methods) :: u8) \<noteq> 0" by (metis length_0_conv unat_0)
  have "socks5_request_phase ?dx = (Ok (SocksConnect d), dx')"
    unfolding request_phase_Connect_iff using h dx' by auto
  then show ?L unfolding perform_socks5_handshake_def using h ne len
    by (simp add: handshake_iffs socks_constants)
qed

section \<open>The bridge and the handler\<close>

lemma read_connect_address:
  "\<exists>atyp t. socks_connect_request remote @ rest = [5, 1, 0, atyp] @ t \<and>
     read_socks5_address t atyp p = Ok (from_socket_addr remote, rest)"
proof (cases remote rule: socks_connect_request.cases)
  case (1 ip q)
  then show ?thesis
    by (intro exI [of _ 1] exI [of _ "to_be 4 ip @ to_be 2 q @ rest"]) (simp add: read_socks5_address_def)
next
  case (2 ip q)
  then show ?thesis
    by (intro exI [of _ 4] exI [of _ "to_be 16 ip @ to_be 2 q @ rest"]) (simp add: read_socks5_address_def)
qed

text \<open>The part of the greeting and the handshake for the bridge's own messages.\<close>

lemma greeting_answered:
  "dx_out (snd (perform_socks5_handshake \<lparr>dx_in = [5, 1, 0], dx_out = [], dx_broken = False\<rparr>)) = [5, 0]"
  by (simp add: perform_socks5_handshake_def socks5_request_phase_def io_then_def take_from_def write_all_def
      read_u8_def read_exact_def socks_constants)

lemma bridge_handshake:
  "perform_socks5_handshake \<lparr>dx_in = [5, 1, 0] @ socks_connect_request remote @ rest, dx_out = [], dx_broken = False\<rparr> =
     (Ok (SocksConnect (from_socket_addr remote)),
      \<lparr>dx_in = rest, dx_out = [5, 0] @ [5, 0, 0, 1, 0, 0, 0, 0, 0, 0], dx_broken = False\<rparr>)"
proof -
  obtain atyp t where "socks_connect_request remote @ rest = [5, 1, 0, atyp] @ t"
    "read_socks5_address t atyp ''SOCKS5'' = Ok (from_socket_addr remote, rest)"
    using read_connect_address by blast
  then show ?thesis
    by (simp add: perform_socks5_handshake_def socks5_request_phase_def io_then_def take_from_def write_all_def
        read_exact_def send_reply_bytes io_lift_def socks_constants)
qed

lemma bridge_reads_reply: "read_socks_reply ([5, 0, 0, 1, 0, 0, 0, 0, 0, 0] @ received) = Inr received"
  by (simp add: read_socks_reply_def client_read_def Let_def)

text \<open>C9: a TCP flow of the TUN bridge reaches the SOCKS5 inbound of the proxy with its destination.  The
  greeting is answered before the bridge has to send more, the complete exchange makes the handler
  dispatch to the remote address of the flow, whatever part of the data the buffered reader has
  already read; the client accepts the replies, and no byte of either direction is lost.\<close>

theorem tun_bridge_reaches_socks_inbound:
  "\<exists>sent replies early dx'.
     dx_out (snd (perform_socks5_handshake
       \<lparr>dx_in = snd (connect_local_socks remote []), dx_out = [], dx_broken = False\<rparr>)) = take 2 replies \<and>
     snd (connect_local_socks remote (take 2 replies)) = sent \<and>
     socks5_handle ahead bound \<lparr>dx_in = sent @ data, dx_out = [], dx_broken = False\<rparr> =
       (Ok (SocksDispatch (from_socket_addr remote) early), dx') \<and>
     case_option [] id early @ dx_in dx' = data \<and> dx_out dx' = replies \<and>
     connect_local_socks remote (replies @ received) = (Inr received, sent)"
proof -
  let ?sent = "[5, 1, 0] @ socks_connect_request remote"
  let ?replies = "[5, 0] @ [5, 0, 0, 1, 0, 0, 0, 0, 0, 0] :: bytes"
  let ?early = "if take ahead data = [] then None else Some (take ahead data)"
  let ?dx' = "\<lparr>dx_in = drop ahead data, dx_out = ?replies, dx_broken = False\<rparr>"
  have "socks5_handle ahead bound \<lparr>dx_in = ?sent @ data, dx_out = [], dx_broken = False\<rparr> =
      (Ok (SocksDispatch (from_socket_addr remote) ?early), ?dx')"
    using bridge_handshake [of remote data]
    by (simp add: socks5_handle_def socks5_handshake_with_early_payload_def io_then_def io_lift_def Let_def)
  moreover have "case_option [] id ?early @ dx_in ?dx' = data"
    by simp
  moreover have "connect_local_socks remote (?replies @ received) = (Inr received, ?sent)"
    using bridge_reads_reply [of received] by (simp add: connect_local_socks_def Let_def)
  moreover have "snd (connect_local_socks remote (take 2 ?replies)) = ?sent"
    by (simp add: connect_local_socks_def Let_def)
  moreover have "dx_out (snd (perform_socks5_handshake
       \<lparr>dx_in = snd (connect_local_socks remote []), dx_out = [], dx_broken = False\<rparr>)) = take 2 ?replies"
    using greeting_answered by (simp add: connect_local_socks_def Let_def)
  ultimately show ?thesis
    by (intro exI [of _ ?sent] exI [of _ ?replies] exI [of _ ?early] exI [of _ ?dx'] conjI) simp_all
qed

section \<open>Replies of the UDP relay\<close>

lemma socks5_parse_encode_datagram:
  assumes "wf_address d" "socks5_encode_udp_datagram d payload = Ok bs"
  shows "socks5_parse_udp_datagram bs = Ok (d, payload)" "7 \<le> length bs"
proof -
  from assms(2) obtain e where e: "socks5_enc d = Ok e" "bs = [0, 0, 0] @ e @ payload"
    by (auto simp: socks5_encode_udp_datagram_def write_socks5_address_buf and_then_Ok_iff)
  then have "write_socks5_address [] d = Ok e" by (simp add: socks5_enc_def)
  from socks5_address_roundtrip [OF assms(1) this] obtain atyp data where a: "e = atyp # data"
    "decode_socks5_address (data @ payload) atyp ''SOCKS5 UDP'' = Ok (d, length data)" by blast
  then show "socks5_parse_udp_datagram bs = Ok (d, payload)"
    by (simp add: socks5_parse_udp_datagram_def SOCKS_UDP_HEADER_def e(2) Let_def numeral_eq_Suc)
  show "7 \<le> length bs" using socks5_enc_nonempty [OF e(1)] by (simp add: e(2))
qed

text \<open>A world in which every send succeeds; \<open>iw_arrivals\<close> lists what arrives during each wait of five
  seconds.\<close>

record inbox_world =
  iw_arrivals :: "(socket_addr \<times> bytes) option list"
  iw_sent :: "(bytes \<times> socket_addr) list"
  iw_delivered :: "(bytes \<times> socket_addr) list"

definition inbox_net :: "inbox_world assoc_net" where
  "inbox_net =
     \<lparr>an_lookup = (\<lambda>_ _. io_lift (Ok [])),
      an_send = (\<lambda>bs a w. (True, w\<lparr>iw_sent := iw_sent w @ [(bs, a)]\<rparr>)),
      an_wait = (\<lambda>w. case iw_arrivals w of [] \<Rightarrow> (None, w) | x # xs \<Rightarrow> (x, w\<lparr>iw_arrivals := xs\<rparr>)),
      an_reply = (\<lambda>bs a w. w\<lparr>iw_delivered := iw_delivered w @ [(bs, a)]\<rparr>)\<rparr>"

lemma inbox_net_sel:
  "an_wait inbox_net w = (case iw_arrivals w of [] \<Rightarrow> (None, w) | x # xs \<Rightarrow> (x, w\<lparr>iw_arrivals := xs\<rparr>))"
  "an_reply inbox_net bs a w = w\<lparr>iw_delivered := iw_delivered w @ [(bs, a)]\<rparr>"
  by (simp_all add: inbox_net_def)

lemma encode_into_eq: "socks5_encode_udp_datagram_into d payload buf = socks5_encode_udp_datagram d payload"
  by (simp add: socks5_encode_udp_datagram_into_def socks5_encode_udp_datagram_def)

text \<open>One query to an address destination, with whatever arrives in time.\<close>

lemma relay_query:
  assumes "to_socket_addr d = Some a" "socks5_encode_udp_datagram d q = Ok bs" "q \<noteq> []"
  shows "relay_datagram inbox_net (fst peer) peer bs w =
    (Ok (), relay_reply inbox_net d peer (w\<lparr>iw_sent := iw_sent w @ [(q, a)]\<rparr>))"
proof -
  have "wf_address d" using assms(1) by (cases d) auto
  note pr = socks5_parse_encode_datagram [OF this assms(2)]
  have "resolve_udp_dest inbox_net d w = (Ok a, w)" using assms(1) by (cases d) (auto simp: io_lift_def)
  then show ?thesis using pr assms(3) by (simp add: relay_datagram_def SOCKS_UDP_HEADER_def inbox_net_def)
qed

text \<open>C35: the UDP relay returns a late answer under the wrong address.  A client queries one server, which
  answers only after the five seconds the relay waits, and then another; the client receives the
  answer of the first server as a datagram from the second.\<close>

theorem socks5_udp_reply_misattributed:
  assumes "to_socket_addr d1 = Some a1" "to_socket_addr d2 = Some a2"
    and "socks5_encode_udp_datagram d1 q1 = Ok bs1" "socks5_encode_udp_datagram d2 q2 = Ok bs2"
    and "q1 \<noteq> []" "q2 \<noteq> []" "answer1 \<noteq> []"
  shows "\<exists>w bs. relay_socks5_udp inbox_net (fst peer) [FromClient peer bs1, FromClient peer bs2]
      \<lparr>iw_arrivals = [None, Some (a1, answer1)], iw_sent = [], iw_delivered = []\<rparr> = (None, w) \<and>
    iw_sent w = [(q1, a1), (q2, a2)] \<and> iw_delivered w = [(bs, peer)] \<and>
    socks5_parse_udp_datagram bs = Ok (d2, answer1)"
proof -
  have "is_ok (socks5_encode_udp_datagram d2 answer1)" using assms(2) by (cases d2) (auto simp: socks5_encode_udp_datagram_def)
  then obtain bs where bs: "socks5_encode_udp_datagram d2 answer1 = Ok bs" by (auto simp: is_ok_iff)
  have "wf_address d2" using assms(2) by (cases d2) auto
  from socks5_parse_encode_datagram(1) [OF this bs] show ?thesis
    using relay_query [OF assms(1,3,5)] relay_query [OF assms(2,4,6)] assms(7) bs
    by (simp add: relay_reply_def encode_into_eq inbox_net_sel)
qed

theorem socks5_udp_reply_misattributed_witness:
  "\<exists>w bs. relay_socks5_udp inbox_net (V4 9) [FromClient (V4 9, 4000) [0, 0, 0, 1, 8, 8, 8, 8, 0, 53, 1],
        FromClient (V4 9, 4000) [0, 0, 0, 1, 1, 1, 1, 1, 0, 53, 2]]
      \<lparr>iw_arrivals = [None, Some ((V4 0x08080808, 53), [77])], iw_sent = [], iw_delivered = []\<rparr> = (None, w) \<and>
    iw_sent w = [([1], (V4 0x08080808, 53)), ([2], (V4 0x01010101, 53))] \<and> iw_delivered w = [(bs, (V4 9, 4000))] \<and>
    socks5_parse_udp_datagram bs = Ok (Ipv4 0x01010101 53, [77])"
proof -
  have "socks5_encode_udp_datagram (Ipv4 0x08080808 53) [1] = Ok [0, 0, 0, 1, 8, 8, 8, 8, 0, 53, 1]" by code_simp
  moreover have "socks5_encode_udp_datagram (Ipv4 0x01010101 53) [2] = Ok [0, 0, 0, 1, 1, 1, 1, 1, 0, 53, 2]" by code_simp
  ultimately show ?thesis
    using socks5_udp_reply_misattributed [of "Ipv4 0x08080808 53" _ "Ipv4 0x01010101 53" _ "[1]" _ "[2]" _ "[77]" "(V4 9, 4000)"]
    by simp
qed

end
