(* ===== verification/Aead.thy ===== *)
theory Aead
  imports BW_Prelude
begin

text \<open>
  The AEAD primitive of the data plane (crates/blackwire-common/src/aead.rs).

  The ciphers themselves come from aws-lc-rs or RustCrypto.  They are the record \<open>aead_backend\<close>, an
  argument of the operations that use it; the locale \<open>aead_laws\<close> states what the documentation of
  both promises: the ciphertext is as long as the plaintext, the tag has sixteen bytes, and opening
  undoes sealing under the same key, nonce and associated data.  Nothing is assumed about forged
  ciphertexts.  \<open>plain_aead\<close> satisfies the laws without secrecy.
\<close>

definition TAG_LEN :: nat where "TAG_LEN = 16"

datatype aead_algorithm = Aes128Gcm | Aes256Gcm | ChaCha20Poly1305

fun aead_key_len :: "aead_algorithm \<Rightarrow> nat" where
  "aead_key_len Aes128Gcm = 16"
| "aead_key_len Aes256Gcm = 32"
| "aead_key_len ChaCha20Poly1305 = 32"

record aead_backend =
  ab_seal :: "aead_algorithm \<Rightarrow> bytes \<Rightarrow> bytes \<Rightarrow> bytes \<Rightarrow> bytes \<Rightarrow> bytes \<times> bytes"
  ab_open :: "aead_algorithm \<Rightarrow> bytes \<Rightarrow> bytes \<Rightarrow> bytes \<Rightarrow> bytes \<Rightarrow> bytes \<Rightarrow> bytes option"

record aead_key =
  ak_alg :: aead_algorithm
  ak_key :: bytes

text \<open>A key of the wrong length is refused.\<close>

definition aead_key_new :: "aead_algorithm \<Rightarrow> bytes \<Rightarrow> aead_key option" where
  "aead_key_new alg key = (if length key = aead_key_len alg then Some \<lparr>ak_alg = alg, ak_key = key\<rparr> else None)"

definition seal_detached :: "aead_backend \<Rightarrow> aead_key \<Rightarrow> bytes \<Rightarrow> bytes \<Rightarrow> bytes \<Rightarrow> bytes \<times> bytes" where
  "seal_detached ab k nonce aad in_out = ab_seal ab (ak_alg k) (ak_key k) nonce aad in_out"

definition open_detached :: "aead_backend \<Rightarrow> aead_key \<Rightarrow> bytes \<Rightarrow> bytes \<Rightarrow> bytes \<Rightarrow> bytes \<Rightarrow> bytes option" where
  "open_detached ab k nonce aad tag in_out = ab_open ab (ak_alg k) (ak_key k) nonce aad in_out tag"

definition open_combined :: "aead_backend \<Rightarrow> aead_key \<Rightarrow> bytes \<Rightarrow> bytes \<Rightarrow> bytes \<Rightarrow> bytes option" where
  "open_combined ab k nonce aad in_out =
     (if length in_out < TAG_LEN then None
      else
        let n = length in_out - TAG_LEN in
        open_detached ab k nonce aad (drop n in_out) (take n in_out))"

text \<open>The one-call interface of the \<^verbatim>\<open>Aead\<close> trait, ciphertext and tag in one buffer and no associated data.\<close>

definition aead_encrypt :: "aead_backend \<Rightarrow> aead_key \<Rightarrow> bytes \<Rightarrow> bytes \<Rightarrow> bytes" where
  "aead_encrypt ab k nonce plain = (case seal_detached ab k nonce [] plain of (ct, tag) \<Rightarrow> ct @ tag)"

definition aead_decrypt :: "aead_backend \<Rightarrow> aead_key \<Rightarrow> bytes \<Rightarrow> bytes \<Rightarrow> bytes option" where
  "aead_decrypt ab k nonce ct = open_combined ab k nonce [] ct"

section \<open>What the backends promise\<close>

locale aead_laws =
  fixes ab :: aead_backend
  assumes seal_lengths: "ab_seal ab alg key nonce aad plain = (ct, tag) \<Longrightarrow> length ct = length plain \<and> length tag = TAG_LEN"
    and open_seal: "ab_seal ab alg key nonce aad plain = (ct, tag) \<Longrightarrow> ab_open ab alg key nonce aad ct tag = Some plain"
    and open_length: "ab_open ab alg key nonce aad ct tag = Some plain \<Longrightarrow> length plain = length ct"
begin

lemma encrypt_length: "length (aead_encrypt ab k nonce plain) = length plain + TAG_LEN"
  using seal_lengths by (auto simp: aead_encrypt_def seal_detached_def split: prod.split)

lemma decrypt_encrypt: "aead_decrypt ab k nonce (aead_encrypt ab k nonce plain) = Some plain"
  using seal_lengths open_seal
  by (auto simp: aead_encrypt_def aead_decrypt_def open_combined_def open_detached_def seal_detached_def Let_def
      split: prod.split)

lemma decrypt_length: "aead_decrypt ab k nonce ct = Some plain \<Longrightarrow> length ct = length plain + TAG_LEN"
  using open_length by (auto simp: aead_decrypt_def open_combined_def open_detached_def Let_def split: if_splits)

lemma open_detached_encrypt:
  assumes "aead_encrypt ab k nonce plain = ct" "length plain = n"
  shows "open_detached ab k nonce [] (drop n ct) (take n ct) = Some plain"
proof -
  obtain c tag where s: "ab_seal ab (ak_alg k) (ak_key k) nonce [] plain = (c, tag)" by fastforce
  then have "ct = c @ tag" using assms(1) by (simp add: aead_encrypt_def seal_detached_def)
  then show ?thesis using seal_lengths [OF s] open_seal [OF s] assms(2) by (simp add: open_detached_def)
qed

end

definition plain_aead :: aead_backend where
  "plain_aead =
     \<lparr>ab_seal = (\<lambda>alg key nonce aad plain. (plain, take 16 (nonce @ replicate 16 0))),
      ab_open = (\<lambda>alg key nonce aad ct tag. if tag = take 16 (nonce @ replicate 16 0) then Some ct else None)\<rparr>"

interpretation plain: aead_laws plain_aead
  by unfold_locales (auto simp: plain_aead_def TAG_LEN_def split: if_splits)

end
