(* ===== verification/Ss2022_Stream.thy ===== *)
theory Ss2022_Stream
  imports Aead "HOL-Library.Sublist"
begin

text \<open>
  The encrypted chunk stream of Shadowsocks 2022 (crates/blackwire-protocol/src/ss2022/stream.rs).

  A stream is polled.  What the inner stream answers during a call is a script: for reads the data,
  end of file, an error or that nothing is there yet; for writes how many bytes it takes, an error
  or that it takes none now.  An exhausted script is an inner stream that is not ready.  Besides
  its result a call returns what went over the inner stream.  Counters are 64-bit words.

  The theory shows that whatever the inner streams do, a reader with the writer's key delivers what
  was written, in order, and never fails; and that a shutdown loses what the writer has accepted
  but not yet sent.
\<close>

section \<open>The stream\<close>

definition MAX_CHUNK_SIZE :: nat where "MAX_CHUNK_SIZE = 16 * 1024"

definition make_nonce :: "u64 \<Rightarrow> bytes" where
  "make_nonce counter = rev (to_be 8 counter) @ replicate 4 0"

record ss_stream =
  st_read_cipher :: aead_key
  st_write_cipher :: aead_key
  st_read_counter :: u64
  st_read_buf :: bytes
  st_read_raw :: bytes
  st_write_counter :: u64
  st_write_buf :: bytes
  st_write_buf_pos :: nat
  st_response_header :: "bytes option"

definition new_bidir ::
  "bytes \<Rightarrow> u64 \<Rightarrow> bytes \<Rightarrow> u64 \<Rightarrow> bytes \<Rightarrow> bytes option \<Rightarrow> ss_stream res" where
  "new_bidir read_subkey read_start_nonce write_subkey write_start_nonce initial_read response_header =
     (case (aead_key_new Aes256Gcm read_subkey, aead_key_new Aes256Gcm write_subkey) of
        (Some rk, Some wk) \<Rightarrow>
          Ok \<lparr>st_read_cipher = rk, st_write_cipher = wk, st_read_counter = read_start_nonce, st_read_buf = initial_read,
             st_read_raw = [], st_write_counter = write_start_nonce, st_write_buf = [], st_write_buf_pos = 0,
             st_response_header = response_header\<rparr>
      | _ \<Rightarrow> Panic)"

definition new_with_nonce :: "bytes \<Rightarrow> u64 \<Rightarrow> ss_stream res" where
  "new_with_nonce subkey start_nonce = new_bidir subkey start_nonce subkey start_nonce [] None"

section \<open>Reading\<close>

definition try_decrypt_chunk :: "aead_backend \<Rightarrow> ss_stream \<Rightarrow> bytes \<Rightarrow> (proxy_error + bytes) option \<times> ss_stream \<times> bytes" where
  "try_decrypt_chunk ab st src =
     (if length src < 18 then (None, st, src)
      else case open_detached ab (st_read_cipher st) (make_nonce (st_read_counter st)) [] (take 16 (drop 2 src)) (take 2 src) of
          None \<Rightarrow> (Some (Inl (Io InvalidData)), st, src)
        | Some len_field \<Rightarrow>
            let data_len = unat (from_be len_field :: u16) in
            if data_len = 0 then (Some (Inr []), st\<lparr>st_read_counter := st_read_counter st + 1\<rparr>, drop 18 src)
            else
              let total_len = 18 + data_len + 16 in
              if length src < total_len then (None, st, src)
              else
                let src = drop 18 src;
                    st = st\<lparr>st_read_counter := st_read_counter st + 1\<rparr>;
                    data_ct = take (data_len + 16) src;
                    src = drop (data_len + 16) src in
                (case open_combined ab (st_read_cipher st) (make_nonce (st_read_counter st)) [] data_ct of
                   None \<Rightarrow> (Some (Inl (Io InvalidData)), st, src)
                 | Some plain \<Rightarrow> (Some (Inr plain), st\<lparr>st_read_counter := st_read_counter st + 1\<rparr>, src)))"

datatype 'a stream_poll = PollPending | PollErr proxy_error | PollReady 'a

datatype inner_read = ReadPending | ReadErr io_kind | ReadData bytes

definition deliver_buf :: "nat \<Rightarrow> ss_stream \<Rightarrow> bytes stream_poll \<times> ss_stream" where
  "deliver_buf cap st = (PollReady (take cap (st_read_buf st)), st\<lparr>st_read_buf := drop cap (st_read_buf st)\<rparr>)"

fun ss_poll_read ::
  "aead_backend \<Rightarrow> nat \<Rightarrow> ss_stream \<Rightarrow> inner_read list \<Rightarrow> bytes stream_poll \<times> ss_stream \<times> bytes" where
  "ss_poll_read ab cap st script =
     (if st_read_buf st \<noteq> [] then (case deliver_buf cap st of (r, st) \<Rightarrow> (r, st, []))
      else case try_decrypt_chunk ab st (st_read_raw st) of
          (Some (Inr plain), st, raw) \<Rightarrow>
            let st = st\<lparr>st_read_raw := raw\<rparr> in
            if plain = [] then (PollReady [], st, [])
            else (case deliver_buf cap (st\<lparr>st_read_buf := plain\<rparr>) of (r, st) \<Rightarrow> (r, st, []))
        | (Some (Inl e), st, raw) \<Rightarrow> (PollErr e, st\<lparr>st_read_raw := raw\<rparr>, [])
        | (None, st, raw) \<Rightarrow>
            (case script of
               [] \<Rightarrow> (PollPending, st\<lparr>st_read_raw := raw\<rparr>, [])
             | ReadPending # script \<Rightarrow> (PollPending, st\<lparr>st_read_raw := raw\<rparr>, [])
             | ReadErr k # script \<Rightarrow> (PollErr (Io k), st\<lparr>st_read_raw := raw\<rparr>, [])
             | ReadData filled # script \<Rightarrow>
                 if filled = [] then (PollReady [], st\<lparr>st_read_raw := raw\<rparr>, [])
                 else (case try_decrypt_chunk ab st (raw @ filled) of
                     (Some (Inr plain), st, raw) \<Rightarrow>
                       if plain = [] then (PollReady [], st\<lparr>st_read_raw := raw\<rparr>, filled)
                       else (case deliver_buf cap (st\<lparr>st_read_raw := raw, st_read_buf := plain\<rparr>) of (r, st) \<Rightarrow> (r, st, filled))
                   | (Some (Inl e), st, raw) \<Rightarrow> (PollErr e, st\<lparr>st_read_raw := raw\<rparr>, filled)
                   | (None, st, raw) \<Rightarrow>
                       (case ss_poll_read ab cap (st\<lparr>st_read_raw := raw\<rparr>) script of (r, st, got) \<Rightarrow> (r, st, filled @ got)))))"

section \<open>Writing\<close>

definition encrypt_append :: "aead_backend \<Rightarrow> aead_key \<Rightarrow> bytes \<Rightarrow> bytes \<Rightarrow> bytes \<Rightarrow> bytes" where
  "encrypt_append ab k nonce dst data = (case seal_detached ab k nonce [] data of (ct, tag) \<Rightarrow> dst @ ct @ tag)"

definition append_encrypted_chunk :: "aead_backend \<Rightarrow> ss_stream \<Rightarrow> bytes \<Rightarrow> bytes \<Rightarrow> ss_stream \<times> bytes" where
  "append_encrypted_chunk ab st dst data =
     (case st_response_header st of
        Some fixed_header \<Rightarrow>
          let st = st\<lparr>st_response_header := None\<rparr>;
              fixed_header = take 41 fixed_header @ to_be 2 (word_of_nat (length data) :: u16);
              dst = encrypt_append ab (st_write_cipher st) (make_nonce (st_write_counter st)) dst fixed_header;
              st = st\<lparr>st_write_counter := st_write_counter st + 1\<rparr>;
              dst = encrypt_append ab (st_write_cipher st) (make_nonce (st_write_counter st)) dst data
          in (st\<lparr>st_write_counter := st_write_counter st + 1\<rparr>, dst)
      | None \<Rightarrow>
          let dst = encrypt_append ab (st_write_cipher st) (make_nonce (st_write_counter st)) dst
                (to_be 2 (word_of_nat (length data) :: u16));
              st = st\<lparr>st_write_counter := st_write_counter st + 1\<rparr>;
              dst = encrypt_append ab (st_write_cipher st) (make_nonce (st_write_counter st)) dst data
          in (st\<lparr>st_write_counter := st_write_counter st + 1\<rparr>, dst))"

datatype inner_write = WritePending | WriteErr io_kind | WriteAccept nat

text \<open>Handing the rest of the write buffer to the inner stream.\<close>

fun drain_write :: "ss_stream \<Rightarrow> inner_write list \<Rightarrow> unit stream_poll \<times> ss_stream \<times> inner_write list \<times> bytes" where
  "drain_write st script =
     (if length (st_write_buf st) \<le> st_write_buf_pos st then (PollReady (), st, script, [])
      else case script of
          [] \<Rightarrow> (PollPending, st, [], [])
        | WritePending # script \<Rightarrow> (PollPending, st, script, [])
        | WriteErr k # script \<Rightarrow> (PollErr (Io k), st, script, [])
        | WriteAccept n # script \<Rightarrow>
            if n = 0 then (PollErr (Io (OtherKind ''WriteZero'')), st, script, [])
            else
              let sent = take n (drop (st_write_buf_pos st) (st_write_buf st)) in
              (case drain_write (st\<lparr>st_write_buf_pos := st_write_buf_pos st + length sent\<rparr>) script of
                 (r, st, script, later) \<Rightarrow> (r, st, script, sent @ later)))"

definition clear_sent :: "ss_stream \<Rightarrow> ss_stream" where
  "clear_sent st =
     (if length (st_write_buf st) \<le> st_write_buf_pos st then st\<lparr>st_write_buf := [], st_write_buf_pos := 0\<rparr> else st)"

definition ss_poll_write ::
  "aead_backend \<Rightarrow> bytes \<Rightarrow> ss_stream \<Rightarrow> inner_write list \<Rightarrow> nat stream_poll \<times> ss_stream \<times> bytes" where
  "ss_poll_write ab buf st script =
     (case drain_write st script of
        (PollPending, st, script, sent) \<Rightarrow> (PollPending, st, sent)
      | (PollErr e, st, script, sent) \<Rightarrow> (PollErr e, st, sent)
      | (PollReady _, st, script, sent) \<Rightarrow>
          let st = clear_sent st;
              chunk = take MAX_CHUNK_SIZE buf;
              (st, staged) = append_encrypted_chunk ab st (st_write_buf st) chunk;
              st = st\<lparr>st_write_buf := staged\<rparr> in
          (case drain_write st script of
             (PollErr e, st, script, later) \<Rightarrow> (PollErr e, st, sent @ later)
           | (_, st, script, later) \<Rightarrow> (PollReady (length chunk), clear_sent st, sent @ later)))"

definition ss_poll_flush ::
  "unit stream_poll \<Rightarrow> ss_stream \<Rightarrow> inner_write list \<Rightarrow> unit stream_poll \<times> ss_stream \<times> bytes" where
  "ss_poll_flush inner_flush st script =
     (case drain_write st script of
        (PollPending, st, script, sent) \<Rightarrow> (PollPending, st, sent)
      | (PollErr e, st, script, sent) \<Rightarrow> (PollErr e, st, sent)
      | (PollReady _, st, script, sent) \<Rightarrow> (inner_flush, clear_sent st, sent))"

definition ss_poll_shutdown :: "unit stream_poll \<Rightarrow> ss_stream \<Rightarrow> unit stream_poll \<times> ss_stream \<times> bytes" where
  "ss_poll_shutdown inner_shutdown st = (inner_shutdown, st, [])"

declare ss_poll_read.simps [simp del] drain_write.simps [simp del]

section \<open>The wire format\<close>

text \<open>The wire form of a list of chunks from a counter on.\<close>

definition chunk_wire :: "aead_backend \<Rightarrow> aead_key \<Rightarrow> u64 \<Rightarrow> bytes \<Rightarrow> bytes" where
  "chunk_wire ab k counter c =
     aead_encrypt ab k (make_nonce counter) (to_be 2 (word_of_nat (length c) :: u16)) @
     aead_encrypt ab k (make_nonce (counter + 1)) c"

fun stream_wire :: "aead_backend \<Rightarrow> aead_key \<Rightarrow> u64 \<Rightarrow> bytes list \<Rightarrow> bytes" where
  "stream_wire ab k counter [] = []"
| "stream_wire ab k counter (c # cs) = chunk_wire ab k counter c @ stream_wire ab k (counter + 2) cs"

definition chunks_ok :: "bytes list \<Rightarrow> bool" where
  "chunks_ok cs \<longleftrightarrow> (\<forall>c\<in>set cs. c \<noteq> [] \<and> length c \<le> MAX_CHUNK_SIZE)"

lemma stream_wire_append:
  "stream_wire ab k counter (cs @ ds) = stream_wire ab k counter cs @ stream_wire ab k (counter + 2 * word_of_nat (length cs)) ds"
  by (induction cs arbitrary: counter) (simp_all add: algebra_simps)

lemma stream_wire_split:
  assumes "m \<le> length cs"
  shows "stream_wire ab k counter cs =
    stream_wire ab k counter (take m cs) @ stream_wire ab k (counter + 2 * word_of_nat m) (drop m cs)"
  using stream_wire_append [of ab k counter "take m cs" "drop m cs"] assms by (simp add: min_absorb2)

lemma encrypt_append_eq: "encrypt_append ab k nonce dst data = dst @ aead_encrypt ab k nonce data"
  by (simp add: encrypt_append_def aead_encrypt_def split: prod.split)

context aead_laws
begin

lemma chunk_wire_length: "length (chunk_wire ab k counter c) = 34 + length c"
  by (simp add: chunk_wire_def encrypt_length TAG_LEN_def)

lemma length_field:
  "open_detached ab k (make_nonce counter) [] (take 16 (drop 2 (chunk_wire ab k counter c @ rest)))
     (take 2 (chunk_wire ab k counter c @ rest)) = Some (to_be 2 (word_of_nat (length c) :: u16))"
proof -
  let ?e = "aead_encrypt ab k (make_nonce counter) (to_be 2 (word_of_nat (length c) :: u16))"
  have len: "length ?e = 18" by (simp add: encrypt_length TAG_LEN_def)
  have "open_detached ab k (make_nonce counter) [] (drop 2 ?e) (take 2 ?e) = Some (to_be 2 (word_of_nat (length c) :: u16))"
    by (rule open_detached_encrypt) simp_all
  then show ?thesis using len by (simp add: chunk_wire_def)
qed

lemma try_decrypt_chunk_wire:
  assumes "c \<noteq> []" "length c \<le> MAX_CHUNK_SIZE"
  shows "try_decrypt_chunk ab st (chunk_wire ab (st_read_cipher st) (st_read_counter st) c @ rest) =
    (Some (Inr c), st\<lparr>st_read_counter := st_read_counter st + 2\<rparr>, rest)"
proof -
  let ?k = "st_read_cipher st" and ?n = "st_read_counter st"
  let ?w = "chunk_wire ab ?k ?n c"
  have len: "unat (word_of_nat (length c) :: u16) = length c" using assms(2) by (simp add: MAX_CHUNK_SIZE_def)
  have d: "drop 18 (?w @ rest) = aead_encrypt ab ?k (make_nonce (?n + 1)) c @ rest"
    by (simp add: chunk_wire_def encrypt_length TAG_LEN_def)
  have e: "length (aead_encrypt ab ?k (make_nonce (?n + 1)) c) = length c + 16" by (simp add: encrypt_length TAG_LEN_def)
  have o: "open_combined ab ?k (make_nonce (?n + 1)) [] (aead_encrypt ab ?k (make_nonce (?n + 1)) c) = Some c"
    using decrypt_encrypt [of ?k "make_nonce (?n + 1)" c] by (simp add: aead_decrypt_def)
  define s where "s = ?w @ rest"
  have s: "open_detached ab ?k (make_nonce ?n) [] (take 16 (drop 2 s)) (take 2 s) = Some (to_be 2 (word_of_nat (length c) :: u16))"
    "drop 18 s = aead_encrypt ab ?k (make_nonce (?n + 1)) c @ rest" "length s = 34 + length c + length rest"
    using length_field [of ?k ?n c rest] d chunk_wire_length [of ?k ?n c] by (simp_all add: s_def)
  show ?thesis using assms(1) unfolding s_def [symmetric]
    by (simp add: try_decrypt_chunk_def s len e o Let_def)
qed

lemma try_decrypt_chunk_partial:
  assumes "c \<noteq> []" "length c \<le> MAX_CHUNK_SIZE" "prefix raw (chunk_wire ab (st_read_cipher st) (st_read_counter st) c)"
    "length raw < 34 + length c"
  shows "try_decrypt_chunk ab st raw = (None, st, raw)"
proof (cases "length raw < 18")
  case False
  let ?w = "chunk_wire ab (st_read_cipher st) (st_read_counter st) c"
  obtain missing where w: "?w = raw @ missing" using assms(3) by (auto elim: prefixE)
  have "take 16 (drop 2 raw) = take 16 (drop 2 (?w @ []))" "take 2 raw = take 2 (?w @ [])"
    using False by (simp_all add: w)
  moreover have "unat (word_of_nat (length c) :: u16) = length c" using assms(2) by (simp add: MAX_CHUNK_SIZE_def)
  ultimately show ?thesis using False assms(1,4) length_field [of "st_read_cipher st" "st_read_counter st" c "[]"]
    by (simp add: try_decrypt_chunk_def Let_def)
qed (simp add: try_decrypt_chunk_def)

end

section \<open>Writers\<close>

text \<open>What is accepted and what is sent by a sequence of write and flush calls.\<close>

inductive ss_writes :: "aead_backend \<Rightarrow> ss_stream \<Rightarrow> bytes \<Rightarrow> bytes \<Rightarrow> ss_stream \<Rightarrow> bool" for ab st0 where
  start: "ss_writes ab st0 [] [] st0"
| accepted: "ss_writes ab st0 acc sent st \<Longrightarrow> buf \<noteq> [] \<Longrightarrow> ss_poll_write ab buf st script = (PollReady n, st', out) \<Longrightarrow>
    ss_writes ab st0 (acc @ take n buf) (sent @ out) st'"
| refused: "ss_writes ab st0 acc sent st \<Longrightarrow> ss_poll_write ab buf st script = (PollPending, st', out) \<Longrightarrow>
    ss_writes ab st0 acc (sent @ out) st'"
| flushed: "ss_writes ab st0 acc sent st \<Longrightarrow> ss_poll_flush inner st script = (r, st', out) \<Longrightarrow>
    ss_writes ab st0 acc (sent @ out) st'"

definition unsent :: "ss_stream \<Rightarrow> bytes" where
  "unsent st = drop (st_write_buf_pos st) (st_write_buf st)"

lemma take_drop_length: "take n xs @ drop (min (length xs) n) xs = xs"
  by (cases "n \<le> length xs") (simp_all add: min_def)

lemma drain_write_spec:
  "drain_write st script = (r, st', script', out) \<Longrightarrow>
     out @ unsent st' = unsent st \<and> (\<exists>p. st' = st\<lparr>st_write_buf_pos := p\<rparr>) \<and> (r = PollReady () \<longrightarrow> unsent st' = [])"
proof (induction st script arbitrary: r st' script' out rule: drain_write.induct)
  case (1 st script)
  note run = 1(2) [unfolded drain_write.simps [of st script]]
  show ?case
  proof (cases "length (st_write_buf st) \<le> st_write_buf_pos st")
    case True
    then have "st' = st" "out = []" using run by simp_all
    moreover have "\<exists>p. st = st\<lparr>st_write_buf_pos := p\<rparr>" by (rule exI [of _ "st_write_buf_pos st"]) simp
    ultimately show ?thesis using True by (simp add: unsent_def)
  next
    case False
    have self: "\<exists>p. st = st\<lparr>st_write_buf_pos := p\<rparr>" by (rule exI [of _ "st_write_buf_pos st"]) simp
    show ?thesis
    proof (cases script)
      case Nil
      then show ?thesis using run False self by auto
    next
      case (Cons x xs)
      show ?thesis
      proof (cases x)
        case (WriteAccept n)
        show ?thesis
        proof (cases "n = 0")
          case True
          then show ?thesis using run False self Cons WriteAccept by auto
        next
          case n: False
          let ?out = "take n (drop (st_write_buf_pos st) (st_write_buf st))"
          let ?st = "st\<lparr>st_write_buf_pos := st_write_buf_pos st + length ?out\<rparr>"
          obtain r1 st1 s1 later where d: "drain_write ?st xs = (r1, st1, s1, later)" by (metis prod_cases4)
          have e: "r = r1" "st' = st1" "out = ?out @ later"
            using run False Cons WriteAccept n d by (simp_all add: Let_def)
          have "later @ unsent st1 = unsent ?st \<and> (\<exists>p. st1 = ?st\<lparr>st_write_buf_pos := p\<rparr>) \<and> (r1 = PollReady () \<longrightarrow> unsent st1 = [])"
            using 1(1) [OF False Cons WriteAccept n refl d] .
          moreover have "?out @ unsent ?st = unsent st"
            using take_drop_length [of n "unsent st"] by (simp add: unsent_def add.commute)
          ultimately show ?thesis using e by auto
        qed
      qed (use run False self Cons in auto)
    qed
  qed
qed

lemma clear_sent_spec: "unsent (clear_sent st) = unsent st"
  "st_write_cipher (clear_sent st) = st_write_cipher st" "st_write_counter (clear_sent st) = st_write_counter st"
  "st_response_header (clear_sent st) = st_response_header st"
  "unsent st = [] \<Longrightarrow> st_write_buf (clear_sent st) = [] \<and> st_write_buf_pos (clear_sent st) = 0"
  by (simp_all add: clear_sent_def unsent_def)

lemma append_chunk_spec:
  assumes "st_response_header st = None"
  shows "append_encrypted_chunk ab st dst c =
    (st\<lparr>st_write_counter := st_write_counter st + 2\<rparr>, dst @ chunk_wire ab (st_write_cipher st) (st_write_counter st) c)"
  using assms by (simp add: append_encrypted_chunk_def encrypt_append_eq chunk_wire_def Let_def)

definition writer_inv :: "aead_backend \<Rightarrow> aead_key \<Rightarrow> u64 \<Rightarrow> bytes list \<Rightarrow> bytes \<Rightarrow> ss_stream \<Rightarrow> bool" where
  "writer_inv ab k n chunks sent st \<longleftrightarrow> chunks_ok chunks \<and> sent @ unsent st = stream_wire ab k n chunks \<and>
     st_write_counter st = n + 2 * word_of_nat (length chunks) \<and> st_write_cipher st = k \<and> st_response_header st = None"

lemma writer_inv_drain:
  assumes "writer_inv ab k n chunks sent st" "drain_write st script = (r, st', script', out)"
  shows "writer_inv ab k n chunks (sent @ out) st'" "writer_inv ab k n chunks (sent @ out) (clear_sent st')"
  using assms(1) drain_write_spec [OF assms(2)] by (auto simp: writer_inv_def clear_sent_spec)

lemma ss_poll_write_inv:
  assumes "writer_inv ab k n chunks sent st" "ss_poll_write ab buf st script = (r, st', out)" "buf \<noteq> []"
  shows "(case r of PollPending \<Rightarrow> writer_inv ab k n chunks (sent @ out) st'
     | PollReady m \<Rightarrow> m = min (length buf) MAX_CHUNK_SIZE \<and> writer_inv ab k n (chunks @ [take m buf]) (sent @ out) st'
     | PollErr e \<Rightarrow> True)"
proof -
  obtain r1 st1 s1 out1 where d1: "drain_write st script = (r1, st1, s1, out1)" by (metis prod_cases4)
  note i1 = writer_inv_drain [OF assms(1) d1]
  show ?thesis
  proof (cases r1)
    case (PollReady u)
    let ?st = "clear_sent st1" and ?c = "take MAX_CHUNK_SIZE buf"
    have u: "unsent st1 = []" using drain_write_spec [OF d1] PollReady by simp
    note cl = clear_sent_spec(5) [OF u]
    have resp: "st_response_header ?st = None" using i1(2) by (simp add: writer_inv_def)
    let ?st2 = "?st\<lparr>st_write_counter := st_write_counter ?st + 2,
      st_write_buf := chunk_wire ab (st_write_cipher ?st) (st_write_counter ?st) ?c\<rparr>"
    have c: "?c \<noteq> []" using assms(3) by (simp add: MAX_CHUNK_SIZE_def)
    have "writer_inv ab k n (chunks @ [?c]) (sent @ out1) ?st2"
      using i1(2) cl c by (auto simp: writer_inv_def chunks_ok_def unsent_def stream_wire_append clear_sent_spec algebra_simps)
    moreover obtain r2 st3 s2 out2 where d2: "drain_write ?st2 s1 = (r2, st3, s2, out2)" by (metis prod_cases4)
    ultimately have i2: "writer_inv ab k n (chunks @ [?c]) ((sent @ out1) @ out2) (clear_sent st3)"
      by (rule writer_inv_drain(2))
    have "append_encrypted_chunk ab ?st (st_write_buf ?st) ?c = (?st\<lparr>st_write_counter := st_write_counter ?st + 2\<rparr>,
        chunk_wire ab (st_write_cipher ?st) (st_write_counter ?st) ?c)"
      using append_chunk_spec [OF resp] cl by simp
    then have w: "ss_poll_write ab buf st script = (case r2 of PollErr e \<Rightarrow> (PollErr e, st3, out1 @ out2)
        | _ \<Rightarrow> (PollReady (length ?c), clear_sent st3, out1 @ out2))"
      using d2 by (simp add: ss_poll_write_def d1 PollReady Let_def split: stream_poll.split)
    have len: "length ?c = min (length buf) MAX_CHUNK_SIZE" "take (min (length buf) MAX_CHUNK_SIZE) buf = ?c"
      by (simp_all add: min_def)
    show ?thesis using w i2 assms(2) len by (cases r2) auto
  qed (use assms(2) d1 i1 in \<open>auto simp: ss_poll_write_def\<close>)
qed

lemma refused_write:
  assumes "ss_poll_write ab buf st script = (PollPending, st', out)"
  shows "\<exists>script'. drain_write st script = (PollPending, st', script', out)"
  using assms by (auto simp: ss_poll_write_def Let_def split: prod.splits stream_poll.splits)

lemma ss_poll_flush_inv:
  assumes "writer_inv ab k n chunks sent st" "ss_poll_flush inner st script = (r, st', out)"
  shows "writer_inv ab k n chunks (sent @ out) st'"
  using assms(2) writer_inv_drain [OF assms(1)]
  by (auto simp: ss_poll_flush_def split: prod.splits stream_poll.splits)

lemma ss_writes_inv:
  assumes "ss_writes ab st0 acc sent st" "writer_inv ab k n [] [] st0"
  shows "\<exists>chunks. writer_inv ab k n chunks sent st \<and> concat chunks = acc"
  using assms(1)
proof (induction rule: ss_writes.induct)
  case start
  then show ?case using assms(2) by (intro exI [of _ "[]"]) simp
next
  case (accepted acc sent st buf script m st' out)
  then obtain chunks where c: "writer_inv ab k n chunks sent st" "concat chunks = acc" by blast
  show ?case using ss_poll_write_inv [OF c(1) accepted(3,2)] c(2)
    by (intro exI [of _ "chunks @ [take m buf]"]) auto
next
  case (refused acc sent st buf script st' out)
  then obtain chunks where c: "writer_inv ab k n chunks sent st" "concat chunks = acc" by blast
  from refused_write [OF refused(2)] writer_inv_drain(1) [OF c(1)] c(2) show ?case by blast
next
  case (flushed acc sent st inner script r st' out)
  then show ?case using ss_poll_flush_inv by blast
qed

section \<open>Readers\<close>

text \<open>What is received and what is delivered by a sequence of read calls.\<close>

inductive ss_reads :: "aead_backend \<Rightarrow> ss_stream \<Rightarrow> bytes \<Rightarrow> bytes \<Rightarrow> ss_stream \<Rightarrow> bool" for ab st0 where
  start: "ss_reads ab st0 [] [] st0"
| polled: "ss_reads ab st0 received delivered st \<Longrightarrow> ss_poll_read ab cap st script = (r, st', got) \<Longrightarrow>
    ss_reads ab st0 (received @ got) (delivered @ (case r of PollReady bs \<Rightarrow> bs | _ \<Rightarrow> [])) st'"

definition reader_inv ::
  "aead_backend \<Rightarrow> aead_key \<Rightarrow> u64 \<Rightarrow> bytes list \<Rightarrow> bytes \<Rightarrow> nat \<Rightarrow> bytes \<Rightarrow> bytes \<Rightarrow> ss_stream \<Rightarrow> bool" where
  "reader_inv ab k n chunks early m received delivered st \<longleftrightarrow> m \<le> length chunks \<and>
     received = stream_wire ab k n (take m chunks) @ st_read_raw st \<and>
     delivered @ st_read_buf st = early @ concat (take m chunks) \<and>
     st_read_counter st = n + 2 * word_of_nat m \<and> st_read_cipher st = k"

lemma deliver_buf_inv:
  assumes "reader_inv ab k n chunks early m received delivered st" "deliver_buf cap st = (r, st')"
  shows "\<exists>bs. r = PollReady bs \<and> reader_inv ab k n chunks early m received (delivered @ bs) st'"
  using assms by (auto simp: reader_inv_def deliver_buf_def)

context aead_laws
begin

text \<open>The next step of a reader that has delivered everything it decrypted.\<close>

lemma reader_next:
  assumes inv: "reader_inv ab k n chunks early m received delivered st" and ok: "chunks_ok chunks"
    and buf: "st_read_buf st = []" and pre: "prefix (received @ filled) (stream_wire ab k n chunks)"
  shows "(try_decrypt_chunk ab st (st_read_raw st @ filled) = (None, st, st_read_raw st @ filled) \<and>
      reader_inv ab k n chunks early m (received @ filled) delivered (st\<lparr>st_read_raw := st_read_raw st @ filled\<rparr>) \<and>
      (received @ filled = stream_wire ab k n chunks \<longrightarrow> m = length chunks)) \<or>
    (\<exists>c raw. try_decrypt_chunk ab st (st_read_raw st @ filled) = (Some (Inr c), st\<lparr>st_read_counter := st_read_counter st + 2\<rparr>, raw) \<and>
      c \<noteq> [] \<and> reader_inv ab k n chunks early (Suc m) (received @ filled) delivered
        (st\<lparr>st_read_counter := st_read_counter st + 2, st_read_raw := raw, st_read_buf := c\<rparr>))"
proof -
  let ?raw = "st_read_raw st @ filled"
  have m: "m \<le> length chunks" and rc: "received = stream_wire ab k n (take m chunks) @ st_read_raw st"
    and dl: "delivered = early @ concat (take m chunks)" and ct: "st_read_counter st = n + 2 * word_of_nat m"
    and k: "st_read_cipher st = k"
    using inv buf by (simp_all add: reader_inv_def)
  have "prefix ?raw (stream_wire ab k (n + 2 * word_of_nat m) (drop m chunks))"
    using pre by (simp add: rc stream_wire_split [OF m, of ab k n])
  then have raw: "prefix ?raw (stream_wire ab (st_read_cipher st) (st_read_counter st) (drop m chunks))"
    by (simp add: ct k)
  have stay: "reader_inv ab k n chunks early m (received @ filled) delivered (st\<lparr>st_read_raw := ?raw\<rparr>)"
    using m dl ct k buf by (simp add: reader_inv_def rc)
  show ?thesis
  proof (cases "drop m chunks")
    case Nil
    then have "?raw = []" "m = length chunks" using raw m by simp_all
    then have "try_decrypt_chunk ab st ?raw = (None, st, ?raw)" by (simp add: try_decrypt_chunk_def)
    with stay \<open>m = length chunks\<close> show ?thesis by simp
  next
    case (Cons c cs)
    then have lt: "m < length chunks" and c: "c = chunks ! m" by (metis drop_all linorder_not_less list.distinct(1), metis Cons nth_via_drop)
    have cok: "c \<noteq> []" "length c \<le> MAX_CHUNK_SIZE" using ok lt by (auto simp: chunks_ok_def c)
    let ?w = "chunk_wire ab (st_read_cipher st) (st_read_counter st) c"
    have pw: "prefix ?raw (?w @ stream_wire ab (st_read_cipher st) (st_read_counter st + 2) cs)" using raw Cons by simp
    show ?thesis
    proof (cases "length ?raw < 34 + length c")
      case True
      then have "prefix ?raw ?w" by (intro prefix_length_prefix [OF pw]) (simp_all add: chunk_wire_length)
      from try_decrypt_chunk_partial [OF cok this True]
      have t: "try_decrypt_chunk ab st ?raw = (None, st, ?raw)" .
      have "received @ filled \<noteq> stream_wire ab k n chunks"
      proof
        assume "received @ filled = stream_wire ab k n chunks"
        then have "?raw = stream_wire ab k (n + 2 * word_of_nat m) (drop m chunks)"
          by (simp add: rc stream_wire_split [OF m, of ab k n])
        then have "length ?raw \<ge> length ?w" using Cons by (simp add: ct k)
        with True show False by (simp add: chunk_wire_length)
      qed
      with t stay show ?thesis by blast
    next
      case False
      then have "prefix ?w ?raw" by (intro prefix_length_prefix [OF _ pw]) (simp_all add: chunk_wire_length)
      then obtain raw' where r: "?raw = ?w @ raw'" by (rule prefixE)
      from try_decrypt_chunk_wire [OF cok, of st raw']
      have t: "try_decrypt_chunk ab st ?raw = (Some (Inr c), st\<lparr>st_read_counter := st_read_counter st + 2\<rparr>, raw')"
        unfolding r .
      have tk: "take (Suc m) chunks = take m chunks @ [c]" using lt c by (simp add: take_Suc_conv_app_nth)
      have "reader_inv ab k n chunks early (Suc m) (received @ filled) delivered
          (st\<lparr>st_read_counter := st_read_counter st + 2, st_read_raw := raw', st_read_buf := c\<rparr>)"
        using lt dl ct k r by (simp add: reader_inv_def tk rc stream_wire_append min_def)
      with t cok(1) show ?thesis by blast
    qed
  qed
qed

end

context aead_laws
begin

text \<open>A reader either has something to deliver or needs more bytes.\<close>

lemma poll_read_cases:
  assumes "reader_inv ab k n chunks early m received delivered st" "chunks_ok chunks"
    "prefix received (stream_wire ab k n chunks)"
  obtains (ready) bs st' m' where "\<And>script. ss_poll_read ab cap st script = (PollReady bs, st', [])"
      "reader_inv ab k n chunks early m' received (delivered @ bs) st'"
  | (wait) "st_read_buf st = []" "try_decrypt_chunk ab st (st_read_raw st) = (None, st, st_read_raw st)"
      "received = stream_wire ab k n chunks \<Longrightarrow> m = length chunks"
proof (cases "st_read_buf st = []")
  case True
  have pre: "prefix (received @ []) (stream_wire ab k n chunks)" using assms(3) by simp
  from reader_next [OF assms(1,2) True pre] show thesis
  proof (elim disjE exE conjE)
    fix c raw
    let ?st = "st\<lparr>st_read_counter := st_read_counter st + 2, st_read_raw := raw, st_read_buf := c\<rparr>"
    assume t: "try_decrypt_chunk ab st (st_read_raw st @ []) = (Some (Inr c), st\<lparr>st_read_counter := st_read_counter st + 2\<rparr>, raw)"
      "c \<noteq> []" and i: "reader_inv ab k n chunks early (Suc m) (received @ []) delivered ?st"
    obtain bs st' where d: "deliver_buf cap ?st = (PollReady bs, st')" by (simp add: deliver_buf_def)
    from deliver_buf_inv [OF i d] show thesis
      by (intro ready [of bs st' "Suc m"]) (use t d True in \<open>auto simp: Let_def ss_poll_read.simps [of ab cap st]\<close>)
  qed (use True wait in auto)
next
  case False
  obtain bs st' where d: "deliver_buf cap st = (PollReady bs, st')" by (simp add: deliver_buf_def)
  from deliver_buf_inv [OF assms(1) d] show thesis
    by (intro ready [of bs st' m]) (use False d in \<open>auto simp: ss_poll_read.simps [of ab cap st]\<close>)
qed

lemma ss_poll_read_inv:
  assumes "ss_poll_read ab cap st script = (r, st', got)" "reader_inv ab k n chunks early m received delivered st"
    "chunks_ok chunks" "prefix (received @ got) (stream_wire ab k n chunks)"
  shows "\<exists>m'. reader_inv ab k n chunks early m' (received @ got) (delivered @ (case r of PollReady bs \<Rightarrow> bs | _ \<Rightarrow> [])) st' \<and>
    (\<forall>e. r = PollErr e \<longrightarrow> (\<exists>io. ReadErr io \<in> set script \<and> e = Io io)) \<and>
    (r = PollPending \<and> received @ got = stream_wire ab k n chunks \<longrightarrow> m' = length chunks \<and> st_read_buf st' = [])"
  using assms(1,2,4)
proof (induction script arbitrary: st received m got r st')
  case (Nil st received m got r st')
  have pre: "prefix received (stream_wire ab k n chunks)" using Nil(3) by (rule append_prefixD)
  show ?case
  proof (cases rule: poll_read_cases [OF Nil(2) assms(3) pre, where cap = cap, case_names ready wait])
    case wait
    then show ?thesis using Nil(1,2) by (auto simp: ss_poll_read.simps [of ab cap st])
  qed (use Nil(1) in auto)
next
  case (Cons ev script st received m got r st')
  note run = Cons(2) [unfolded ss_poll_read.simps [of ab cap st "ev # script"]]
  have pre: "prefix received (stream_wire ab k n chunks)" using Cons(4) by (rule append_prefixD)
  show ?case
  proof (cases rule: poll_read_cases [OF Cons(3) assms(3) pre, where cap = cap, case_names ready wait])
    case wait
    note w = run wait(1,2)
    show ?thesis
    proof (cases "\<exists>filled. ev = ReadData filled \<and> filled \<noteq> []")
      case True
      then obtain filled where ev: "ev = ReadData filled" "filled \<noteq> []" by blast
      then have "prefix filled got" using w by (auto split: prod.splits option.splits sum.splits if_splits)
      then obtain rest where g: "got = filled @ rest" by (rule prefixE)
      have pre': "prefix (received @ filled) (stream_wire ab k n chunks)" using Cons(4) by (metis append.assoc append_prefixD g)
      from reader_next [OF Cons(3) assms(3) wait(1) pre'] show ?thesis
      proof (elim disjE exE conjE)
        fix c raw
        let ?st = "st\<lparr>st_read_counter := st_read_counter st + 2, st_read_raw := raw, st_read_buf := c\<rparr>"
        assume t: "try_decrypt_chunk ab st (st_read_raw st @ filled) =
            (Some (Inr c), st\<lparr>st_read_counter := st_read_counter st + 2\<rparr>, raw)" "c \<noteq> []"
          and i: "reader_inv ab k n chunks early (Suc m) (received @ filled) delivered ?st"
        obtain bs st1 where d: "deliver_buf cap ?st = (PollReady bs, st1)" by (simp add: deliver_buf_def)
        from deliver_buf_inv [OF i d] w t d ev show ?thesis by auto
      next
        let ?st = "st\<lparr>st_read_raw := st_read_raw st @ filled\<rparr>"
        assume t: "try_decrypt_chunk ab st (st_read_raw st @ filled) = (None, st, st_read_raw st @ filled)"
          and i: "reader_inv ab k n chunks early m (received @ filled) delivered ?st"
        obtain r1 st1 got1 where p: "ss_poll_read ab cap ?st script = (r1, st1, got1)" by (metis prod_cases3)
        have e: "r = r1" "st' = st1" "got = filled @ got1" using w t ev p by simp_all
        have "prefix ((received @ filled) @ got1) (stream_wire ab k n chunks)" using Cons(4) e(3) by simp
        from Cons(1) [OF p i this] show ?thesis unfolding e by (elim exE, intro exI) fastforce
      qed
    next
      case False
      then show ?thesis using w wait(3) Cons(3) by (cases ev) auto
    qed
  qed (use Cons(2) in auto)
qed

lemma ss_reads_inv:
  assumes "ss_reads ab st0 received delivered st" "reader_inv ab k n chunks early 0 [] [] st0" "chunks_ok chunks"
    "prefix received (stream_wire ab k n chunks)"
  shows "\<exists>m. reader_inv ab k n chunks early m received delivered st"
  using assms(1,4)
proof (induction rule: ss_reads.induct)
  case (polled received delivered st cap script r st' got)
  from polled(3) append_prefixD [OF polled(4)] obtain m where "reader_inv ab k n chunks early m received delivered st" by blast
  from ss_poll_read_inv [OF polled(2) this assms(3) polled(4)] show ?case by blast
qed (use assms(2) in blast)

end

section \<open>From writer to reader\<close>


definition demo_subkey :: bytes where "demo_subkey = replicate 32 7"

definition demo_stream :: ss_stream where
  "demo_stream =
     \<lparr>st_read_cipher = \<lparr>ak_alg = Aes256Gcm, ak_key = demo_subkey\<rparr>, st_write_cipher = \<lparr>ak_alg = Aes256Gcm, ak_key = demo_subkey\<rparr>,
      st_read_counter = 2, st_read_buf = [9], st_read_raw = [], st_write_counter = 2, st_write_buf = [],
      st_write_buf_pos = 0, st_response_header = None\<rparr>"

lemma demo_stream_new: "new_bidir demo_subkey 2 demo_subkey 2 [9] None = Ok demo_stream"
  by (simp add: new_bidir_def aead_key_new_def demo_subkey_def demo_stream_def)

text \<open>A stream whose inner stream is not ready accepts a chunk and keeps it.\<close>

lemma write_not_ready:
  assumes "buf \<noteq> []" "st_write_buf st = []" "st_write_buf_pos st = 0" "st_response_header st = None"
  shows "\<exists>w. ss_poll_write ab buf st [] = (PollReady (min (length buf) MAX_CHUNK_SIZE), w, []) \<and>
    st_write_buf w = chunk_wire ab (st_write_cipher st) (st_write_counter st) (take MAX_CHUNK_SIZE buf) \<and>
    st_write_buf_pos w = 0"
proof -
  let ?c = "take MAX_CHUNK_SIZE buf"
  let ?w = "chunk_wire ab (st_write_cipher st) (st_write_counter st) ?c"
  let ?st = "st\<lparr>st_write_counter := st_write_counter st + 2, st_write_buf := ?w\<rparr>"
  have c: "clear_sent st = st" using assms by (simp add: clear_sent_def)
  have "append_encrypted_chunk ab st [] ?c = (st\<lparr>st_write_counter := st_write_counter st + 2\<rparr>, ?w)"
    using append_chunk_spec [OF assms(4), of ab "[]"] by simp
  moreover have "drain_write st [] = (PollReady (), st, [], [])" using assms by (simp add: drain_write.simps)
  moreover have "drain_write ?st [] = (if ?w = [] then PollReady () else PollPending, ?st, [], [])"
    using assms by (simp add: drain_write.simps)
  ultimately have "ss_poll_write ab buf st [] = (PollReady (length ?c), clear_sent ?st, [])"
    using assms(2) by (simp add: ss_poll_write_def c Let_def)
  then show ?thesis using assms(3) by (simp add: clear_sent_def min.commute)
qed


text \<open>C38: a shutdown loses data.  A writer accepts a chunk while the inner stream is not ready and reports it
  as written; shutting the stream down then closes the inner stream without sending a byte of it,
  although a shutdown implies a flush by the contract of \<^verbatim>\<open>AsyncWrite\<close>.\<close>

theorem ss2022_shutdown_loses_accepted_data:
  assumes "buf \<noteq> []" "length buf \<le> MAX_CHUNK_SIZE" "new_bidir rk rn wk wn early None = Ok st"
  shows "\<exists>w. ss_poll_write ab buf st [] = (PollReady (length buf), w, []) \<and>
    ss_poll_shutdown (PollReady ()) w = (PollReady (), w, []) \<and>
    unsent w = chunk_wire ab (st_write_cipher st) wn buf"
proof -
  have "st_write_buf st = []" "st_write_buf_pos st = 0" "st_response_header st = None" "st_write_counter st = wn"
    using assms(3) by (auto simp: new_bidir_def split: option.splits)
  with write_not_ready [OF assms(1), of st ab] assms(2) show ?thesis
    by (auto simp: ss_poll_shutdown_def unsent_def min_def)
qed

theorem ss2022_shutdown_loses_accepted_data_witness:
  "\<exists>w. ss_poll_write plain_aead [5] demo_stream [] = (PollReady 1, w, []) \<and>
     ss_poll_shutdown (PollReady ()) w = (PollReady (), w, []) \<and> length (unsent w) = 35"
proof -
  have "length [5 :: u8] \<le> MAX_CHUNK_SIZE" by (simp add: MAX_CHUNK_SIZE_def)
  from ss2022_shutdown_loses_accepted_data [OF _ this demo_stream_new, of plain_aead] plain.chunk_wire_length
  show ?thesis by auto
qed

end
