(* ===== verification/Ss2022.thy ===== *)
theory Ss2022
  imports Ss2022_Stream Addresses User_Limits
begin

text \<open>
  Shadowsocks 2022 over TCP (crates/blackwire-protocol/src/ss2022): the keys (ss2022.rs, subkey.rs), the
  variable header (variable_header.rs), the replay filter (replay.rs), the inbound handler up to
  the dispatcher (inbound.rs) and the handshake of the outbound (outbound.rs).

  BLAKE3 and the AEAD backend are the record \<open>ss_crypto\<close>, with the laws of \<open>aead_laws\<close> and the
  length of a derived key in the locale \<open>ss_crypto_laws\<close>; base64 decoders and the BLAKE3 hash are
  arguments of \<open>password_to_psk\<close>.  Random salts and the clocks are arguments: the system time in
  seconds as a 64-bit word, instants in milliseconds as numbers.

  The theory shows that the client and the server of this code agree on the destination, the first
  payload, the keys and the counters of both directions, and how far the replay filter reaches.
\<close>

section \<open>Keys\<close>

record ss_crypto =
  sc_aead :: aead_backend
  sc_derive_key :: "string \<Rightarrow> bytes \<Rightarrow> bytes"

locale ss_crypto_laws = aead_laws "sc_aead cr" for cr :: ss_crypto +
  assumes derive_key_length: "length (sc_derive_key cr ctxt material) = 32"

definition SUBKEY_CONTEXT :: string where "SUBKEY_CONTEXT = ''shadowsocks 2022 session subkey''"

definition derive_subkey :: "ss_crypto \<Rightarrow> bytes \<Rightarrow> bytes \<Rightarrow> bytes" where
  "derive_subkey cr psk salt = sc_derive_key cr SUBKEY_CONTEXT (psk @ salt)"

fun password_to_psk :: "(string \<Rightarrow> bytes option) list \<Rightarrow> (bytes \<Rightarrow> bytes) \<Rightarrow> string \<Rightarrow> bytes" where
  "password_to_psk [] blake3_hash pw = blake3_hash (as_bytes pw)"
| "password_to_psk (decode # engines) blake3_hash pw =
     (case decode pw of
        Some bs \<Rightarrow> if length bs = 32 then bs else password_to_psk engines blake3_hash pw
      | None \<Rightarrow> password_to_psk engines blake3_hash pw)"

definition u64_from_be8 :: "bytes \<Rightarrow> u64 res" where
  "u64_from_be8 bs = (if length bs = 8 then Ok (from_be bs) else Err (Protocol ''SS-2022: timestamp field must be 8 bytes''))"

definition ss_cipher :: "bytes \<Rightarrow> aead_key" where
  "ss_cipher subkey = \<lparr>ak_alg = Aes256Gcm, ak_key = subkey\<rparr>"

record ss_auth_state =
  ss_psk :: bytes
  ss_user :: "string option"

definition ss_replace_password ::
  "(string \<Rightarrow> bytes option) list \<Rightarrow> (bytes \<Rightarrow> bytes) \<Rightarrow> string \<Rightarrow> string option \<Rightarrow> ss_auth_state option" where
  "ss_replace_password engines blake3_hash pw user = Some \<lparr>ss_psk = password_to_psk engines blake3_hash pw, ss_user = user\<rparr>"

section \<open>The variable header\<close>

definition build_request_variable_header :: "address \<Rightarrow> bytes \<Rightarrow> bytes res" where
  "build_request_variable_header d initial_payload =
     and_then (write_socks5_address [] d) (\<lambda>buf. Ok (buf @ to_be 2 (0 :: u16) @ initial_payload))"

definition parse_variable_header :: "bytes \<Rightarrow> (address \<times> bytes) res" where
  "parse_variable_header data =
     (if data = [] then Err (Protocol ''SS-2022: empty variable header'')
      else
        and_then (idx data 0) (\<lambda>atyp.
        and_then (slice data 1 (length data)) (\<lambda>rest.
        and_then (decode_socks5_address rest atyp ''SS-2022'') (\<lambda>(d, consumed).
        let pos = 1 + consumed in
        if pos + 2 > length data then Err (Protocol ''SS-2022: truncated padding length'')
        else
          and_then (slice data pos (pos + 2)) (\<lambda>pad.
          let pad_len = unat (from_be pad :: u16);
              pos = pos + 2 in
          if pos + pad_len > length data then Err (Protocol ''SS-2022: truncated padding'')
          else and_then (slice data (pos + pad_len) (length data)) (\<lambda>payload. Ok (d, payload)))))))"

section \<open>The replay filter\<close>

definition TTL_SECS :: nat where "TTL_SECS = 60"

type_synonym salt_replay = "bytes \<rightharpoonup> nat"

definition check_and_insert :: "bytes \<Rightarrow> nat \<Rightarrow> salt_replay \<Rightarrow> bool \<times> salt_replay" where
  "check_and_insert salt now r = (case r salt of Some _ \<Rightarrow> (False, r) | None \<Rightarrow> (True, r(salt \<mapsto> now)))"

definition reap :: "nat \<Rightarrow> salt_replay \<Rightarrow> salt_replay" where
  "reap now r = (\<lambda>salt. case r salt of None \<Rightarrow> None | Some ts \<Rightarrow> if now - ts < TTL_SECS * 1000 then Some ts else None)"

section \<open>The server\<close>

definition MAX_TIME_DIFF :: u64 where "MAX_TIME_DIFF = 30"
definition TYPE_TCP :: u8 where "TYPE_TCP = 0x00"
definition TYPE_SERVER :: u8 where "TYPE_SERVER = 0x01"

definition abs_diff :: "u64 \<Rightarrow> u64 \<Rightarrow> u64" where
  "abs_diff a b = (if a < b then b - a else a - b)"

definition build_response_fixed_header :: "u64 \<Rightarrow> bytes \<Rightarrow> bytes" where
  "build_response_fixed_header ts req_salt = [TYPE_SERVER] @ to_be 8 ts @ req_salt @ [0, 0]"

text \<open>Reading the request: salt, subkey, destination, first payload and what follows on the connection.\<close>

definition read_ss_request :: "ss_crypto \<Rightarrow> u64 \<Rightarrow> bytes \<Rightarrow> bytes \<Rightarrow> (bytes \<times> bytes \<times> address \<times> bytes \<times> bytes) res" where
  "read_ss_request cr now psk s =
     and_then (read_exact 32 s) (\<lambda>(req_salt, s).
     let req_subkey = derive_subkey cr psk req_salt in
     and_then (read_exact 27 s) (\<lambda>(fixed_ct, s).
     and_then (ok_or (aead_decrypt (sc_aead cr) (ss_cipher req_subkey) (make_nonce 0) fixed_ct)
       (Protocol ''SS-2022: fixed header decrypt failed'')) (\<lambda>fixed.
     if length fixed \<noteq> 11 \<or> fixed ! 0 \<noteq> TYPE_TCP then Err (Protocol ''SS-2022: invalid request fixed header'')
     else
       and_then (u64_from_be8 (take 8 (drop 1 fixed))) (\<lambda>ts.
       if abs_diff ts now > MAX_TIME_DIFF then Err AuthFailed
       else
         let variable_len = unat (from_be (take 2 (drop 9 fixed)) :: u16) in
         and_then (read_exact (variable_len + 16) s) (\<lambda>(var_ct, s).
         and_then (ok_or (aead_decrypt (sc_aead cr) (ss_cipher req_subkey) (make_nonce 1) var_ct)
           (Protocol ''SS-2022: variable header decrypt failed'')) (\<lambda>variable.
         and_then (parse_variable_header variable) (\<lambda>(d, initial_payload).
         Ok (req_salt, req_subkey, d, initial_payload, s))))))))"

datatype ss_outcome = SsDropped | SsDispatch "string option" address ss_stream bytes "permit option"

text \<open>The handler.  \<open>write_ok\<close> tells whether the connection takes the response; the permit of the user goes
  with the outcome.\<close>

definition handle_ss2022 ::
  "ss_crypto \<Rightarrow> ss_auth_state option \<Rightarrow> u64 \<Rightarrow> nat \<Rightarrow> u64 \<Rightarrow> bytes \<Rightarrow> bool \<Rightarrow> bytes \<Rightarrow> salt_replay \<Rightarrow> limiter option
     \<Rightarrow> (ss_outcome \<times> bytes) res \<times> salt_replay \<times> limiter option" where
  "handle_ss2022 cr auth now instant resp_now resp_salt write_ok s replay user_limiter =
     (case auth of
        None \<Rightarrow> (Err (Protocol ''SS-2022 auth store is empty''), replay, user_limiter)
      | Some auth \<Rightarrow>
          (case read_ss_request cr now (ss_psk auth) s of
             Err e \<Rightarrow> (Err e, replay, user_limiter)
           | Panic \<Rightarrow> (Panic, replay, user_limiter)
           | Ok (req_salt, req_subkey, d, initial_payload, rest) \<Rightarrow>
               (case check_and_insert req_salt instant replay of
                  (False, replay) \<Rightarrow> (Err AuthFailed, replay, user_limiter)
                | (True, replay) \<Rightarrow>
                    let (permit, user_limiter) =
                      (case (user_limiter, ss_user auth) of
                         (Some l, Some user) \<Rightarrow>
                           (case try_acquire (Some user) l of
                              (Some p, l) \<Rightarrow> (Some (Some p), Some l)
                            | (None, l) \<Rightarrow> (None, Some l))
                       | _ \<Rightarrow> (Some None, user_limiter)) in
                    (case permit of
                       None \<Rightarrow> (Ok (SsDropped, []), replay, user_limiter)
                     | Some permit \<Rightarrow>
                         if \<not> write_ok
                         then (Err (Io BrokenPipe), replay,
                               (case (permit, user_limiter) of
                                  (Some p, Some l) \<Rightarrow> Some (drop_permit p l) | _ \<Rightarrow> user_limiter))
                         else
                           let resp_subkey = derive_subkey cr (ss_psk auth) resp_salt;
                               hdr_ct = aead_encrypt (sc_aead cr) (ss_cipher resp_subkey) (make_nonce 0)
                                 (build_response_fixed_header resp_now req_salt);
                               empty_ct = aead_encrypt (sc_aead cr) (ss_cipher resp_subkey) (make_nonce 1) [] in
                           (case new_bidir req_subkey 2 resp_subkey 2 initial_payload None of
                              Ok st \<Rightarrow> (Ok (SsDispatch (ss_user auth) d st rest permit, resp_salt @ hdr_ct @ empty_ct),
                                        replay, user_limiter)
                            | _ \<Rightarrow> (Panic, replay, user_limiter))))))"

section \<open>The client\<close>

text \<open>What the client sends, and what it makes of the answer.\<close>

definition ss2022_request :: "ss_crypto \<Rightarrow> bytes \<Rightarrow> bytes \<Rightarrow> u64 \<Rightarrow> address \<Rightarrow> bytes \<Rightarrow> bytes res" where
  "ss2022_request cr psk req_salt ts d initial_payload =
     (let req_subkey = derive_subkey cr psk req_salt in
      and_then (build_request_variable_header d initial_payload) (\<lambda>variable.
      let fixed = [TYPE_TCP] @ to_be 8 ts @ to_be 2 (word_of_nat (length variable) :: u16);
          fixed_ct = aead_encrypt (sc_aead cr) (ss_cipher req_subkey) (make_nonce 0) fixed;
          variable_ct = aead_encrypt (sc_aead cr) (ss_cipher req_subkey) (make_nonce 1) variable in
      Ok (req_salt @ fixed_ct @ variable_ct)))"

definition ss2022_response :: "ss_crypto \<Rightarrow> bytes \<Rightarrow> bytes \<Rightarrow> u64 \<Rightarrow> bytes \<Rightarrow> (ss_stream \<times> bytes) res" where
  "ss2022_response cr psk req_salt now raw =
     and_then (read_exact 32 raw) (\<lambda>(resp_salt, raw).
     let resp_subkey = derive_subkey cr psk resp_salt in
     and_then (read_exact (43 + 16) raw) (\<lambda>(resp_hdr_ct, raw).
     and_then (ok_or (aead_decrypt (sc_aead cr) (ss_cipher resp_subkey) (make_nonce 0) resp_hdr_ct)
       (Protocol ''SS-2022: response header decrypt failed'')) (\<lambda>resp_hdr.
     if length resp_hdr \<noteq> 43 \<or> resp_hdr ! 0 \<noteq> TYPE_SERVER then Err (Protocol ''SS-2022: invalid response header type'')
     else
       and_then (u64_from_be8 (take 8 (drop 1 resp_hdr))) (\<lambda>resp_ts.
       if abs_diff resp_ts now > MAX_TIME_DIFF then Err AuthFailed
       else
         let initial_len = unat (from_be (take 2 (drop 41 resp_hdr)) :: u16) in
         and_then (read_exact (initial_len + 16) raw) (\<lambda>(initial_ct, raw).
         and_then (ok_or (aead_decrypt (sc_aead cr) (ss_cipher resp_subkey) (make_nonce 1) initial_ct)
           (Protocol ''SS-2022: initial payload decrypt failed'')) (\<lambda>initial_pt.
         and_then (new_bidir resp_subkey 2 (derive_subkey cr psk req_salt) 2 initial_pt None) (\<lambda>st.
         Ok (st, raw))))))))"

section \<open>Client and server agree\<close>

lemma parse_build_variable_header:
  assumes "wf_address d" "build_request_variable_header d payload = Ok v"
  shows "parse_variable_header v = Ok (d, payload)"
proof -
  from assms(2) obtain e where e: "write_socks5_address [] d = Ok e" "v = e @ to_be 2 (0 :: u16) @ payload"
    by (auto simp: build_request_variable_header_def and_then_Ok_iff)
  from socks5_address_roundtrip [OF assms(1) e(1)] obtain atyp data where a: "e = atyp # data"
    "decode_socks5_address (data @ to_be 2 (0 :: u16) @ payload) atyp ''SS-2022'' = Ok (d, length data)" by blast
  then show ?thesis by (simp add: parse_variable_header_def e(2) Let_def)
qed

lemma response_header_fields:
  assumes "length salt = 32"
  shows "length (build_response_fixed_header ts salt) = 43" "build_response_fixed_header ts salt ! 0 = TYPE_SERVER"
    "take 8 (drop 1 (build_response_fixed_header ts salt)) = to_be 8 ts"
    "take 2 (drop 41 (build_response_fixed_header ts salt)) = [0, 0]"
  using assms by (simp_all add: build_response_fixed_header_def)

context ss_crypto_laws
begin

lemma new_bidir_derived:
  "\<exists>st. new_bidir (derive_subkey cr psk s1) n1 (derive_subkey cr psk s2) n2 early None = Ok st \<and>
     st_read_cipher st = ss_cipher (derive_subkey cr psk s1) \<and> st_write_cipher st = ss_cipher (derive_subkey cr psk s2) \<and>
     st_read_counter st = n1 \<and> st_write_counter st = n2 \<and> st_read_buf st = early \<and>
     st_read_raw st = [] \<and> st_write_buf st = [] \<and> st_response_header st = None"
  by (simp add: new_bidir_def aead_key_new_def derive_subkey_def derive_key_length ss_cipher_def)

lemma read_request_roundtrip:
  assumes "wf_address d" "ss2022_request cr psk salt ts d payload = Ok req" "length salt = 32" "abs_diff ts now \<le> MAX_TIME_DIFF"
    "build_request_variable_header d payload = Ok v" "length v < 65536"
  shows "read_ss_request cr now psk (req @ rest) = Ok (salt, derive_subkey cr psk salt, d, payload, rest)"
proof -
  let ?key = "ss_cipher (derive_subkey cr psk salt)"
  let ?fixed = "[TYPE_TCP] @ to_be 8 ts @ to_be 2 (word_of_nat (length v) :: u16)"
  let ?f = "aead_encrypt (sc_aead cr) ?key (make_nonce 0) ?fixed" and ?v = "aead_encrypt (sc_aead cr) ?key (make_nonce 1) v"
  have req: "req @ rest = salt @ ?f @ ?v @ rest" using assms(2,5) by (auto simp: ss2022_request_def Let_def)
  have len: "length ?f = 27" "length ?v = length v + 16" by (simp_all add: encrypt_length TAG_LEN_def)
  have r: "read_exact 32 (req @ rest) = Ok (salt, ?f @ ?v @ rest)" "read_exact 27 (?f @ ?v @ rest) = Ok (?f, ?v @ rest)"
    "read_exact (length v + 16) (?v @ rest) = Ok (?v, rest)"
    using assms(3) len by (simp_all add: req read_exact_def)
  have fields: "length ?fixed = 11" "?fixed ! 0 = TYPE_TCP" "take 8 (drop 1 ?fixed) = to_be 8 ts"
    "take 2 (drop 9 ?fixed) = to_be 2 (word_of_nat (length v) :: u16)" by simp_all
  have ts: "u64_from_be8 (to_be 8 ts) = Ok ts" by (simp add: u64_from_be8_def)
  show ?thesis
    unfolding read_ss_request_def r Let_def and_then.simps prod.case decrypt_encrypt ok_or_simps fields ts
    using assms(4,6) by (simp add: decrypt_encrypt parse_build_variable_header [OF assms(1,5)] r not_less)
qed

lemma response_roundtrip:
  assumes "length salt = 32" "length resp_salt = 32" "abs_diff ts now \<le> MAX_TIME_DIFF"
  shows "\<exists>st. ss2022_response cr psk salt now
      (resp_salt @ aead_encrypt (sc_aead cr) (ss_cipher (derive_subkey cr psk resp_salt)) (make_nonce 0) (build_response_fixed_header ts salt) @
       aead_encrypt (sc_aead cr) (ss_cipher (derive_subkey cr psk resp_salt)) (make_nonce 1) [] @ rest) = Ok (st, rest) \<and>
    new_bidir (derive_subkey cr psk resp_salt) 2 (derive_subkey cr psk salt) 2 [] None = Ok st"
proof -
  let ?key = "ss_cipher (derive_subkey cr psk resp_salt)"
  let ?h = "aead_encrypt (sc_aead cr) ?key (make_nonce 0) (build_response_fixed_header ts salt)"
  let ?e = "aead_encrypt (sc_aead cr) ?key (make_nonce 1) []"
  have len: "length ?h = 59" "length ?e = 16"
    by (simp_all add: encrypt_length TAG_LEN_def response_header_fields [OF assms(1)])
  have r: "read_exact 32 (resp_salt @ ?h @ ?e @ rest) = Ok (resp_salt, ?h @ ?e @ rest)"
    "read_exact (43 + 16) (?h @ ?e @ rest) = Ok (?h, ?e @ rest)" "read_exact 16 (?e @ rest) = Ok (?e, rest)"
    using assms(2) len by (simp_all add: read_exact_def)
  have ts: "u64_from_be8 (to_be 8 ts) = Ok ts" by (simp add: u64_from_be8_def)
  have z: "from_be [0, 0 :: u8] = (0 :: u16)" using from_be_snoc [of "[0]" 0] by simp
  from new_bidir_derived [of psk resp_salt 2 salt 2 "[]"] obtain st where
    st: "new_bidir (derive_subkey cr psk resp_salt) 2 (derive_subkey cr psk salt) 2 [] None = Ok st" by blast
  show ?thesis
    unfolding ss2022_response_def r Let_def and_then.simps prod.case decrypt_encrypt ok_or_simps
      response_header_fields [OF assms(1)] ts z
    using assms(3) st by (simp add: not_less r decrypt_encrypt)
qed

lemma handle_client_request:
  assumes "wf_address d" "build_request_variable_header d payload = Ok v" "length v < 65536"
    and "ss2022_request cr (ss_psk auth) salt ts d payload = Ok req" "length salt = 32"
    and "abs_diff ts now \<le> MAX_TIME_DIFF" "replay salt = None"
  obtains srv where
    "handle_ss2022 cr (Some auth) now instant resp_now resp_salt True (req @ data) replay None =
       (Ok (SsDispatch (ss_user auth) d srv data None,
          resp_salt @
          aead_encrypt (sc_aead cr) (ss_cipher (derive_subkey cr (ss_psk auth) resp_salt)) (make_nonce 0)
            (build_response_fixed_header resp_now salt) @
          aead_encrypt (sc_aead cr) (ss_cipher (derive_subkey cr (ss_psk auth) resp_salt)) (make_nonce 1) []),
        replay(salt \<mapsto> instant), None)"
    "st_read_cipher srv = ss_cipher (derive_subkey cr (ss_psk auth) salt)" "st_read_counter srv = 2"
    "st_write_cipher srv = ss_cipher (derive_subkey cr (ss_psk auth) resp_salt)" "st_write_counter srv = 2"
    "st_read_buf srv = payload"
proof -
  let ?psk = "ss_psk auth"
  from new_bidir_derived [of ?psk salt 2 resp_salt 2 payload] obtain srv where
    srv: "new_bidir (derive_subkey cr ?psk salt) 2 (derive_subkey cr ?psk resp_salt) 2 payload None = Ok srv"
    "st_read_cipher srv = ss_cipher (derive_subkey cr ?psk salt)" "st_write_cipher srv = ss_cipher (derive_subkey cr ?psk resp_salt)"
    "st_read_counter srv = 2" "st_write_counter srv = 2" "st_read_buf srv = payload" by blast
  have new: "check_and_insert salt instant replay = (True, replay(salt \<mapsto> instant))"
    using assms(7) by (simp add: check_and_insert_def)
  note req = read_request_roundtrip [OF assms(1,4,5,6,2,3), of data]
  have "handle_ss2022 cr (Some auth) now instant resp_now resp_salt True (req @ data) replay None =
       (Ok (SsDispatch (ss_user auth) d srv data None,
          resp_salt @
          aead_encrypt (sc_aead cr) (ss_cipher (derive_subkey cr ?psk resp_salt)) (make_nonce 0)
            (build_response_fixed_header resp_now salt) @
          aead_encrypt (sc_aead cr) (ss_cipher (derive_subkey cr ?psk resp_salt)) (make_nonce 1) []),
        replay(salt \<mapsto> instant), None)"
    by (simp add: handle_ss2022_def req new srv(1) Let_def)
  then show thesis using that srv(2-) by blast
qed

end

definition demo_crypto :: ss_crypto where
  "demo_crypto = \<lparr>sc_aead = plain_aead, sc_derive_key = (\<lambda>ctxt material. take 32 (rev material @ replicate 32 0))\<rparr>"

interpretation demo: ss_crypto_laws demo_crypto
  by unfold_locales (auto simp: demo_crypto_def plain_aead_def TAG_LEN_def split: if_splits)

text \<open>C14: a client of this code is admitted by a server of this code.  If the clocks differ by at most thirty
  seconds, the salt is new and the header fits its length field, the handler dispatches to the
  client's destination with the client's first payload; the client accepts the server's answer;
  and the two ends agree on keys and counters in both directions, so that what follows on the
  connection is exactly the encrypted stream of the other side.\<close>

theorem ss2022_client_is_admitted:
  assumes "ss_crypto_laws cr" "wf_address d"
    and "build_request_variable_header d payload = Ok v" "length v < 65536"
    and "ss2022_request cr (ss_psk auth) salt ts d payload = Ok req" "length salt = 32" "length resp_salt = 32"
    and "abs_diff ts now \<le> MAX_TIME_DIFF" "abs_diff resp_now client_now \<le> MAX_TIME_DIFF" "replay salt = None"
  shows "\<exists>srv cl replies.
    handle_ss2022 cr (Some auth) now instant resp_now resp_salt True (req @ data) replay None =
      (Ok (SsDispatch (ss_user auth) d srv data None, replies), replay(salt \<mapsto> instant), None) \<and>
    ss2022_response cr (ss_psk auth) salt client_now (replies @ answer) = Ok (cl, answer) \<and>
    st_read_buf srv = payload \<and> st_read_buf cl = [] \<and>
    st_read_cipher srv = st_write_cipher cl \<and> st_read_counter srv = st_write_counter cl \<and>
    st_read_cipher cl = st_write_cipher srv \<and> st_read_counter cl = st_write_counter srv"
proof -
  let ?psk = "ss_psk auth"
  from ss_crypto_laws.new_bidir_derived [OF assms(1), of ?psk resp_salt 2 salt 2 "[]"] obtain cl where
    cl: "new_bidir (derive_subkey cr ?psk resp_salt) 2 (derive_subkey cr ?psk salt) 2 [] None = Ok cl"
    "st_read_cipher cl = ss_cipher (derive_subkey cr ?psk resp_salt)" "st_write_cipher cl = ss_cipher (derive_subkey cr ?psk salt)"
    "st_read_counter cl = 2" "st_write_counter cl = 2" "st_read_buf cl = []" by blast
  have resp: "ss2022_response cr ?psk salt client_now
      ((resp_salt @
        aead_encrypt (sc_aead cr) (ss_cipher (derive_subkey cr ?psk resp_salt)) (make_nonce 0)
          (build_response_fixed_header resp_now salt) @
        aead_encrypt (sc_aead cr) (ss_cipher (derive_subkey cr ?psk resp_salt)) (make_nonce 1) []) @ answer) = Ok (cl, answer)"
    using ss_crypto_laws.response_roundtrip [OF assms(1,6,7,9), of ?psk answer] cl(1) by simp
  show ?thesis
    by (rule ss_crypto_laws.handle_client_request [OF assms(1,2,3,4,5,6,8), where replay = replay, OF assms(10),
          of instant resp_now resp_salt data])
      (use resp cl(2-) in fastforce)
qed

lemma demo_variable_header:
  "build_request_variable_header (Ipv4 0x08080808 443) [104, 105] = Ok [1, 8, 8, 8, 8, 1, 187, 0, 0, 104, 105]"
  by code_simp

lemma demo_request:
  obtains req where "ss2022_request demo_crypto psk salt ts (Ipv4 0x08080808 443) [104, 105] = Ok req"
  by (simp add: ss2022_request_def demo_variable_header Let_def)

lemma salt_exists: obtains salt :: bytes where "length salt = 32"
  using Ex_list_of_length by blast

theorem ss2022_client_is_admitted_witness:
  "\<exists>salt req srv replies.
     ss2022_request demo_crypto [1, 2, 3] salt 1000 (Ipv4 0x08080808 443) [104, 105] = Ok req \<and>
     handle_ss2022 demo_crypto (Some \<lparr>ss_psk = [1, 2, 3], ss_user = None\<rparr>) 1030 5 1031 salt True (req @ [9]) Map.empty None =
       (Ok (SsDispatch None (Ipv4 0x08080808 443) srv [9] None, replies), [salt \<mapsto> 5], None) \<and>
     st_read_buf srv = [104, 105]"
proof -
  obtain salt :: bytes where salt: "length salt = 32" by (rule salt_exists)
  let ?auth = "\<lparr>ss_psk = [1, 2, 3], ss_user = None\<rparr> :: ss_auth_state"
  obtain req where req: "ss2022_request demo_crypto (ss_psk ?auth) salt 1000 (Ipv4 0x08080808 443) [104, 105] = Ok req"
    by (rule demo_request)
  show ?thesis
    using ss2022_client_is_admitted [OF demo.ss_crypto_laws_axioms _ demo_variable_header _ req salt salt,
        of 1030 1031 1040 Map.empty 5 "[9]" "[]"] req
    by (fastforce simp: abs_diff_def MAX_TIME_DIFF_def)
qed

section \<open>Replays\<close>

text \<open>The requests a server has dispatched, the latest first, each with the instants (in milliseconds)
  at which its time stamp was compared with the clock and its salt was put into the filter.  The
  variable header is read between the two, so up to \<open>delay\<close> may pass: the handshake timeout.  \<open>base\<close> is
  the system time at instant zero.  Reaping happens at any time, at least as often as the reaper does.\<close>

definition wall_clock :: "nat \<Rightarrow> nat \<Rightarrow> u64" where
  "wall_clock base instant = word_of_nat ((base + instant) div 1000)"

fun dispatched :: "(ss_outcome \<times> bytes) res \<Rightarrow> bool" where
  "dispatched (Ok (SsDispatch _ _ _ _ _, _)) = True"
| "dispatched _ = False"

inductive ss_accepts ::
  "ss_crypto \<Rightarrow> ss_auth_state \<Rightarrow> nat \<Rightarrow> nat \<Rightarrow> (bytes \<times> nat \<times> nat) list \<Rightarrow> nat \<Rightarrow> salt_replay \<Rightarrow> bool"
  for cr auth base delay where
  start: "ss_accepts cr auth base delay [] 0 Map.empty"
| reaped: "ss_accepts cr auth base delay log t r \<Longrightarrow> t \<le> t' \<Longrightarrow> ss_accepts cr auth base delay log t' (reap t' r)"
| handled: "ss_accepts cr auth base delay log t r \<Longrightarrow> t \<le> t' \<Longrightarrow> c \<le> t' \<Longrightarrow> t' \<le> c + delay \<Longrightarrow>
    handle_ss2022 cr (Some auth) (wall_clock base c) t' resp_now resp_salt write_ok s r lim = (x, r', lim') \<Longrightarrow>
    ss_accepts cr auth base delay (if dispatched x then (s, c, t') # log else log) t' r'"

lemma read_ss_request_salt:
  assumes "read_ss_request cr now psk s = Ok (salt, x)"
  shows "salt = take 32 s"
  using assms by (auto simp: read_ss_request_def and_then_Ok_iff read_exact_Ok_iff Let_def split: if_splits)

text \<open>The time stamp of a request, which its bytes determine.\<close>

definition request_time :: "ss_crypto \<Rightarrow> bytes \<Rightarrow> bytes \<Rightarrow> u64" where
  "request_time cr psk s =
     from_be (take 8 (drop 1 (the (aead_decrypt (sc_aead cr) (ss_cipher (derive_subkey cr psk (take 32 s))) (make_nonce 0)
       (take 27 (drop 32 s))))))"

lemma read_ss_request_time:
  assumes "read_ss_request cr now psk s = Ok x"
  shows "abs_diff (request_time cr psk s) now \<le> MAX_TIME_DIFF"
  using assms
  by (auto simp: read_ss_request_def and_then_Ok_iff read_exact_Ok_iff request_time_def ok_or_Ok_iff u64_from_be8_def Let_def
      split: if_splits)

text \<open>What the handler does to the filter: nothing, or it enters the salt of a request it could read.\<close>

lemma handle_ss2022_replay:
  assumes "handle_ss2022 cr (Some auth) now t resp_now resp_salt write_ok s r lim = (x, r', lim')"
  shows "(r' = r \<and> \<not> dispatched x) \<or>
    (r (take 32 s) = None \<and> r' = r(take 32 s \<mapsto> t) \<and> (\<exists>y. read_ss_request cr now (ss_psk auth) s = Ok y))"
proof (cases "read_ss_request cr now (ss_psk auth) s")
  case (Ok y)
  obtain salt subkey d payload rest where y: "y = (salt, subkey, d, payload, rest)" by (metis prod_cases5)
  have salt: "salt = take 32 s" using Ok y read_ss_request_salt by metis
  show ?thesis
  proof (cases "r salt")
    case None
    then have "check_and_insert salt t r = (True, r(salt \<mapsto> t))" by (simp add: check_and_insert_def)
    then have "r' = r(salt \<mapsto> t)" using assms Ok y
      by (auto simp: handle_ss2022_def Let_def split: prod.splits option.splits if_splits res.splits)
    then show ?thesis using None Ok y salt by simp
  next
    case (Some ts)
    then have "check_and_insert salt t r = (False, r)" by (simp add: check_and_insert_def)
    then show ?thesis using assms Ok y by (auto simp: handle_ss2022_def)
  qed
qed (use assms in \<open>auto simp: handle_ss2022_def\<close>)

text \<open>A dispatched request is in the filter, or a minute has passed since it was entered.\<close>

definition log_inv :: "ss_crypto \<Rightarrow> bytes \<Rightarrow> nat \<Rightarrow> nat \<Rightarrow> (bytes \<times> nat \<times> nat) list \<Rightarrow> nat \<Rightarrow> salt_replay \<Rightarrow> bool" where
  "log_inv cr psk base delay log t r \<longleftrightarrow>
     (\<forall>salt ts. r salt = Some ts \<longrightarrow> ts \<le> t) \<and>
     (\<forall>(s, c, i) \<in> set log. i \<le> t \<and> c \<le> i \<and> i \<le> c + delay \<and>
        abs_diff (request_time cr psk s) (wall_clock base c) \<le> MAX_TIME_DIFF \<and>
        ((\<exists>ts. r (take 32 s) = Some ts \<and> i \<le> ts) \<or> i + TTL_SECS * 1000 \<le> t)) \<and>
     sorted_wrt (\<lambda>(s', c', i') (s, c, i). take 32 s = take 32 s' \<longrightarrow> i + TTL_SECS * 1000 \<le> i') log"

lemma log_inv_reap:
  assumes "log_inv cr psk base delay log t r" "t \<le> t'"
  shows "log_inv cr psk base delay log t' (reap t' r)"
  using assms by (fastforce simp: log_inv_def reap_def split: option.splits)

lemma log_inv_insert:
  assumes "log_inv cr psk base delay log t r" "t \<le> t'" "r salt = None"
  shows "log_inv cr psk base delay log t' (r(salt \<mapsto> t'))"
  using assms by (fastforce simp: log_inv_def)

lemma log_inv_later:
  assumes "log_inv cr psk base delay log t r" "t \<le> t'"
  shows "log_inv cr psk base delay log t' r"
  using assms by (fastforce simp: log_inv_def)

lemma log_inv_dispatch:
  assumes "log_inv cr psk base delay log t r" "t \<le> t'" "r (take 32 s) = None" "c \<le> t'" "t' \<le> c + delay"
    and "abs_diff (request_time cr psk s) (wall_clock base c) \<le> MAX_TIME_DIFF"
  shows "log_inv cr psk base delay ((s, c, t') # log) t' (r(take 32 s \<mapsto> t'))"
proof -
  have "i + TTL_SECS * 1000 \<le> t'" if "(s', c', i) \<in> set log" "take 32 s' = take 32 s" for s' c' i
    using assms(1-3) that by (fastforce simp: log_inv_def)
  then show ?thesis using log_inv_insert [OF assms(1-3)] assms(4-) by (fastforce simp: log_inv_def)
qed

lemma ss_accepts_inv:
  assumes "ss_accepts cr auth base delay log t r"
  shows "log_inv cr (ss_psk auth) base delay log t r"
  using assms
proof induction
  case (handled log t r t' c resp_now resp_salt write_ok s lim x r' lim')
  from handle_ss2022_replay [OF handled.hyps(5)] show ?case
  proof (elim disjE conjE exE)
    fix y assume *: "r (take 32 s) = None" "r' = r(take 32 s \<mapsto> t')"
      "read_ss_request cr (wall_clock base c) (ss_psk auth) s = Ok y"
    show ?thesis
      using log_inv_dispatch [OF handled.IH handled.hyps(2) *(1) handled.hyps(3,4) read_ss_request_time [OF *(3)]]
        log_inv_insert [OF handled.IH handled.hyps(2) *(1)] *(2) by (simp del: fun_upd_apply)
  qed (use log_inv_later [OF handled.IH handled.hyps(2)] in simp)
qed (simp_all add: log_inv_reap, simp add: log_inv_def)

lemma abs_diff_unat: "unat (abs_diff a b) = (if unat a < unat b then unat b - unat a else unat a - unat b)"
  by (auto simp: abs_diff_def word_less_nat_alt unat_sub_if')

lemma two_near:
  fixes a x k y :: nat
  shows "(if a < x then x - a else a - x) \<le> k \<Longrightarrow> (if a < y then y - a else a - y) \<le> k \<Longrightarrow> y \<le> x + 2 * k"
  by (simp split: if_splits)

text \<open>C18: the replay protection of the Shadowsocks 2022 inbound has a bound, and a hole.  When the handler
  dispatches the same request twice, the second time is at least one minute after the first: the
  salt filter holds.  And it is less than sixty-one seconds plus the time a handshake may take after the first: then the time
  stamp is refused.  Between the two bounds a recorded request is accepted again.\<close>

theorem ss2022_replay_window:
  assumes "ss_accepts cr auth base delay log t r" "(base + t) div 1000 < 2 ^ 64"
    and "log = later @ (s, c', i') # between @ (s, c, i) # earlier"
  shows "i + TTL_SECS * 1000 \<le> i' \<and> i' < i + (TTL_SECS + 1) * 1000 + delay"
proof -
  have inv: "log_inv cr (ss_psk auth) base delay log t r" by (rule ss_accepts_inv [OF assms(1)])
  let ?rt = "request_time cr (ss_psk auth) s"
  have b: "c \<le> i" "c' \<le> i'" "i' \<le> c' + delay" "i \<le> t" "i' \<le> t"
    and d: "abs_diff ?rt (wall_clock base c) \<le> 30" "abs_diff ?rt (wall_clock base c') \<le> 30"
    and low: "i + TTL_SECS * 1000 \<le> i'"
    using inv assms(3) by (auto simp: log_inv_def MAX_TIME_DIFF_def sorted_wrt_append)
  have w: "unat (wall_clock base x) = (base + x) div 1000" if "x \<le> t" for x
  proof -
    have "(base + x) div 1000 < 2 ^ 64" using assms(2) that by (meson add_left_mono div_le_mono le_less_trans)
    then show ?thesis by (simp add: wall_clock_def unat_of_nat take_bit_nat_eq_self)
  qed
  have "unat (abs_diff ?rt (wall_clock base c)) \<le> 30" "unat (abs_diff ?rt (wall_clock base c')) \<le> 30"
    using d by (simp_all add: word_le_nat_alt)
  then have "unat (wall_clock base c') \<le> unat (wall_clock base c) + 2 * 30"
    unfolding abs_diff_unat by (rule two_near)
  then have "(base + c') div 1000 \<le> (base + c) div 1000 + 60" using w [of c] w [of c'] b by simp
  then have "c' < c + 61000" by simp
  then show ?thesis using b low by (simp add: TTL_SECS_def)
qed

text \<open>A request whose time stamp is half a minute ahead, sent at instant zero and again a minute later.\<close>

lemma demo_replay:
  "\<exists>s r. ss_accepts demo_crypto \<lparr>ss_psk = [1, 2, 3], ss_user = None\<rparr> 0 0 [(s, 60000, 60000), (s, 0, 0)] 60000 r"
proof -
  obtain salt :: bytes where salt: "length salt = 32" by (rule salt_exists)
  let ?auth = "\<lparr>ss_psk = [1, 2, 3], ss_user = None\<rparr> :: ss_auth_state"
  let ?A = "ss_accepts demo_crypto ?auth 0 0"
  obtain req where req: "ss2022_request demo_crypto (ss_psk ?auth) salt 30 (Ipv4 0x08080808 443) [104, 105] = Ok req"
    by (rule demo_request)
  note handle = demo.handle_client_request [OF _ demo_variable_header _ req salt, where data = "[]", simplified]
  obtain out0 where h0: "handle_ss2022 demo_crypto (Some ?auth) (wall_clock 0 0) 0 0 salt True req Map.empty None =
      (Ok out0, [salt \<mapsto> 0], None)" and d0: "dispatched (Ok out0)"
    by (rule handle [of "wall_clock 0 0" Map.empty 0 0 salt]) (simp_all add: abs_diff_def MAX_TIME_DIFF_def wall_clock_def)
  obtain out1 where h1: "handle_ss2022 demo_crypto (Some ?auth) (wall_clock 0 60000) 60000 0 salt True req Map.empty None =
      (Ok out1, [salt \<mapsto> 60000], None)" and d1: "dispatched (Ok out1)"
    by (rule handle [of "wall_clock 0 60000" Map.empty 60000 0 salt]) (simp_all add: abs_diff_def MAX_TIME_DIFF_def wall_clock_def)
  have "?A [(req, 0, 0)] 0 [salt \<mapsto> 0]"
    using ss_accepts.handled [OF ss_accepts.start _ _ _ h0] d0 by simp
  then have "?A [(req, 0, 0)] 60000 (reap 60000 [salt \<mapsto> 0])" by (rule ss_accepts.reaped) simp
  moreover have "reap 60000 [salt \<mapsto> 0] = Map.empty" by (auto simp: reap_def TTL_SECS_def)
  ultimately have "?A [(req, 0, 0)] 60000 Map.empty" by simp
  then have "?A [(req, 60000, 60000), (req, 0, 0)] 60000 [salt \<mapsto> 60000]"
    using ss_accepts.handled [OF _ _ _ _ h1, where log = "[(req, 0, 0)]"] d1 by simp
  then show ?thesis by blast
qed

theorem ss2022_replay_window_witness:
  "\<exists>s r. ss_accepts demo_crypto \<lparr>ss_psk = [1, 2, 3], ss_user = None\<rparr> 0 0 [(s, 60000, 60000), (s, 0, 0)] 60000 r \<and>
     (0::nat) + TTL_SECS * 1000 \<le> 60000 \<and> 60000 < 0 + (TTL_SECS + 1) * 1000 + (0::nat)"
proof -
  obtain s r where run: "ss_accepts demo_crypto \<lparr>ss_psk = [1, 2, 3], ss_user = None\<rparr> 0 0 [(s, 60000, 60000), (s, 0, 0)] 60000 r"
    using demo_replay by blast
  have "0 + TTL_SECS * 1000 \<le> 60000 \<and> 60000 < 0 + (TTL_SECS + 1) * 1000 + (0::nat)"
    by (rule ss2022_replay_window [OF run, of "[]" s 60000 60000 "[]" 0 0 "[]"]) simp_all
  then show ?thesis using run by blast
qed

end
