(* ===== verification/Ss2022_Udp.thy ===== *)
theory Ss2022_Udp
  imports Ss2022 "HOL-Library.AList"
begin

text \<open>
  The UDP relay of Shadowsocks 2022 (crates/blackwire-protocol/src/ss2022/udp.rs): the packet formats of both
  directions, the session table with its eviction, and the reply task of each session.

  AES-256 on one block is the record \<open>block_cipher\<close>; the locale \<open>ss_udp_laws\<close> adds that decrypting a block
  undoes encrypting it.  The table is an association list, since its iteration order decides ties in
  the eviction.  A socket is a number; \<open>su_client\<close> holds the shared cell with the client address of the
  session that owns the socket, and \<open>su_tasks\<close> the reply tasks that still run.  Instants count milliseconds, the
  system time seconds.  Resolving a destination is an argument.

  The theory shows that packets of a session and their answers pass unchanged, to the address the
  client used last, and that a session whose reply task has ended never gets an answer again.
\<close>

section \<open>Packets\<close>

record block_cipher =
  bc_encrypt :: "bytes \<Rightarrow> bytes \<Rightarrow> bytes"
  bc_decrypt :: "bytes \<Rightarrow> bytes \<Rightarrow> bytes"

definition TYPE_CLIENT :: u8 where "TYPE_CLIENT = 0x00"
definition UDP_SESSION_IDLE :: nat where "UDP_SESSION_IDLE = 30000"
definition MAX_SESSIONS :: nat where "MAX_SESSIONS = 4096"
definition SEPARATE_HEADER_LEN :: nat where "SEPARATE_HEADER_LEN = 16"

definition derive_session_key :: "ss_crypto \<Rightarrow> bytes \<Rightarrow> bytes \<Rightarrow> bytes" where
  "derive_session_key cr psk session_id = sc_derive_key cr ''shadowsocks 2022 session subkey'' (psk @ session_id)"

definition decrypt_separate_header :: "block_cipher \<Rightarrow> bytes \<Rightarrow> bytes \<Rightarrow> bytes res" where
  "decrypt_separate_header bc psk wire =
     (if length wire < SEPARATE_HEADER_LEN then Err (Protocol ''SS2022 UDP packet too short'')
      else Ok (bc_decrypt bc psk (take SEPARATE_HEADER_LEN wire)))"

definition encrypt_separate_header :: "block_cipher \<Rightarrow> bytes \<Rightarrow> bytes \<Rightarrow> bytes" where
  "encrypt_separate_header bc psk plain = bc_encrypt bc psk plain"

definition aead_nonce :: "bytes \<Rightarrow> bytes" where
  "aead_nonce header = drop 4 header"

definition decode_client_packet :: "ss_crypto \<Rightarrow> block_cipher \<Rightarrow> u64 \<Rightarrow> bytes \<Rightarrow> bytes \<Rightarrow> (u64 \<times> u64 \<times> address \<times> bytes) res" where
  "decode_client_packet cr bc now buf psk =
     and_then (decrypt_separate_header bc psk buf) (\<lambda>header.
     let client_session_id = from_be (take 8 header);
         packet_id = from_be (drop 8 header) in
     if length buf < SEPARATE_HEADER_LEN + TAG_LEN + 1 then Err (Protocol ''SS2022 UDP ciphertext too short'')
     else
       let ciphertext = drop SEPARATE_HEADER_LEN buf;
           session_key = derive_session_key cr psk (take 8 header) in
       and_then (ok_or (aead_decrypt (sc_aead cr) (ss_cipher session_key) (aead_nonce header) ciphertext)
         (Protocol ''SS2022 UDP decrypt failed'')) (\<lambda>plaintext.
       if plaintext = [] \<or> plaintext ! 0 \<noteq> TYPE_CLIENT
       then Err (Protocol (''SS2022 UDP unexpected type '' @ fmt_hex (case plaintext of [] \<Rightarrow> 0xff | b # _ \<Rightarrow> b)))
       else if length plaintext < 11 then Err (Protocol ''SS2022 UDP plaintext too short'')
       else
         let ts = from_be (take 8 (drop 1 plaintext)) in
         if abs_diff ts now > MAX_TIME_DIFF then Err AuthFailed
         else
           let pad_len = unat (from_be (take 2 (drop 9 plaintext)) :: u16);
               pos = 11 + pad_len in
           if pos \<ge> length plaintext then Err (Protocol ''SS2022 UDP truncated after padding'')
           else
             and_then (idx plaintext pos) (\<lambda>atyp.
             and_then (slice plaintext (pos + 1) (length plaintext)) (\<lambda>rest.
             and_then (decode_socks5_address rest atyp ''SS2022 UDP'') (\<lambda>(d, consumed).
             and_then (slice plaintext (pos + 1 + consumed) (length plaintext)) (\<lambda>payload.
             Ok (client_session_id, packet_id, d, payload)))))))"

record server_udp_session =
  us_server_session_id :: u64
  us_client_session_id :: u64
  us_session_key :: bytes

definition server_udp_session_new :: "ss_crypto \<Rightarrow> bytes \<Rightarrow> u64 \<Rightarrow> u64 \<Rightarrow> server_udp_session" where
  "server_udp_session_new cr psk server_session_id client_session_id =
     \<lparr>us_server_session_id = server_session_id, us_client_session_id = client_session_id,
      us_session_key = derive_session_key cr psk (to_be 8 server_session_id)\<rparr>"

definition encode_server_packet_into ::
  "ss_crypto \<Rightarrow> block_cipher \<Rightarrow> u64 \<Rightarrow> bytes \<Rightarrow> server_udp_session \<Rightarrow> u64 \<Rightarrow> address \<Rightarrow> bytes \<Rightarrow> bytes res" where
  "encode_server_packet_into cr bc ts psk session server_packet_id d payload =
     and_then (write_socks5_address
       ([TYPE_SERVER] @ to_be 8 ts @ to_be 8 (us_client_session_id session) @ to_be 2 (0 :: u16)) d) (\<lambda>scratch.
     let scratch = scratch @ payload;
         sep_plain = to_be 8 (us_server_session_id session) @ to_be 8 server_packet_id in
     Ok (encrypt_separate_header bc psk sep_plain @
         aead_encrypt (sc_aead cr) (ss_cipher (us_session_key session)) (aead_nonce sep_plain) scratch))"

definition decode_server_packet :: "ss_crypto \<Rightarrow> block_cipher \<Rightarrow> bytes \<Rightarrow> bytes \<Rightarrow> bytes res" where
  "decode_server_packet cr bc buf psk =
     and_then (decrypt_separate_header bc psk buf) (\<lambda>header.
     if length buf < SEPARATE_HEADER_LEN + TAG_LEN then Err (Protocol ''SS2022 UDP server packet too short'')
     else
       let session_key = derive_session_key cr psk (take 8 header) in
       ok_or (aead_decrypt (sc_aead cr) (ss_cipher session_key) (aead_nonce header) (drop SEPARATE_HEADER_LEN buf))
         (Protocol ''SS2022 UDP server decrypt failed''))"

definition encode_client_packet ::
  "ss_crypto \<Rightarrow> block_cipher \<Rightarrow> u64 \<Rightarrow> bytes \<Rightarrow> u64 \<Rightarrow> u64 \<Rightarrow> address \<Rightarrow> bytes \<Rightarrow> bytes res" where
  "encode_client_packet cr bc ts psk client_session_id packet_id d payload =
     and_then (write_socks5_address [] d) (\<lambda>addr_buf.
     let plain = [TYPE_CLIENT] @ to_be 8 ts @ to_be 2 (0 :: u16) @ addr_buf @ payload;
         sep_plain = to_be 8 client_session_id @ to_be 8 packet_id;
         session_key = derive_session_key cr psk (take 8 sep_plain) in
     Ok (encrypt_separate_header bc psk sep_plain @
         aead_encrypt (sc_aead cr) (ss_cipher session_key) (aead_nonce sep_plain) plain))"

section \<open>Sessions\<close>

record session_entry =
  se_sock :: nat
  se_last_used :: nat

record reply_task =
  rt_psk :: bytes
  rt_session :: server_udp_session
  rt_packet_id :: u64
  rt_deadline :: nat

record ss_udp =
  su_sessions :: "(u64 \<times> session_entry) list"
  su_client :: "nat \<Rightarrow> socket_addr"
  su_tasks :: "nat \<rightharpoonup> reply_task"
  su_next_sock :: nat

definition ss_udp_new :: "socket_addr \<Rightarrow> ss_udp" where
  "ss_udp_new a = \<lparr>su_sessions = [], su_client = (\<lambda>_. a), su_tasks = Map.empty, su_next_sock = 0\<rparr>"

definition evict_sessions :: "nat \<Rightarrow> (u64 \<times> session_entry) list \<Rightarrow> (u64 \<times> session_entry) list" where
  "evict_sessions instant sessions =
     (if length sessions \<ge> MAX_SESSIONS then
        let kept = filter (\<lambda>(_, e). se_last_used e + UDP_SESSION_IDLE > instant) sessions in
        if length kept \<ge> MAX_SESSIONS * 3 div 4 then
          let by_age = sort_key snd (map (\<lambda>(k, e). (k, se_last_used e)) kept);
              old = map fst (take (MAX_SESSIONS div 4) by_age) in
          filter (\<lambda>(k, _). k \<notin> set old) kept
        else kept
      else sessions)"

definition spawn_reply_task :: "nat \<Rightarrow> bytes \<Rightarrow> server_udp_session \<Rightarrow> nat \<Rightarrow> ss_udp \<Rightarrow> ss_udp" where
  "spawn_reply_task sock psk session instant st =
     st\<lparr>su_tasks := (su_tasks st)(sock \<mapsto>
       \<lparr>rt_psk = psk, rt_session = session, rt_packet_id = 0, rt_deadline = instant + UDP_SESSION_IDLE\<rparr>)\<rparr>"

datatype udp_output = ToUpstream nat socket_addr bytes | ToClient nat socket_addr bytes

fun ss_resolve_udp_dest ::
  "(string \<Rightarrow> ip_addr list res) option \<Rightarrow> (string \<Rightarrow> u16 \<Rightarrow> string + socket_addr list) \<Rightarrow> address \<Rightarrow> socket_addr res" where
  "ss_resolve_udp_dest dns lookup_host (Ipv4 ip p) = Ok (V4 ip, p)"
| "ss_resolve_udp_dest dns lookup_host (Ipv6 ip p) = Ok (V6 ip, p)"
| "ss_resolve_udp_dest (Some resolve) lookup_host (Domain name p) =
     and_then (resolve name) (\<lambda>ips.
     case ips of [] \<Rightarrow> Err (DnsResolutionFailed (name @ '': no records'')) | ip # _ \<Rightarrow> Ok (ip, p))"
| "ss_resolve_udp_dest None lookup_host (Domain name p) =
     (case lookup_host name p of
        Inl e \<Rightarrow> Err (DnsResolutionFailed (name @ '': '' @ e))
      | Inr [] \<Rightarrow> Err (DnsResolutionFailed name)
      | Inr (a # _) \<Rightarrow> Ok a)"

text \<open>The session of a packet: the one in the table, with the client's new address, or a new one
  if a socket can be bound.\<close>

definition touch_session ::
  "ss_crypto \<Rightarrow> bytes \<Rightarrow> nat \<Rightarrow> u64 \<Rightarrow> bool \<Rightarrow> u64 \<Rightarrow> socket_addr \<Rightarrow> ss_udp \<Rightarrow> (nat \<times> ss_udp) option" where
  "touch_session cr psk instant server_session_id bind_ok sid client_addr st =
     (case map_of (su_sessions st) sid of
        Some e \<Rightarrow>
          Some (se_sock e,
            st\<lparr>su_sessions := AList.update sid (e\<lparr>se_last_used := instant\<rparr>) (su_sessions st),
               su_client := (su_client st)(se_sock e := client_addr)\<rparr>)
      | None \<Rightarrow>
          if \<not> bind_ok then None
          else
            let sock = su_next_sock st;
                st = st\<lparr>su_client := (su_client st)(sock := client_addr), su_next_sock := sock + 1\<rparr>;
                st = spawn_reply_task sock psk (server_udp_session_new cr psk server_session_id sid) instant st in
            Some (sock, st\<lparr>su_sessions := AList.update sid \<lparr>se_sock = sock, se_last_used = instant\<rparr> (su_sessions st)\<rparr>))"

definition process_ss2022_packet ::
  "ss_crypto \<Rightarrow> block_cipher \<Rightarrow> ss_auth_state option \<Rightarrow> (address \<Rightarrow> socket_addr res) \<Rightarrow> u64 \<Rightarrow> nat \<Rightarrow> u64 \<Rightarrow> bool
     \<Rightarrow> socket_addr \<Rightarrow> bytes \<Rightarrow> ss_udp \<Rightarrow> udp_output list \<times> ss_udp" where
  "process_ss2022_packet cr bc auth resolve now instant server_session_id bind_ok client_addr buf st =
     (case auth of
        None \<Rightarrow> ([], st)
      | Some auth \<Rightarrow>
          (case decode_client_packet cr bc now buf (ss_psk auth) of
             Ok (sid, _, d, payload) \<Rightarrow>
               if payload = [] then ([], st)
               else
                 let st = st\<lparr>su_sessions := evict_sessions instant (su_sessions st)\<rparr> in
                 (case touch_session cr (ss_psk auth) instant server_session_id bind_ok sid client_addr st of
                    None \<Rightarrow> ([], st)
                  | Some (sock, st) \<Rightarrow>
                      (case resolve d of
                         Ok upstream \<Rightarrow> ([ToUpstream sock upstream payload], st)
                       | _ \<Rightarrow> ([], st)))
           | _ \<Rightarrow> ([], st)))"

text \<open>The reply task: a datagram from upstream, a failed receive, and the idle timer.\<close>

fun reply_dest :: "socket_addr \<Rightarrow> address" where
  "reply_dest (V4 ip, p) = Ipv4 ip p"
| "reply_dest (V6 ip, p) = (if drop_bit 32 ip = 0xFFFF then Ipv4 (ucast ip) p else Ipv6 ip p)"

definition reply_received ::
  "ss_crypto \<Rightarrow> block_cipher \<Rightarrow> u64 \<Rightarrow> nat \<Rightarrow> nat \<Rightarrow> socket_addr \<Rightarrow> bytes \<Rightarrow> ss_udp \<Rightarrow> udp_output list \<times> ss_udp" where
  "reply_received cr bc ts instant sock upstream_src data st =
     (case su_tasks st sock of
        None \<Rightarrow> ([], st)
      | Some t \<Rightarrow>
          let t = t\<lparr>rt_deadline := instant + UDP_SESSION_IDLE\<rparr> in
          if data = [] then ([], st\<lparr>su_tasks := (su_tasks st)(sock \<mapsto> t)\<rparr>)
          else
            let pkt_id = rt_packet_id t;
                st = st\<lparr>su_tasks := (su_tasks st)(sock \<mapsto> t\<lparr>rt_packet_id := pkt_id + 1\<rparr>)\<rparr> in
            (case encode_server_packet_into cr bc ts (rt_psk t) (rt_session t) pkt_id (reply_dest upstream_src) data of
               Ok pkt \<Rightarrow> ([ToClient sock (su_client st sock) pkt], st)
             | _ \<Rightarrow> ([], st)))"

definition reply_failed :: "nat \<Rightarrow> ss_udp \<Rightarrow> ss_udp" where
  "reply_failed sock st = st\<lparr>su_tasks := (su_tasks st)(sock := None)\<rparr>"

definition reply_idle :: "nat \<Rightarrow> nat \<Rightarrow> ss_udp \<Rightarrow> ss_udp" where
  "reply_idle instant sock st =
     (case su_tasks st sock of
        Some t \<Rightarrow> if rt_deadline t \<le> instant then st\<lparr>su_tasks := (su_tasks st)(sock := None)\<rparr> else st
      | None \<Rightarrow> st)"

text \<open>The relay and its tasks, one event at a time.\<close>

datatype udp_event =
    FromUdpClient u64 nat u64 bool socket_addr bytes
  | FromUpstream u64 nat nat socket_addr bytes
  | UpstreamFailed nat
  | IdleTimer nat nat

fun udp_step ::
  "ss_crypto \<Rightarrow> block_cipher \<Rightarrow> ss_auth_state option \<Rightarrow> (address \<Rightarrow> socket_addr res) \<Rightarrow> udp_event \<Rightarrow> ss_udp
     \<Rightarrow> udp_output list \<times> ss_udp" where
  "udp_step cr bc auth resolve (FromUdpClient now instant ssid bind_ok client_addr buf) st =
     process_ss2022_packet cr bc auth resolve now instant ssid bind_ok client_addr buf st"
| "udp_step cr bc auth resolve (FromUpstream ts instant sock src data) st = reply_received cr bc ts instant sock src data st"
| "udp_step cr bc auth resolve (UpstreamFailed sock) st = ([], reply_failed sock st)"
| "udp_step cr bc auth resolve (IdleTimer instant sock) st = ([], reply_idle instant sock st)"

fun udp_run ::
  "ss_crypto \<Rightarrow> block_cipher \<Rightarrow> ss_auth_state option \<Rightarrow> (address \<Rightarrow> socket_addr res) \<Rightarrow> udp_event list \<Rightarrow> ss_udp
     \<Rightarrow> udp_output list \<times> ss_udp" where
  "udp_run cr bc auth resolve [] st = ([], st)"
| "udp_run cr bc auth resolve (e # es) st =
     (case udp_step cr bc auth resolve e st of
        (outs, st) \<Rightarrow> (case udp_run cr bc auth resolve es st of (outs', st) \<Rightarrow> (outs @ outs', st)))"

section \<open>The packet formats\<close>

locale ss_udp_laws = ss_crypto_laws cr for cr :: ss_crypto +
  fixes bc :: block_cipher
  assumes block_length: "length block = 16 \<Longrightarrow> length (bc_encrypt bc key block) = 16"
    and block_inverse: "length block = 16 \<Longrightarrow> bc_decrypt bc key (bc_encrypt bc key block) = block"
begin

lemma separate_header:
  assumes "length plain = 16"
  shows "decrypt_separate_header bc psk (encrypt_separate_header bc psk plain @ rest) = Ok plain"
    "drop SEPARATE_HEADER_LEN (encrypt_separate_header bc psk plain @ rest) = rest"
    "length (encrypt_separate_header bc psk plain) = 16"
  using assms by (simp_all add: decrypt_separate_header_def encrypt_separate_header_def block_length block_inverse SEPARATE_HEADER_LEN_def)

lemma decode_encode_client:
  assumes "wf_address d" "encode_client_packet cr bc ts psk sid pid d payload = Ok pkt" "abs_diff ts now \<le> MAX_TIME_DIFF"
  shows "decode_client_packet cr bc now pkt psk = Ok (sid, pid, d, payload)"
proof -
  from assms(2) obtain e where e: "write_socks5_address [] d = Ok e" by (auto simp: encode_client_packet_def and_then_Ok_iff)
  from socks5_address_roundtrip [OF assms(1) e] obtain atyp data where a: "e = atyp # data"
    "decode_socks5_address (data @ payload) atyp ''SS2022 UDP'' = Ok (d, length data)" by blast
  let ?sep = "to_be 8 sid @ to_be 8 pid"
  let ?plain = "TYPE_CLIENT # to_be 8 ts @ [0, 0] @ atyp # data @ payload"
  have pkt: "pkt = encrypt_separate_header bc psk ?sep @
      aead_encrypt (sc_aead cr) (ss_cipher (derive_session_key cr psk (to_be 8 sid))) (aead_nonce ?sep) ?plain"
    using assms(2) e a(1) by (simp add: encode_client_packet_def Let_def numeral_2_eq_2)
  have z: "from_be [0, 0 :: u8] = (0 :: u16)" using from_be_snoc [of "[0]" 0] by simp
  have len: "length pkt = 16 + (12 + length data + length payload + 16)"
    by (simp add: pkt separate_header encrypt_length TAG_LEN_def)
  have f: "take 8 (drop 1 ?plain) = to_be 8 ts" "take 2 (drop 9 ?plain) = [0, 0]" "?plain ! 11 = atyp"
    "drop 12 ?plain = data @ payload"
    by (simp_all add: nth_append)
  have "drop (12 + length data) ?plain = drop (length data) (drop 12 ?plain)" by (simp only: drop_drop add.commute)
  then have tail: "drop (12 + length data) ?plain = payload" by (simp only: f(4)) simp
  show ?thesis
    unfolding decode_client_packet_def pkt separate_header(1) [of ?sep, simplified]
    using assms(3) a(2) f tail z len [unfolded pkt]
    by (simp add: separate_header(3) Let_def decrypt_encrypt SEPARATE_HEADER_LEN_def TAG_LEN_def not_less encrypt_length)
qed

lemma decode_encode_server:
  assumes "encode_server_packet_into cr bc ts psk s pid d payload = Ok pkt"
    and "us_session_key s = derive_session_key cr psk (to_be 8 (us_server_session_id s))" "write_socks5_address [] d = Ok e"
  shows "decode_server_packet cr bc pkt psk = Ok (TYPE_SERVER # to_be 8 ts @ to_be 8 (us_client_session_id s) @ [0, 0] @ e @ payload)"
proof -
  let ?sep = "to_be 8 (us_server_session_id s) @ to_be 8 pid"
  let ?plain = "TYPE_SERVER # to_be 8 ts @ to_be 8 (us_client_session_id s) @ [0, 0] @ e @ payload"
  have pkt: "pkt = encrypt_separate_header bc psk ?sep @
      aead_encrypt (sc_aead cr) (ss_cipher (derive_session_key cr psk (to_be 8 (us_server_session_id s)))) (aead_nonce ?sep) ?plain"
    using assms by (simp add: encode_server_packet_into_def write_socks5_address_buf [of "_ # _"] socks5_enc_def Let_def numeral_2_eq_2)
  have len: "16 + 16 \<le> length pkt" by (simp add: pkt separate_header encrypt_length TAG_LEN_def)
  show ?thesis
    unfolding decode_server_packet_def pkt separate_header(1) [of ?sep, simplified]
    using len [unfolded pkt] by (simp add: separate_header(3) Let_def decrypt_encrypt SEPARATE_HEADER_LEN_def TAG_LEN_def)
qed

end

text \<open>A block cipher that keeps the block, beside the crypto without secrecy.\<close>

definition demo_block :: block_cipher where
  "demo_block = \<lparr>bc_encrypt = (\<lambda>key block. block), bc_decrypt = (\<lambda>key block. block)\<rparr>"

interpretation demo_udp: ss_udp_laws demo_crypto demo_block
  by unfold_locales (simp_all add: demo_block_def)

section \<open>The session table\<close>

lemma length_alist_update: "length (AList.update k v al) \<le> length al + 1"
  by (induction al) auto

lemma evict_sessions_sub:
  assumes "distinct (map fst ss)"
  shows "distinct (map fst (evict_sessions t ss))" "map_of (evict_sessions t ss) k = Some v \<Longrightarrow> map_of ss k = Some v"
proof -
  have "\<exists>P. evict_sessions t ss = filter P ss"
    unfolding evict_sessions_def Let_def filter_filter
    by (simp split: if_split) (metis filter_True)
  then obtain P where P: "evict_sessions t ss = filter P ss" by blast
  show d: "distinct (map fst (evict_sessions t ss))" unfolding P using assms by (rule distinct_map_filter)
  show "map_of ss k = Some v" if "map_of (evict_sessions t ss) k = Some v" for k v
    using that d assms by (simp add: P)
qed

text \<open>Every session has a socket of its own, and a running reply task carries the keys of its session.\<close>

definition sock_of :: "ss_udp \<Rightarrow> u64 \<Rightarrow> nat option" where
  "sock_of st sid = map_option se_sock (map_of (su_sessions st) sid)"

lemma sock_of_update [simp]:
  "sock_of (st\<lparr>su_tasks := ts\<rparr>) = sock_of st" "sock_of (st\<lparr>su_client := c\<rparr>) = sock_of st"
  "sock_of (st\<lparr>su_next_sock := n\<rparr>) = sock_of st"
  by (simp_all add: sock_of_def fun_eq_iff)

definition udp_inv :: "ss_crypto \<Rightarrow> bytes \<Rightarrow> ss_udp \<Rightarrow> bool" where
  "udp_inv cr psk st \<longleftrightarrow>
     distinct (map fst (su_sessions st)) \<and>
     (\<forall>sid k. sock_of st sid = Some k \<longrightarrow> k < su_next_sock st) \<and>
     (\<forall>sid sid' k. sock_of st sid = Some k \<longrightarrow> sock_of st sid' = Some k \<longrightarrow> sid = sid') \<and>
     (\<forall>k t. su_tasks st k = Some t \<longrightarrow> k < su_next_sock st \<and> rt_psk t = psk \<and>
        us_session_key (rt_session t) = derive_session_key cr psk (to_be 8 (us_server_session_id (rt_session t))) \<and>
        (\<forall>sid. sock_of st sid = Some k \<longrightarrow> us_client_session_id (rt_session t) = sid))"

lemma udp_inv_evict:
  assumes "udp_inv cr psk st"
  shows "udp_inv cr psk (st\<lparr>su_sessions := evict_sessions t (su_sessions st)\<rparr>)"
proof -
  let ?st = "st\<lparr>su_sessions := evict_sessions t (su_sessions st)\<rparr>"
  have d: "distinct (map fst (su_sessions st))" using assms by (simp add: udp_inv_def)
  have "sock_of st sid = Some k" if *: "sock_of ?st sid = Some k" for sid k
  proof -
    obtain e where "map_of (evict_sessions t (su_sessions st)) sid = Some e" "se_sock e = k"
      using * by (auto simp: sock_of_def)
    then show ?thesis using evict_sessions_sub(2) [OF d] by (simp add: sock_of_def)
  qed
  then show ?thesis using assms evict_sessions_sub(1) [OF d, of t] unfolding udp_inv_def by simp blast
qed

lemma touch_session_known:
  assumes "sock_of st sid = Some k"
  obtains st' where "touch_session cr psk instant ssid bind_ok sid addr st = Some (k, st')"
    "sock_of st' = sock_of st" "su_tasks st' = su_tasks st" "su_next_sock st' = su_next_sock st"
    "su_client st' = (su_client st)(k := addr)" "map fst (su_sessions st') = map fst (su_sessions st)"
proof -
  obtain e where e: "map_of (su_sessions st) sid = Some e" "k = se_sock e" using assms by (auto simp: sock_of_def)
  then have "sid \<in> fst ` set (su_sessions st)" by (metis domI dom_map_of_conv_image_fst)
  then show thesis using e
    by (intro that [of "st\<lparr>su_sessions := AList.update sid (e\<lparr>se_last_used := instant\<rparr>) (su_sessions st),
        su_client := (su_client st)(k := addr)\<rparr>"])
      (auto simp: touch_session_def sock_of_def update_conv update_keys fun_eq_iff)
qed

lemma touch_session_new:
  assumes "sock_of st sid = None" "touch_session cr psk instant ssid bind_ok sid addr st = Some (k, st')"
  shows "k = su_next_sock st" "sock_of st' = (sock_of st)(sid \<mapsto> k)" "su_next_sock st' = k + 1"
    "su_client st' = (su_client st)(k := addr)" "map fst (su_sessions st') = map fst (su_sessions st) @ [sid]"
    "su_tasks st' = (su_tasks st)(k \<mapsto> \<lparr>rt_psk = psk, rt_session = server_udp_session_new cr psk ssid sid,
       rt_packet_id = 0, rt_deadline = instant + UDP_SESSION_IDLE\<rparr>)"
proof -
  have n: "map_of (su_sessions st) sid = None" using assms(1) by (simp add: sock_of_def)
  then have "sid \<notin> fst ` set (su_sessions st)" by (simp add: map_of_eq_None_iff)
  then show "k = su_next_sock st" "sock_of st' = (sock_of st)(sid \<mapsto> k)" "su_next_sock st' = k + 1"
    "su_client st' = (su_client st)(k := addr)" "map fst (su_sessions st') = map fst (su_sessions st) @ [sid]"
    "su_tasks st' = (su_tasks st)(k \<mapsto> \<lparr>rt_psk = psk, rt_session = server_udp_session_new cr psk ssid sid,
       rt_packet_id = 0, rt_deadline = instant + UDP_SESSION_IDLE\<rparr>)"
    using n assms(2)
    by (auto simp: touch_session_def sock_of_def update_conv update_keys fun_eq_iff spawn_reply_task_def Let_def split: if_splits)
qed

lemma udp_inv_touch:
  assumes inv: "udp_inv cr psk st" and t: "touch_session cr psk instant ssid bind_ok sid addr st = Some (k, st')"
  shows "udp_inv cr psk st' \<and> su_client st' k = addr \<and> sock_of st' sid = Some k"
proof (cases "sock_of st sid")
  case None
  note new = touch_session_new [OF None t]
  have "sid \<notin> set (map fst (su_sessions st))" using None by (simp add: sock_of_def map_of_eq_None_iff)
  then show ?thesis using inv unfolding udp_inv_def new(2-)
    by (auto simp: server_udp_session_new_def new(1) less_Suc_eq)
next
  case (Some k')
  from touch_session_known [OF Some, of cr psk instant ssid bind_ok addr] t obtain
    "k' = k" "sock_of st' = sock_of st" "su_tasks st' = su_tasks st" "su_next_sock st' = su_next_sock st"
    "su_client st' = (su_client st)(k := addr)" "map fst (su_sessions st') = map fst (su_sessions st)" by auto
  then show ?thesis using inv Some by (simp add: udp_inv_def)
qed

lemma process_ss2022_packet_cases:
  assumes "process_ss2022_packet cr bc (Some auth) resolve now instant ssid bind_ok addr buf st = (outs, st')"
  shows "(outs = [] \<and> (st' = st \<or> st' = st\<lparr>su_sessions := evict_sessions instant (su_sessions st)\<rparr>)) \<or>
    (\<exists>sid k. touch_session cr (ss_psk auth) instant ssid bind_ok sid addr
        (st\<lparr>su_sessions := evict_sessions instant (su_sessions st)\<rparr>) = Some (k, st') \<and>
      (outs = [] \<or> (\<exists>up payload. outs = [ToUpstream k up payload])))"
proof (cases "decode_client_packet cr bc now buf (ss_psk auth)")
  case (Ok x)
  obtain sid pid d payload where x: "x = (sid, pid, d, payload)" by (metis prod_cases4)
  let ?st = "st\<lparr>su_sessions := evict_sessions instant (su_sessions st)\<rparr>"
  show ?thesis
  proof (cases "touch_session cr (ss_psk auth) instant ssid bind_ok sid addr ?st")
    case None
    then show ?thesis using assms Ok x by (auto simp: process_ss2022_packet_def split: if_splits)
  next
    case (Some y)
    obtain k s where "y = (k, s)" by fastforce
    with assms Ok x Some show ?thesis
      by (cases "resolve d") (auto simp: process_ss2022_packet_def split: if_splits)
  qed
qed (use assms in \<open>simp_all add: process_ss2022_packet_def\<close>)

lemma udp_inv_process:
  assumes inv: "udp_inv cr (ss_psk auth) st"
    and run: "process_ss2022_packet cr bc (Some auth) resolve now instant ssid bind_ok addr buf st = (outs, st')"
  shows "udp_inv cr (ss_psk auth) st'"
  using process_ss2022_packet_cases [OF run] inv udp_inv_evict [OF inv, of instant] udp_inv_touch
  by blast

lemma udp_inv_reply: "udp_inv cr psk st \<Longrightarrow> udp_inv cr psk (snd (reply_received cr' bc ts instant k src data st))"
  by (auto simp: reply_received_def udp_inv_def Let_def split: option.splits res.splits)

lemma udp_inv_step:
  assumes "udp_inv cr (ss_psk auth) st" "udp_step cr bc (Some auth) resolve e st = (outs, st')"
  shows "udp_inv cr (ss_psk auth) st'"
proof (cases e)
  case (FromUdpClient now instant ssid bind_ok addr buf)
  then show ?thesis using assms udp_inv_process by simp
next
  case (FromUpstream ts instant k src data)
  then show ?thesis using assms(2) udp_inv_reply [OF assms(1)] by (metis snd_conv udp_step.simps(2))
next
  case (UpstreamFailed k)
  then show ?thesis using assms by (auto simp: reply_failed_def udp_inv_def split: if_splits)
next
  case (IdleTimer t k)
  then show ?thesis using assms by (auto simp: reply_idle_def udp_inv_def split: option.splits if_splits)
qed

lemma udp_inv_run:
  "udp_inv cr (ss_psk auth) st \<Longrightarrow> udp_run cr bc (Some auth) resolve es st = (outs, st') \<Longrightarrow> udp_inv cr (ss_psk auth) st'"
proof (induction es arbitrary: st outs)
  case (Cons e es)
  then show ?case using udp_inv_step [OF Cons.prems(1), of bc resolve e] by (auto split: prod.splits)
qed simp

lemma udp_inv_new: "udp_inv cr psk (ss_udp_new a)"
  by (simp add: udp_inv_def ss_udp_new_def sock_of_def)

text \<open>The answer a running reply task sends.\<close>

lemma reply_address: obtains e where "write_socks5_address [] (reply_dest src) = Ok e"
proof -
  have "is_ok (socks5_enc (reply_dest src))" by (cases src rule: reply_dest.cases) (simp_all add: socks5_enc_Ok_iff)
  then show thesis using that by (auto simp: is_ok_iff socks5_enc_def)
qed

lemma reply_received_sends:
  assumes laws: "ss_udp_laws cr bc" and inv: "udp_inv cr psk st" and "sock_of st sid = Some k" "su_tasks st k = Some t" "data \<noteq> []"
  shows "\<exists>reply e. fst (reply_received cr bc ts instant k src data st) = [ToClient k (su_client st k) reply] \<and>
    write_socks5_address [] (reply_dest src) = Ok e \<and>
    decode_server_packet cr bc reply psk = Ok (TYPE_SERVER # to_be 8 ts @ to_be 8 sid @ [0, 0] @ e @ data)"
proof -
  obtain e where e: "write_socks5_address [] (reply_dest src) = Ok e" by (rule reply_address)
  have t: "rt_psk t = psk" "us_client_session_id (rt_session t) = sid"
    "us_session_key (rt_session t) = derive_session_key cr psk (to_be 8 (us_server_session_id (rt_session t)))"
    using inv assms(3,4) unfolding udp_inv_def by blast+
  obtain reply where r: "encode_server_packet_into cr bc ts psk (rt_session t) (rt_packet_id t) (reply_dest src) data = Ok reply"
    using e by (simp add: encode_server_packet_into_def write_socks5_address_buf [of "_ # _"] socks5_enc_def Let_def)
  show ?thesis
    using assms(4,5) r e t(2) ss_udp_laws.decode_encode_server [OF laws r t(3) e]
    by (simp add: reply_received_def Let_def t(1))
qed


section \<open>A session without its reply task\<close>

definition deaf :: "u64 \<Rightarrow> nat \<Rightarrow> ss_udp \<Rightarrow> bool" where
  "deaf sid k st \<longleftrightarrow> sock_of st sid = Some k \<and> su_tasks st k = None"

lemma process_ss2022_packet_length:
  assumes "process_ss2022_packet cr bc (Some auth) resolve now instant ssid bind_ok addr buf st = (outs, st')"
    and "length (su_sessions st) < MAX_SESSIONS"
  shows "length (su_sessions st') \<le> length (su_sessions st) + 1"
proof -
  have e: "evict_sessions instant (su_sessions st) = su_sessions st" using assms(2) by (simp add: evict_sessions_def)
  have "length (su_sessions s') \<le> length (su_sessions st) + 1"
    if "touch_session cr (ss_psk auth) instant ssid bind_ok sid addr st = Some (k, s')" for sid k s'
    using that length_alist_update
    by (auto simp: touch_session_def Let_def spawn_reply_task_def split: option.splits if_splits)
  then show ?thesis using process_ss2022_packet_cases [OF assms(1)] e by auto
qed

lemma deaf_process:
  assumes "deaf sid k st" "udp_inv cr (ss_psk auth) st" "length (su_sessions st) < MAX_SESSIONS"
    and run: "process_ss2022_packet cr bc (Some auth) resolve now instant ssid bind_ok addr buf st = (outs, st')"
  shows "deaf sid k st' \<and> (\<forall>c pkt. ToClient k c pkt \<notin> set outs)"
proof -
  have e: "evict_sessions instant (su_sessions st) = su_sessions st" using assms(3) by (simp add: evict_sessions_def)
  have k: "k < su_next_sock st" using assms(1,2) by (auto simp: deaf_def udp_inv_def)
  have "deaf sid k s'" if t: "touch_session cr (ss_psk auth) instant ssid bind_ok sid' addr st = Some (k', s')" for sid' k' s'
  proof (cases "sock_of st sid'")
    case None
    then have "sid' \<noteq> sid" using assms(1) by (auto simp: deaf_def)
    then show ?thesis using touch_session_new [OF None t] assms(1) k by (auto simp: deaf_def)
  next
    case (Some k0)
    from touch_session_known [OF Some, of cr "ss_psk auth" instant ssid bind_ok addr] t
    have "sock_of s' = sock_of st" "su_tasks s' = su_tasks st" by auto
    then show ?thesis using assms(1) by (simp add: deaf_def)
  qed
  then show ?thesis using process_ss2022_packet_cases [OF run] assms(1) e by auto
qed

lemma deaf_step:
  assumes "deaf sid k st" "udp_inv cr (ss_psk auth) st" "length (su_sessions st) < MAX_SESSIONS"
    and run: "udp_step cr bc (Some auth) resolve e st = (outs, st')"
  shows "deaf sid k st' \<and> (\<forall>c pkt. ToClient k c pkt \<notin> set outs) \<and> length (su_sessions st') \<le> length (su_sessions st) + 1"
proof (cases e)
  case (FromUdpClient now instant ssid bind_ok addr buf)
  then show ?thesis using deaf_process [OF assms(1-3)] process_ss2022_packet_length [OF _ assms(3)] run by simp
next
  case (FromUpstream ts instant k' src data)
  then show ?thesis using assms(1) run
    by (auto simp: reply_received_def deaf_def Let_def split: option.splits if_splits res.splits)
next
  case (UpstreamFailed k')
  then show ?thesis using assms(1) run by (auto simp: reply_failed_def deaf_def)
next
  case (IdleTimer t k')
  then show ?thesis using assms(1) run by (auto simp: reply_idle_def deaf_def split: option.splits if_splits)
qed

lemma deaf_run:
  assumes "deaf sid k st" "udp_inv cr (ss_psk auth) st" "length (su_sessions st) + length es \<le> MAX_SESSIONS"
    and "udp_run cr bc (Some auth) resolve es st = (outs, st')"
  shows "deaf sid k st' \<and> (\<forall>c pkt. ToClient k c pkt \<notin> set outs)"
  using assms
proof (induction es arbitrary: st outs)
  case (Cons e es)
  obtain o1 s where s: "udp_step cr bc (Some auth) resolve e st = (o1, s)" by fastforce
  with Cons.prems(4) obtain o2 where o2: "udp_run cr bc (Some auth) resolve es s = (o2, st')" "outs = o1 @ o2"
    by (auto split: prod.splits)
  have l: "length (su_sessions st) < MAX_SESSIONS" using Cons.prems(3) by simp
  note step = deaf_step [OF Cons.prems(1,2) l s]
  have "deaf sid k st' \<and> (\<forall>c pkt. ToClient k c pkt \<notin> set o2)"
    using step Cons.prems(3) by (intro Cons.IH [OF _ udp_inv_step [OF Cons.prems(2) s] _ o2(1)]) auto
  then show ?case using step o2(2) by auto
qed simp

text \<open>C39: a Shadowsocks 2022 UDP session stops working after half a minute without a datagram from upstream.  Its reply
  task then ends, but the session stays in the table: every later packet of the client is
  still sent out of the old socket, on which nobody listens, and nothing that arrives there is
  returned, for as long as the table does not fill up.\<close>

theorem ss2022_udp_session_goes_deaf:
  assumes "udp_run cr bc (Some auth) resolve es (ss_udp_new a) = (outs, st)" "sock_of st sid = Some k"
    and "su_tasks st k = Some t" "rt_deadline t \<le> instant"
    and "udp_run cr bc (Some auth) resolve (IdleTimer instant k # es') st = (outs', st')"
    and "length (su_sessions st) + length es' \<le> MAX_SESSIONS"
  shows "sock_of st' sid = Some k \<and> su_tasks st' k = None \<and> (\<forall>c pkt. ToClient k c pkt \<notin> set outs')"
proof -
  have inv: "udp_inv cr (ss_psk auth) st" by (rule udp_inv_run [OF udp_inv_new assms(1)])
  let ?st = "reply_idle instant k st"
  have d: "deaf sid k ?st" "length (su_sessions ?st) = length (su_sessions st)"
    using assms(2-4) by (simp_all add: deaf_def reply_idle_def)
  have inv': "udp_inv cr (ss_psk auth) ?st" using udp_inv_step [OF inv, of bc resolve "IdleTimer instant k"] by simp
  from assms(5) have run: "udp_run cr bc (Some auth) resolve es' ?st = (outs', st')" by (simp split: prod.splits)
  show ?thesis using deaf_run [OF d(1) inv' _ run] d(2) assms(6) by (simp add: deaf_def)
qed

section \<open>An example\<close>

definition demo_auth :: ss_auth_state where
  "demo_auth = \<lparr>ss_psk = [1, 2, 3], ss_user = None\<rparr>"

definition demo_resolve :: "address \<Rightarrow> socket_addr res" where
  "demo_resolve = ss_resolve_udp_dest None (\<lambda>name p. Inl ''no such host'')"

lemma demo_udp_packet:
  obtains pkt where "encode_client_packet demo_crypto demo_block 1000 (ss_psk demo_auth) 5 0 (Ipv4 0x08080808 53) [104] = Ok pkt"
    "decode_client_packet demo_crypto demo_block 1010 pkt (ss_psk demo_auth) = Ok (5, 0, Ipv4 0x08080808 53, [104])"
    "decode_client_packet demo_crypto demo_block 1020 pkt (ss_psk demo_auth) = Ok (5, 0, Ipv4 0x08080808 53, [104])"
proof -
  obtain pkt where p: "encode_client_packet demo_crypto demo_block 1000 (ss_psk demo_auth) 5 0 (Ipv4 0x08080808 53) [104] = Ok pkt"
    by (simp add: encode_client_packet_def Let_def)
  show thesis
    by (rule that [OF p]; rule demo_udp.decode_encode_client [OF _ p]) (simp_all add: abs_diff_def MAX_TIME_DIFF_def)
qed


theorem ss2022_udp_session_goes_deaf_witness:
  "\<exists>pkt st'. udp_run demo_crypto demo_block (Some demo_auth) demo_resolve
       [FromUdpClient 1010 0 7 True (V4 1, 4000) pkt, IdleTimer 30000 0, FromUdpClient 1020 31000 8 True (V4 1, 4000) pkt,
        FromUpstream 1020 31001 0 (V4 0x08080808, 53) [105]] (ss_udp_new (V4 0, 0)) =
     ([ToUpstream 0 (V4 0x08080808, 53) [104], ToUpstream 0 (V4 0x08080808, 53) [104]], st') \<and>
     sock_of st' 5 = Some 0 \<and> su_tasks st' 0 = None"
proof -
  obtain pkt where d: "decode_client_packet demo_crypto demo_block 1010 pkt (ss_psk demo_auth) = Ok (5, 0, Ipv4 0x08080808 53, [104])"
    "decode_client_packet demo_crypto demo_block 1020 pkt (ss_psk demo_auth) = Ok (5, 0, Ipv4 0x08080808 53, [104])"
    using demo_udp_packet by metis
  let ?run = "udp_run demo_crypto demo_block (Some demo_auth) demo_resolve"
  note defs = process_ss2022_packet_def touch_session_def evict_sessions_def ss_udp_new_def spawn_reply_task_def MAX_SESSIONS_def
    demo_resolve_def sock_of_def reply_idle_def reply_received_def UDP_SESSION_IDLE_def Let_def
  obtain st where st: "?run [FromUdpClient 1010 0 7 True (V4 1, 4000) pkt] (ss_udp_new (V4 0, 0)) =
      ([ToUpstream 0 (V4 0x08080808, 53) [104]], st)" "sock_of st 5 = Some 0" "length (su_sessions st) = 1"
      "su_sessions st = [(5, \<lparr>se_sock = 0, se_last_used = 0\<rparr>)]" "\<exists>t. su_tasks st 0 = Some t \<and> rt_deadline t = 30000"
    by (simp add: defs d)
  then obtain t where t: "su_tasks st 0 = Some t" "rt_deadline t \<le> 30000" by auto
  obtain st' where st': "?run [IdleTimer 30000 0, FromUdpClient 1020 31000 8 True (V4 1, 4000) pkt,
        FromUpstream 1020 31001 0 (V4 0x08080808, 53) [105]] st = ([ToUpstream 0 (V4 0x08080808, 53) [104]], st')"
    using st(4) t by (simp add: defs d)
  have "sock_of st' 5 = Some 0 \<and> su_tasks st' 0 = None"
    using ss2022_udp_session_goes_deaf [OF st(1,2) t st'] st(3) by (simp add: MAX_SESSIONS_def)
  moreover have "?run [FromUdpClient 1010 0 7 True (V4 1, 4000) pkt, IdleTimer 30000 0, FromUdpClient 1020 31000 8 True (V4 1, 4000) pkt,
        FromUpstream 1020 31001 0 (V4 0x08080808, 53) [105]] (ss_udp_new (V4 0, 0)) =
     ([ToUpstream 0 (V4 0x08080808, 53) [104], ToUpstream 0 (V4 0x08080808, 53) [104]], st')"
    using st(1) st' by (auto split: prod.splits)
  ultimately show ?thesis by blast
qed

end
