(* ===== verification/Rust_Text.thy ===== *)
theory Rust_Text
  imports BW_Prelude
begin

text \<open>
  Text functions of the Rust standard library that the HTTP parsers use, on UTF-8 bytes: \<^verbatim>\<open>str::lines\<close>,
  \<^verbatim>\<open>str::rsplit_once\<close>, \<^verbatim>\<open>str::splitn\<close>, \<^verbatim>\<open>str::trim_matches\<close>, \<^verbatim>\<open>u16::from_str\<close>, and the parser behind
  \<^verbatim>\<open>Ipv4Addr::from_str\<close> and \<^verbatim>\<open>Ipv6Addr::from_str\<close>.

  The theory shows that the two address parsers read back what is written in dotted and in full
  colon notation.
\<close>

section \<open>Lines and splitting\<close>

fun split_inclusive_lf :: "string \<Rightarrow> string list" where
  "split_inclusive_lf [] = []"
| "split_inclusive_lf (c # cs) =
     (if c = CHR 0x0A then [c] # split_inclusive_lf cs
      else case split_inclusive_lf cs of [] \<Rightarrow> [[c]] | l # ls \<Rightarrow> (c # l) # ls)"

definition strip_line_end :: "string \<Rightarrow> string" where
  "strip_line_end l =
     (if l \<noteq> [] \<and> last l = CHR 0x0A then
        let l = butlast l in if l \<noteq> [] \<and> last l = CHR 0x0D then butlast l else l
      else l)"

definition str_lines :: "string \<Rightarrow> string list" where
  "str_lines s = map strip_line_end (split_inclusive_lf s)"

definition rsplit_once :: "char \<Rightarrow> string \<Rightarrow> (string \<times> string) option" where
  "rsplit_once c s =
     map_option (\<lambda>(after, before). (rev before, rev after)) (split_once c (rev s))"

text \<open>\<^verbatim>\<open>splitn (n, c)\<close>: at most \<open>n\<close> parts.\<close>

fun splitn :: "nat \<Rightarrow> char \<Rightarrow> string \<Rightarrow> string list" where
  "splitn 0 c s = []"
| "splitn (Suc 0) c s = [s]"
| "splitn (Suc (Suc n)) c s =
     (case split_once c s of None \<Rightarrow> [s] | Some (a, b) \<Rightarrow> a # splitn (Suc n) c b)"

definition trim_matches :: "char set \<Rightarrow> string \<Rightarrow> string" where
  "trim_matches cs s = rev (dropWhile (\<lambda>c. c \<in> cs) (rev (dropWhile (\<lambda>c. c \<in> cs) s)))"

definition parse_u16 :: "string \<Rightarrow> u16 option" where
  "parse_u16 s =
     (let ds = (if prefix ''+'' s then tl s else s) in
      if ds = [] then None
      else case parse_digits 0 ds of
             None \<Rightarrow> None
           | Some n \<Rightarrow> if n < 2 ^ 16 then Some (of_nat n) else None)"

section \<open>Addresses\<close>

definition to_digit :: "nat \<Rightarrow> char \<Rightarrow> nat option" where
  "to_digit radix c =
     (let n = of_char c :: nat;
          d = (if 48 \<le> n \<and> n \<le> 57 then n - 48
               else if 97 \<le> n \<and> n \<le> 122 then n - 87
               else if 65 \<le> n \<and> n \<le> 90 then n - 55 else 36) in
      if d < radix then Some d else None)"

fun read_digits :: "nat \<Rightarrow> nat \<Rightarrow> nat \<Rightarrow> nat \<Rightarrow> string \<Rightarrow> (nat \<times> nat \<times> string) option" where
  "read_digits radix max_digits digit_count n [] = Some (digit_count, n, [])"
| "read_digits radix max_digits digit_count n (c # cs) =
     (case to_digit radix c of
        None \<Rightarrow> Some (digit_count, n, c # cs)
      | Some d \<Rightarrow>
          if digit_count + 1 > max_digits then None
          else read_digits radix max_digits (digit_count + 1) (n * radix + d) cs)"

definition read_number :: "nat \<Rightarrow> nat \<Rightarrow> bool \<Rightarrow> nat \<Rightarrow> string \<Rightarrow> (nat \<times> string) option" where
  "read_number radix max_digits allow_zero_prefix limit s =
     (let has_leading_zero = prefix ''0'' s in
      case read_digits radix max_digits 0 0 s of
        None \<Rightarrow> None
      | Some (digit_count, n, rest) \<Rightarrow>
          if digit_count = 0 then None
          else if \<not> allow_zero_prefix \<and> has_leading_zero \<and> digit_count > 1 then None
          else if n < limit then Some (n, rest) else None)"

definition read_separator :: "char \<Rightarrow> nat \<Rightarrow> (string \<Rightarrow> ('a \<times> string) option) \<Rightarrow> string \<Rightarrow> ('a \<times> string) option" where
  "read_separator sep index inner s =
     (if index > 0 then (case s of c # cs \<Rightarrow> if c = sep then inner cs else None | [] \<Rightarrow> None) else inner s)"

fun read_octets :: "nat \<Rightarrow> nat \<Rightarrow> string \<Rightarrow> (bytes \<times> string) option" where
  "read_octets i 0 s = Some ([], s)"
| "read_octets i (Suc n) s =
     (case read_separator (CHR ''.'') i (read_number 10 3 False 256) s of
        None \<Rightarrow> None
      | Some (b, s) \<Rightarrow> map_option (\<lambda>(bs, s). (word_of_nat b # bs, s)) (read_octets (i + 1) n s))"

definition read_ipv4_addr :: "string \<Rightarrow> (u32 \<times> string) option" where
  "read_ipv4_addr s = map_option (\<lambda>(bs, s). (from_be bs, s)) (read_octets 0 4 s)"

fun read_groups :: "nat \<Rightarrow> nat \<Rightarrow> string \<Rightarrow> u16 list \<times> bool \<times> string" where
  "read_groups i 0 s = ([], False, s)"
| "read_groups i (Suc n) s =
     (case (if n > 0 then read_separator (CHR '':'') i read_ipv4_addr s else None) of
        Some (ip, s) \<Rightarrow> ([ucast (drop_bit 16 ip), ucast ip], True, s)
      | None \<Rightarrow>
          (case read_separator (CHR '':'') i (read_number 16 4 True 65536) s of
             None \<Rightarrow> ([], False, s)
           | Some (g, s) \<Rightarrow>
               (case read_groups (i + 1) n s of (gs, v4, s) \<Rightarrow> (word_of_nat g # gs, v4, s))))"

definition ipv6_of_groups :: "u16 list \<Rightarrow> u128" where
  "ipv6_of_groups gs = from_be (concat (map (to_be 2) gs))"

definition read_ipv6_addr :: "string \<Rightarrow> (u128 \<times> string) option" where
  "read_ipv6_addr s =
     (case read_groups 0 8 s of
        (head, head_ipv4, s) \<Rightarrow>
          if length head = 8 then Some (ipv6_of_groups head, s)
          else if head_ipv4 then None
          else if \<not> prefix ''::'' s then None
          else
            (case read_groups 0 (8 - (length head + 1)) (drop 2 s) of
               (tail, _, s) \<Rightarrow>
                 Some (ipv6_of_groups (head @ replicate (8 - length tail - length head) 0 @ tail), s)))"

definition parse_ipv4 :: "string \<Rightarrow> u32 option" where
  "parse_ipv4 s =
     (if length s > 15 then None
      else case read_ipv4_addr s of Some (ip, []) \<Rightarrow> Some ip | _ \<Rightarrow> None)"

definition parse_ipv6 :: "string \<Rightarrow> u128 option" where
  "parse_ipv6 s = (case read_ipv6_addr s of Some (ip, []) \<Rightarrow> Some ip | _ \<Rightarrow> None)"

section \<open>Numbers are read back\<close>

lemma to_digit_digit_char:
  assumes "d < 16"
  shows "to_digit radix (digit_char d) = (if d < radix then Some d else None)"
proof -
  have "d \<in> set [0..<16]" using assms by simp
  then show ?thesis by (auto simp: upt_rec to_digit_def digit_char_def)
qed

definition digits_value :: "nat \<Rightarrow> nat \<Rightarrow> string \<Rightarrow> nat" where
  "digits_value radix a s = foldl (\<lambda>a c. a * radix + the (to_digit radix c)) a s"

lemma read_digits_append:
  assumes "\<forall>c \<in> set ds. to_digit radix c \<noteq> None" "k + length ds \<le> max_digits"
  shows "read_digits radix max_digits k a (ds @ rest) =
    read_digits radix max_digits (k + length ds) (digits_value radix a ds) rest"
  using assms by (induction ds arbitrary: k a) (auto simp: digits_value_def)

lemma read_digits_stop:
  "(\<And>c cs. rest = c # cs \<Longrightarrow> to_digit radix c = None) \<Longrightarrow> read_digits radix m k a rest = Some (k, a, rest)"
  by (cases rest) auto

lemma fmt_radix_less: "n < radix \<Longrightarrow> fmt_radix radix n = [digit_char (n mod 16)]"
  by (simp add: fmt_radix.simps [of radix n])

lemma fmt_radix_ge:
  "2 \<le> radix \<Longrightarrow> radix \<le> n \<Longrightarrow> fmt_radix radix n = fmt_radix radix (n div radix) @ [digit_char (n mod radix)]"
  by (simp add: fmt_radix.simps [of radix n])

lemma digits_value_snoc: "digits_value radix a (s @ [c]) = digits_value radix a s * radix + the (to_digit radix c)"
  by (simp add: digits_value_def)

lemma fmt_radix_digits:
  assumes "2 \<le> radix" "radix \<le> 16"
  shows "(\<forall>c \<in> set (fmt_radix radix n). to_digit radix c \<noteq> None) \<and> digits_value radix 0 (fmt_radix radix n) = n \<and>
    fmt_radix radix n \<noteq> [] \<and> (prefix ''0'' (fmt_radix radix n) \<longrightarrow> n = 0)"
proof (induction n rule: less_induct)
  case (less n)
  show ?case
  proof (cases "n < radix")
    case True
    have "n = 0" if "digit_char n = CHR ''0''"
      using that to_digit_digit_char [of n radix] to_digit_digit_char [of 0 radix] True assms
      by (simp add: digit_char_def)
    then show ?thesis using True assms
      by (auto simp: fmt_radix_less digits_value_def to_digit_digit_char)
  next
    case False
    have "n div radix < n" using False assms(1) by (intro div_less_dividend) auto
    note IH = less.IH [OF this]
    have m: "n mod radix < radix" using assms by simp
    then have m': "n mod radix < 16" using assms(2) by linarith
    have "n div radix \<noteq> 0" using False assms(1) by (simp add: div_eq_0_iff)
    then have "\<not> prefix ''0'' (fmt_radix radix (n div radix) @ [digit_char (n mod radix)])"
      using IH by (cases "fmt_radix radix (n div radix)") auto
    then show ?thesis using IH m m' False assms(1)
      by (simp add: fmt_radix_ge digits_value_snoc to_digit_digit_char)
  qed
qed

lemma fmt_radix_length:
  assumes "2 \<le> radix"
  shows "n < radix ^ Suc k \<Longrightarrow> length (fmt_radix radix n) \<le> Suc k"
proof (induction k arbitrary: n)
  case (Suc k)
  show ?case
  proof (cases "n < radix")
    case False
    have "n div radix < radix ^ Suc k" using Suc.prems assms by (simp add: less_mult_imp_div_less mult.commute)
    then show ?thesis using Suc.IH False assms by (simp add: fmt_radix_ge)
  qed (simp add: fmt_radix_less)
qed (simp add: fmt_radix_less)

lemma read_number_fmt_radix:
  assumes "2 \<le> radix" "radix \<le> 16" "n < radix ^ Suc k" "max_digits = Suc k" "n < limit"
    and "\<And>c cs. rest = c # cs \<Longrightarrow> to_digit radix c = None"
  shows "read_number radix max_digits z limit (fmt_radix radix n @ rest) = Some (n, rest)"
proof -
  have f: "\<forall>c \<in> set (fmt_radix radix n). to_digit radix c \<noteq> None" "digits_value radix 0 (fmt_radix radix n) = n"
    "fmt_radix radix n \<noteq> []" "prefix ''0'' (fmt_radix radix n) \<Longrightarrow> n = 0"
    using fmt_radix_digits [OF assms(1,2), of n] by blast+
  have "read_digits radix max_digits 0 0 (fmt_radix radix n @ rest) = Some (length (fmt_radix radix n), n, rest)"
    using read_digits_append [OF f(1), of 0 max_digits 0 rest] f(2) fmt_radix_length [OF assms(1,3)] assms(4)
      read_digits_stop [OF assms(6)] by simp
  moreover have "length (fmt_radix radix n) = 1" if "prefix ''0'' (fmt_radix radix n @ rest)"
  proof -
    have "prefix ''0'' (fmt_radix radix n)" using that f(3) by (cases "fmt_radix radix n") auto
    then have "n = 0" by (rule f(4))
    then show ?thesis using assms(1) by (simp add: fmt_radix_less)
  qed
  ultimately show ?thesis using f(3) assms(5) by (auto simp: read_number_def)
qed

section \<open>Addresses are read back\<close>

fun join :: "char \<Rightarrow> string list \<Rightarrow> string" where
  "join sep [] = []"
| "join sep [s] = s"
| "join sep (s # t # ss) = s @ sep # join sep (t # ss)"

text \<open>The items after the first, each behind its separator.\<close>

definition behind :: "char \<Rightarrow> string list \<Rightarrow> string" where
  "behind sep ss = concat (map (\<lambda>s. sep # s) ss)"

lemma join_Cons: "join sep (s # ss) = s @ behind sep ss"
  by (induction ss arbitrary: s) (simp_all add: behind_def)

definition dotted :: "bytes \<Rightarrow> string" where
  "dotted bs = join (CHR ''.'') (map (\<lambda>b. fmt_dec (unat b)) bs)"

definition colons :: "u16 list \<Rightarrow> string" where
  "colons gs = join (CHR '':'') (map (\<lambda>g. fmt_radix 16 (unat g)) gs)"

lemma separators_not_digits: "to_digit 10 (CHR ''.'') = None" "to_digit 16 (CHR ''.'') = None" "to_digit 10 (CHR '':'') = None"
    "to_digit 16 (CHR '':'') = None" "to_digit 10 (CHR '']'') = None"
  by (simp_all add: to_digit_def)

lemma behind_head: "behind sep ss @ rest = c # cs \<Longrightarrow> (\<And>c cs. rest = c # cs \<Longrightarrow> to_digit r c = None) \<Longrightarrow>
    to_digit r sep = None \<Longrightarrow> to_digit r c = None"
  by (cases ss) (auto simp: behind_def)

lemma read_octet:
  assumes "\<And>c cs. rest = c # cs \<Longrightarrow> to_digit 10 c = None"
  shows "read_number 10 3 False 256 (fmt_dec (unat (b :: u8)) @ rest) = Some (unat b, rest)"
proof -
  have "unat b < 10 ^ Suc 2" by (rule less_le_trans [OF unat_u8_less]) simp
  then show ?thesis unfolding fmt_dec_def
    by (intro read_number_fmt_radix [where k = 2] assms) auto
qed

lemma read_octets_behind:
  assumes "\<And>c cs. rest = c # cs \<Longrightarrow> to_digit 10 c = None" "0 < i"
  shows "read_octets i (length bs) (behind (CHR ''.'') (map (\<lambda>b. fmt_dec (unat b)) bs) @ rest) = Some (bs, rest)"
  using assms(2)
proof (induction bs arbitrary: i)
  case (Cons b bs)
  let ?t = "behind (CHR ''.'') (map (\<lambda>b. fmt_dec (unat b)) bs) @ rest"
  have "read_number 10 3 False 256 (fmt_dec (unat b) @ ?t) = Some (unat b, ?t)"
    by (rule read_octet) (rule behind_head [OF _ assms(1) separators_not_digits(1)])
  then show ?case using Cons.IH [of "i + 1"] Cons.prems
    by (simp add: behind_def read_separator_def)
qed (simp add: behind_def)

lemma read_ipv4_dotted:
  assumes "\<And>c cs. rest = c # cs \<Longrightarrow> to_digit 10 c = None" "length bs = 4"
  shows "read_ipv4_addr (dotted bs @ rest) = Some (from_be bs, rest)"
proof -
  obtain b bs' where bs: "bs = b # bs'" "length bs' = 3" using assms(2) by (cases bs) auto
  let ?t = "behind (CHR ''.'') (map (\<lambda>b. fmt_dec (unat b)) bs') @ rest"
  have "read_number 10 3 False 256 (fmt_dec (unat b) @ ?t) = Some (unat b, ?t)"
    by (rule read_octet) (rule behind_head [OF _ assms(1) separators_not_digits(1)])
  moreover have "read_octets 1 3 ?t = Some (bs', rest)"
    using read_octets_behind [OF assms(1), where i = 1 and bs = bs'] bs(2) by simp
  ultimately show ?thesis
    by (simp add: read_ipv4_addr_def bs(1) dotted_def join_Cons read_separator_def numeral_eq_Suc)
qed

lemma length_join: "ss \<noteq> [] \<Longrightarrow> \<forall>s \<in> set ss. length s \<le> k \<Longrightarrow> length (join sep ss) \<le> length ss * (k + 1) - 1"
  by (induction sep ss rule: join.induct) (auto simp: algebra_simps)

lemma parse_ipv4_dotted:
  assumes "length bs = 4"
  shows "parse_ipv4 (dotted bs) = Some (from_be bs)"
proof -
  have "length (fmt_dec (unat b)) \<le> 3" for b :: u8
  proof -
    have "unat b < 10 ^ Suc 2" by (rule less_le_trans [OF unat_u8_less]) simp
    from fmt_radix_length [OF _ this] show ?thesis by (simp add: fmt_dec_def)
  qed
  then have "length (dotted bs) \<le> length bs * (3 + 1) - 1"
    unfolding dotted_def using assms by (intro order.trans [OF length_join [where k = 3]]) auto
  then show ?thesis using read_ipv4_dotted [OF _ assms, of "[]"] assms by (simp add: parse_ipv4_def)
qed

lemma read_digits_rest: "read_digits r m k a s = Some (k', a', rest) \<Longrightarrow> set rest \<subseteq> set s"
  by (induction s arbitrary: k a) (auto split: option.splits if_splits)

lemma read_number_rest: "read_number r m z l s = Some (n, rest) \<Longrightarrow> set rest \<subseteq> set s"
  using read_digits_rest by (fastforce simp: read_number_def Let_def split: option.splits if_splits)

text \<open>A text without a dot is not a dotted address.\<close>

lemma read_ipv4_no_dot:
  assumes "CHR ''.'' \<notin> set s"
  shows "read_ipv4_addr s = None"
proof (cases "read_number 10 3 False 256 s")
  case (Some x)
  obtain n rest where x: "x = (n, rest)" by fastforce
  have "CHR ''.'' \<notin> set rest" using read_number_rest Some x assms by blast
  then have "read_separator (CHR ''.'') 1 (read_number 10 3 False 256) rest = None"
    by (auto simp: read_separator_def split: list.splits)
  then show ?thesis using Some x by (simp add: read_ipv4_addr_def read_separator_def numeral_eq_Suc)
qed (simp add: read_ipv4_addr_def read_separator_def numeral_eq_Suc)

lemma parse_ipv4_no_dot: "CHR ''.'' \<notin> set s \<Longrightarrow> parse_ipv4 s = None"
  by (simp add: parse_ipv4_def read_ipv4_no_dot)

lemma hex_digits_no_dot: "CHR ''.'' \<notin> set (fmt_radix 16 n)"
  using fmt_radix_digits [of 16 n] separators_not_digits(2) by auto

lemma behind_no_dot: "CHR ''.'' \<notin> set (behind (CHR '':'') (map (\<lambda>g. fmt_radix 16 (unat (g :: u16))) gs))"
  by (auto simp: behind_def hex_digits_no_dot)

lemma colons_no_dot: "CHR ''.'' \<notin> set (colons gs)"
  by (cases gs) (auto simp: colons_def join_Cons hex_digits_no_dot behind_no_dot)

lemma read_group:
  assumes "\<And>c cs. rest = c # cs \<Longrightarrow> to_digit 16 c = None"
  shows "read_number 16 4 True 65536 (fmt_radix 16 (unat (g :: u16)) @ rest) = Some (unat g, rest)"
proof -
  have "unat g < 16 ^ Suc 3" by (rule less_le_trans [OF unat_u16_less]) simp
  then show ?thesis by (intro read_number_fmt_radix [where k = 3] assms) auto
qed

lemma read_groups_step:
  assumes "read_number 16 4 True 65536 s = Some (unat g, t)" "read_ipv4_addr s = None" "read_groups (i + 1) n t = (gs, v4, u)"
  shows "read_groups i (Suc n) (if 0 < i then CHR '':'' # s else s) = (g # gs, v4, u)"
  using assms by (cases "n = 0"; cases "i = 0") (simp_all add: read_separator_def)

lemma read_groups_text:
  fixes g :: u16 and gs :: "u16 list"
  defines "t \<equiv> behind (CHR '':'') (map (\<lambda>g. fmt_radix 16 (unat g)) gs)"
  assumes "read_groups (i + 1) (length gs) t = (gs, False, [])"
  shows "read_groups i (Suc (length gs)) (if 0 < i then CHR '':'' # fmt_radix 16 (unat g) @ t else fmt_radix 16 (unat g) @ t) =
    (g # gs, False, [])"
proof (rule read_groups_step [OF _ _ assms(2)])
  show "read_number 16 4 True 65536 (fmt_radix 16 (unat g) @ t) = Some (unat g, t)"
    unfolding t_def by (rule read_group) (use behind_head [of _ _ "[]", OF _ _ separators_not_digits(4)] in auto)
  show "read_ipv4_addr (fmt_radix 16 (unat g) @ t) = None"
    unfolding t_def by (rule read_ipv4_no_dot) (simp add: hex_digits_no_dot behind_no_dot)
qed

lemma read_groups_behind:
  assumes "0 < i"
  shows "read_groups i (length gs) (behind (CHR '':'') (map (\<lambda>g. fmt_radix 16 (unat g)) gs)) = (gs, False, [])"
  using assms
proof (induction gs arbitrary: i)
  case (Cons g gs)
  show ?case using read_groups_text [OF Cons.IH, of i g] Cons.prems by (simp add: behind_def del: read_groups.simps)
qed (simp add: behind_def)

lemma parse_ipv6_colons:
  assumes "length gs = 8"
  shows "parse_ipv6 (colons gs) = Some (ipv6_of_groups gs)"
proof -
  obtain g gs' where gs: "gs = g # gs'" using assms by (cases gs) auto
  have "read_groups 0 (Suc (length gs')) (colons gs) = (gs, False, [])"
    using read_groups_text [OF read_groups_behind, of 0 gs' g] by (simp add: gs colons_def join_Cons del: read_groups.simps)
  then have "read_groups 0 8 (colons gs) = (gs, False, [])" using assms gs by (simp del: read_groups.simps)
  then show ?thesis using assms by (simp add: parse_ipv6_def read_ipv6_addr_def)
qed

section \<open>Texts and numbers\<close>

lemma find_char_append: "c \<notin> set a \<Longrightarrow> find_char c (a @ c # b) = Some (length a)"
  by (induction a) auto

lemma split_once_append: "c \<notin> set a \<Longrightarrow> split_once c (a @ c # b) = Some (a, b)"
  by (simp add: split_once_def find_char_append)

lemma rsplit_once_append: "c \<notin> set b \<Longrightarrow> rsplit_once c (a @ c # b) = Some (a, b)"
  using split_once_append [of c "rev b" "rev a"] by (simp add: rsplit_once_def)

lemma trim_matches_around:
  assumes "set xs \<subseteq> cs" "set ys \<subseteq> cs" "s \<noteq> []" "hd s \<notin> cs" "last s \<notin> cs"
  shows "trim_matches cs (xs @ s @ ys) = s"
proof -
  have "dropWhile (\<lambda>c. c \<in> cs) (xs @ s @ ys) = s @ ys"
    using assms(1,3,4) by (cases s) (auto simp: dropWhile_append2 subset_iff)
  moreover have "dropWhile (\<lambda>c. c \<in> cs) (rev ys @ rev s) = rev s"
  proof (cases s rule: rev_cases)
    case (snoc ys' y)
    have "dropWhile (\<lambda>c. c \<in> cs) (rev ys @ rev s) = dropWhile (\<lambda>c. c \<in> cs) (rev s)"
      by (rule dropWhile_append2) (use assms(2) in auto)
    then show ?thesis using snoc assms(5) by simp
  qed (use assms(3) in simp)
  ultimately show ?thesis by (simp add: trim_matches_def)
qed

lemma digit_of_eq: "digit_of c = to_digit 10 c"
  by (auto simp: digit_of_def to_digit_def Let_def)

lemma parse_digits_value: "\<forall>c \<in> set ds. to_digit 10 c \<noteq> None \<Longrightarrow> parse_digits n ds = Some (digits_value 10 n ds)"
  by (induction ds arbitrary: n) (auto simp: digit_of_eq digits_value_def mult.commute)

lemma punctuation_not_digits:
  "to_digit r (CHR ''+'') = None" "to_digit r (CHR '' '') = None" "to_digit r (CHR 0x0A) = None" "to_digit r (CHR 0x0D) = None"
  "to_digit 16 (CHR ''['') = None" "to_digit 16 (CHR '']'') = None" "to_digit 10 (CHR ''['') = None"
  if "r \<le> 16" for r
  using that by (simp_all add: to_digit_def)

lemma parse_u16_fmt_dec: "parse_u16 (fmt_dec (unat (p :: u16))) = Some p"
proof -
  have f: "\<forall>c \<in> set (fmt_dec (unat p)). to_digit 10 c \<noteq> None" "digits_value 10 0 (fmt_dec (unat p)) = unat p"
    "fmt_dec (unat p) \<noteq> []" using fmt_radix_digits [of 10 "unat p"] by (auto simp: fmt_dec_def)
  moreover have "\<not> prefix ''+'' (fmt_dec (unat p))"
    using f(1) punctuation_not_digits(1) [of 10] by (cases "fmt_dec (unat p)") auto
  ultimately show ?thesis by (simp add: parse_u16_def parse_digits_value)
qed

text \<open>The characters of a written number, and of an address.\<close>

lemma fmt_radix_avoids: "2 \<le> r \<Longrightarrow> r \<le> 16 \<Longrightarrow> to_digit r c = None \<Longrightarrow> c \<notin> set (fmt_radix r n)"
  using fmt_radix_digits [of r n] by auto

lemma set_behind: "set (behind sep ss) \<subseteq> insert sep (\<Union>s \<in> set ss. set s)"
  by (auto simp: behind_def)

lemma set_join: "set (join sep ss) \<subseteq> insert sep (\<Union>s \<in> set ss. set s)"
  using set_behind by (cases ss) (fastforce simp: join_Cons)+

lemma join_ends:
  assumes "ss \<noteq> []" "\<forall>s \<in> set ss. s \<noteq> []"
  shows "join sep ss \<noteq> []" "hd (join sep ss) = hd (hd ss)" "last (join sep ss) = last (last ss)"
  using assms by (induction sep ss rule: join.induct) auto

end
