(* ===== verification/Http_Connect.thy ===== *)
theory Http_Connect
  imports Rust_Text Addresses
begin

text \<open>
  The HTTP CONNECT inbound (crates/blackwire-protocol/src/http_connect.rs): reading the header block within its
  bound, parsing the request line, and the handler up to the dispatcher.

  A connection is the list of bytes the client sends; \<open>buffered\<close> is how many bytes after the header block the
  buffered reader has already fetched, which the code passes on as the early payload.

  The theory shows when the handler dispatches and where to, and that a request written for an address reaches that
  address with every byte after the header block.
\<close>

definition MAX_HEADER_BYTES :: nat where "MAX_HEADER_BYTES = 8192"

definition ends_with :: "bytes \<Rightarrow> bytes \<Rightarrow> bool" where
  "ends_with s t = suffix t s"

definition block_complete :: "bytes \<Rightarrow> bool" where
  "block_complete b = (ends_with b (as_bytes [CHR 0x0D, CHR 0x0A, CHR 0x0D, CHR 0x0A]) \<or> ends_with b (as_bytes [CHR 0x0A, CHR 0x0A]))"

fun read_header_loop :: "bytes \<Rightarrow> bytes \<Rightarrow> (bytes \<times> bytes) res" where
  "read_header_loop header_block [] =
     (if length header_block \<ge> MAX_HEADER_BYTES then Err (Protocol ''HTTP CONNECT: headers too large'')
      else Err (Protocol (if header_block = [] then ''HTTP CONNECT: unexpected EOF'' else ''HTTP CONNECT: unexpected EOF in headers'')))"
| "read_header_loop header_block (b # s) =
     (if length header_block \<ge> MAX_HEADER_BYTES then Err (Protocol ''HTTP CONNECT: headers too large'')
      else
        let header_block = header_block @ [b] in
        if block_complete header_block then Ok (header_block, s) else read_header_loop header_block s)"

definition read_bounded_header_block :: "bytes \<Rightarrow> (bytes \<times> bytes) res" where
  "read_bounded_header_block s = read_header_loop [] s"

definition parse_request_line :: "string \<Rightarrow> address res" where
  "parse_request_line line =
     (let parts = splitn 3 (CHR '' '') line;
          verb = (case parts of [] \<Rightarrow> [] | p # _ \<Rightarrow> p) in
      if \<not> eq_ignore_ascii_case verb ''CONNECT''
      then Err (Protocol (''HTTP CONNECT: expected CONNECT method, got '' @ [CHR 0x27] @ verb @ [CHR 0x27]))
      else
        and_then (ok_or (case parts of _ # t # _ \<Rightarrow> Some t | _ \<Rightarrow> None) (Protocol ''HTTP CONNECT: missing target'')) (\<lambda>target.
        and_then (ok_or (rsplit_once (CHR '':'') target) (Protocol ''HTTP CONNECT: malformed target (no port)'')) (\<lambda>(host, port_str).
        and_then (ok_or (parse_u16 port_str)
          (Protocol (''HTTP CONNECT: invalid port '' @ [CHR 0x27] @ port_str @ [CHR 0x27]))) (\<lambda>p.
        let host = trim_matches {CHR ''['', CHR '']''} host in
        if host = [] then Err (Protocol ''HTTP CONNECT: empty host in target'')
        else
          case parse_ipv4 host of
            Some ip4 \<Rightarrow> Ok (Ipv4 ip4 p)
          | None \<Rightarrow>
              (case parse_ipv6 host of
                 Some ip6 \<Rightarrow> Ok (Ipv6 ip6 p)
               | None \<Rightarrow> Ok (Domain host p))))))"

definition parse_connect_request_with_early_payload :: "nat \<Rightarrow> bytes \<Rightarrow> (address \<times> bytes \<times> bytes option) res" where
  "parse_connect_request_with_early_payload buffered s =
     and_then (read_bounded_header_block s) (\<lambda>(header_block, s).
     and_then (ok_or (from_utf8 header_block) (Protocol ''HTTP CONNECT: headers are not valid UTF-8'')) (\<lambda>header_text.
     and_then (ok_or (first_line header_text) (Protocol ''HTTP CONNECT: missing request line'')) (\<lambda>line.
     and_then (parse_request_line (trim line)) (\<lambda>d.
     let early_payload = take buffered s in
     Ok (d, drop buffered s, if early_payload = [] then None else Some early_payload)))))"

definition parse_connect_request :: "nat \<Rightarrow> bytes \<Rightarrow> (address \<times> bytes) res" where
  "parse_connect_request buffered s =
     and_then (parse_connect_request_with_early_payload buffered s) (\<lambda>(d, inner, early_payload).
     Ok (d, case early_payload of Some payload \<Rightarrow> payload @ inner | None \<Rightarrow> inner))"

text \<open>The handler: what is written to the client, and the destination, stream and early payload handed to
  the dispatcher.  \<open>write_ok\<close> tells whether the client takes the response.\<close>

definition CONNECT_RESPONSE :: bytes where
  "CONNECT_RESPONSE = as_bytes (''HTTP/1.1 200 Connection established'' @ [CHR 0x0D, CHR 0x0A, CHR 0x0D, CHR 0x0A])"

definition handle_http_connect :: "nat \<Rightarrow> bool \<Rightarrow> bytes \<Rightarrow> ((address \<times> bytes \<times> bytes option) \<times> bytes) res" where
  "handle_http_connect buffered write_ok s =
     and_then (parse_connect_request_with_early_payload buffered s) (\<lambda>x.
     if write_ok then Ok (x, CONNECT_RESPONSE) else Err (Io BrokenPipe))"

section \<open>The header block\<close>

text \<open>A header block: it ends with an empty line, and no shorter part of it does.\<close>

definition header_block :: "bytes \<Rightarrow> bool" where
  "header_block h \<longleftrightarrow> block_complete h \<and> (\<forall>p. strict_prefix p h \<longrightarrow> \<not> block_complete p)"

lemma read_header_loop_iff:
  assumes "\<forall>p. prefix p acc \<longrightarrow> \<not> block_complete p"
  shows "read_header_loop acc s = Ok (h, rest) \<longleftrightarrow>
    acc @ s = h @ rest \<and> header_block h \<and> length h \<le> MAX_HEADER_BYTES"
  using assms
proof (induction s arbitrary: acc)
  case Nil
  have "\<not> header_block h" if "acc = h @ rest" using Nil that by (auto simp: header_block_def)
  then show ?case by auto
next
  case (Cons b s)
  have no: "\<not> block_complete acc" using Cons.prems by simp
  have longer: "length acc < length h" if "acc @ b # s = h @ rest" "header_block h"
  proof (rule ccontr)
    assume "\<not> length acc < length h"
    then have "prefix h acc" using that(1) by (metis not_less prefixI prefix_length_prefix)
    then show False using Cons.prems that(2) by (auto simp: header_block_def)
  qed
  show ?case
  proof (cases "length acc \<ge> MAX_HEADER_BYTES")
    case True
    then show ?thesis using longer by force
  next
    case short: False
    show ?thesis
    proof (cases "block_complete (acc @ [b])")
      case True
      have hb: "header_block (acc @ [b])"
        using True Cons.prems by (auto simp: header_block_def strict_prefix_def prefix_snoc)
      have "h = acc @ [b] \<and> rest = s" if "acc @ b # s = h @ rest" "header_block h"
      proof -
        have "prefix (acc @ [b]) h"
          using that(1) longer [OF that] by (metis Cons_eq_appendI append_assoc append_Nil prefixI prefix_length_prefix
              length_append_singleton Suc_leI)
        then have "h = acc @ [b]" using that(2) True by (auto simp: header_block_def strict_prefix_def)
        then show ?thesis using that(1) by simp
      qed
      then show ?thesis using True short hb by auto
    next
      case False
      have "\<forall>p. prefix p (acc @ [b]) \<longrightarrow> \<not> block_complete p" using False Cons.prems by (auto simp: prefix_snoc)
      from Cons.IH [OF this] show ?thesis using False short by simp
    qed
  qed
qed

lemma block_not_complete_Nil: "\<not> block_complete []"
  by (simp add: block_complete_def ends_with_def as_bytes_def)

lemma read_bounded_header_block_iff:
  "read_bounded_header_block s = Ok (h, rest) \<longleftrightarrow> s = h @ rest \<and> header_block h \<and> length h \<le> MAX_HEADER_BYTES"
  unfolding read_bounded_header_block_def
  by (subst read_header_loop_iff) (auto simp: block_not_complete_Nil)

section \<open>A request reaches its target\<close>

definition ipv6_groups :: "u128 \<Rightarrow> u16 list" where
  "ipv6_groups ip = map (\<lambda>i. from_be (take 2 (drop (2 * i) (to_be 16 ip)))) [0..<8]"

lemma concat_pairs: "2 * n \<le> length bs \<Longrightarrow> concat (map (\<lambda>i. take 2 (drop (2 * i) bs)) [0..<n]) = take (2 * n) bs"
  by (induction n) (simp_all add: take_add flip: add_2_eq_Suc')

lemma ipv6_of_ipv6_groups: "ipv6_of_groups (ipv6_groups ip) = ip"
proof -
  have "map (to_be 2) (ipv6_groups ip) = map (\<lambda>i. take 2 (drop (2 * i) (to_be 16 ip))) [0..<8]"
    by (auto simp: ipv6_groups_def)
  then have "concat (map (to_be 2) (ipv6_groups ip)) = to_be 16 ip"
    using concat_pairs [of 8 "to_be 16 ip"] by simp
  then show ?thesis by (simp add: ipv6_of_groups_def)
qed

fun host_text :: "address \<Rightarrow> string" where
  "host_text (Ipv4 ip _) = dotted (to_be 4 ip)"
| "host_text (Ipv6 ip _) = ''['' @ colons (ipv6_groups ip) @ '']''"
| "host_text (Domain name _) = name"

definition target_text :: "address \<Rightarrow> string" where
  "target_text d = host_text d @ CHR '':'' # fmt_dec (unat (port d))"

text \<open>A name that can stand in a request line: it is not empty, has no blank and no line end, no bracket at its ends,
  and is not an address.\<close>

fun host_ok :: "address \<Rightarrow> bool" where
  "host_ok (Domain name _) \<longleftrightarrow> name \<noteq> [] \<and> set name \<inter> {CHR '' '', CHR 0x0A} = {} \<and>
     hd name \<notin> {CHR ''['', CHR '']''} \<and> last name \<notin> {CHR ''['', CHR '']''} \<and> parse_ipv4 name = None \<and> parse_ipv6 name = None"
| "host_ok _ = True"

definition connect_line :: "address \<Rightarrow> string" where
  "connect_line d = ''CONNECT'' @ CHR '' '' # target_text d @ CHR '' '' # ''HTTP/1.1''"

lemma fmt_nonempty: "fmt_radix 16 n \<noteq> []" "fmt_dec n \<noteq> []"
  using fmt_radix_digits [of 16 n] fmt_radix_digits [of 10 n] by (auto simp: fmt_dec_def)

lemma dotted_chars:
  assumes "bs \<noteq> []" "to_digit 10 c = None"
  shows "c \<noteq> CHR ''.'' \<Longrightarrow> c \<notin> set (dotted bs)" "dotted bs \<noteq> []" "hd (dotted bs) \<noteq> c" "last (dotted bs) \<noteq> c"
proof -
  have d: "c \<notin> set (fmt_dec n)" for n using fmt_radix_avoids [of 10 c] assms(2) by (simp add: fmt_dec_def)
  show "c \<noteq> CHR ''.'' \<Longrightarrow> c \<notin> set (dotted bs)" using d set_join unfolding dotted_def by fastforce
  have n: "map (\<lambda>b. fmt_dec (unat b)) bs \<noteq> []" "\<forall>s \<in> set (map (\<lambda>b. fmt_dec (unat b)) bs). s \<noteq> []"
    using assms(1) fmt_nonempty by auto
  show "dotted bs \<noteq> []" "hd (dotted bs) \<noteq> c" "last (dotted bs) \<noteq> c"
    using join_ends [OF n, of "CHR ''.''"] d assms(1) fmt_nonempty(2) unfolding dotted_def
    by (auto simp: hd_map last_map) (metis hd_in_set last_in_set)+
qed

lemma colons_chars:
  assumes "gs \<noteq> []" "to_digit 16 c = None"
  shows "c \<noteq> CHR '':'' \<Longrightarrow> c \<notin> set (colons gs)" "colons gs \<noteq> []" "hd (colons gs) \<noteq> c" "last (colons gs) \<noteq> c"
proof -
  have d: "c \<notin> set (fmt_radix 16 n)" for n using fmt_radix_avoids [of 16 c] assms(2) by simp
  show "c \<noteq> CHR '':'' \<Longrightarrow> c \<notin> set (colons gs)" using d set_join unfolding colons_def by fastforce
  have n: "map (\<lambda>g. fmt_radix 16 (unat g)) gs \<noteq> []" "\<forall>s \<in> set (map (\<lambda>g. fmt_radix 16 (unat g)) gs). s \<noteq> []"
    using assms(1) fmt_nonempty by auto
  show "colons gs \<noteq> []" "hd (colons gs) \<noteq> c" "last (colons gs) \<noteq> c"
    using join_ends [OF n, of "CHR '':''"] d assms(1) fmt_nonempty(1) unfolding colons_def
    by (auto simp: hd_map last_map) (metis hd_in_set last_in_set)+
qed

lemma host_text_parsed:
  assumes "host_ok d"
  shows "trim_matches {CHR ''['', CHR '']''} (host_text d) \<noteq> []" (is "?h \<noteq> []")
    "(case parse_ipv4 (trim_matches {CHR ''['', CHR '']''} (host_text d)) of
        Some ip4 \<Rightarrow> Ok (Ipv4 ip4 (port d))
      | None \<Rightarrow>
          (case parse_ipv6 (trim_matches {CHR ''['', CHR '']''} (host_text d)) of
             Some ip6 \<Rightarrow> Ok (Ipv6 ip6 (port d))
           | None \<Rightarrow> Ok (Domain (trim_matches {CHR ''['', CHR '']''} (host_text d)) (port d)))) = Ok d"
proof -
  have "?h \<noteq> [] \<and> (case parse_ipv4 ?h of Some ip4 \<Rightarrow> Ok (Ipv4 ip4 (port d))
      | None \<Rightarrow> (case parse_ipv6 ?h of Some ip6 \<Rightarrow> Ok (Ipv6 ip6 (port d)) | None \<Rightarrow> Ok (Domain ?h (port d)))) = Ok d"
  proof (cases d)
    case (Ipv4 ip p)
    have b: "to_digit 10 (CHR ''['') = None" "to_digit 10 (CHR '']'') = None" by (simp_all add: to_digit_def)
    have ne: "to_be 4 ip \<noteq> []" by (metis length_to_be list.size(3) zero_neq_numeral)
    have "?h = dotted (to_be 4 ip)"
      using trim_matches_around [of "[]" "{CHR ''['', CHR '']''}" "[]" "dotted (to_be 4 ip)"]
        dotted_chars(2-4) [OF ne b(1)] dotted_chars(3,4) [OF ne b(2)] Ipv4 by simp
    then show ?thesis using Ipv4 dotted_chars(2) [OF ne b(1)] parse_ipv4_dotted [of "to_be 4 ip"] by simp
  next
    case (Ipv6 ip p)
    have b: "to_digit 16 (CHR ''['') = None" "to_digit 16 (CHR '']'') = None" by (simp_all add: to_digit_def)
    have ne: "ipv6_groups ip \<noteq> []" "length (ipv6_groups ip) = 8" by (simp_all add: ipv6_groups_def)
    have "?h = colons (ipv6_groups ip)"
      using trim_matches_around [of "''[''" "{CHR ''['', CHR '']''}" "'']''" "colons (ipv6_groups ip)"]
        colons_chars(2-4) [OF ne(1) b(1)] colons_chars(3,4) [OF ne(1) b(2)] Ipv6 by simp
    then show ?thesis
      using Ipv6 colons_chars(2) [OF ne(1) b(1)] parse_ipv4_no_dot [OF colons_no_dot] parse_ipv6_colons [OF ne(2)]
      by (simp add: ipv6_of_ipv6_groups)
  next
    case (Domain name p)
    then have "?h = name" using assms trim_matches_around [of "[]" "{CHR ''['', CHR '']''}" "[]" name] by simp
    then show ?thesis using Domain assms by simp
  qed
  then show "?h \<noteq> []" "(case parse_ipv4 ?h of Some ip4 \<Rightarrow> Ok (Ipv4 ip4 (port d))
      | None \<Rightarrow> (case parse_ipv6 ?h of Some ip6 \<Rightarrow> Ok (Ipv6 ip6 (port d)) | None \<Rightarrow> Ok (Domain ?h (port d)))) = Ok d" by blast+
qed

lemma target_text_chars:
  assumes "host_ok d" "c \<in> {CHR '' '', CHR 0x0A}"
  shows "c \<notin> set (target_text d)"
proof -
  have b: "to_digit 10 c = None" "to_digit 16 c = None" "c \<noteq> CHR '':''" "c \<noteq> CHR ''.''" "c \<noteq> CHR ''[''" "c \<noteq> CHR '']''"
    using assms(2) by (auto simp: to_digit_def)
  have "c \<notin> set (host_text d)"
  proof (cases d)
    case (Ipv4 ip p)
    have "to_be 4 ip \<noteq> []" by (metis length_to_be list.size(3) zero_neq_numeral)
    then show ?thesis using Ipv4 dotted_chars(1) b by simp
  next
    case (Ipv6 ip p)
    have "ipv6_groups ip \<noteq> []" by (simp add: ipv6_groups_def)
    then show ?thesis using Ipv6 colons_chars(1) b by simp
  qed (use assms in auto)
  then show ?thesis using fmt_radix_avoids [of 10 c] b by (simp add: target_text_def fmt_dec_def)
qed

lemma parse_connect_line:
  assumes "host_ok d"
  shows "parse_request_line (connect_line d) = Ok d"
proof -
  have s: "split_once (CHR '' '') (connect_line d) = Some (''CONNECT'', target_text d @ CHR '' '' # ''HTTP/1.1'')"
    unfolding connect_line_def by (rule split_once_append) simp
  have t: "split_once (CHR '' '') (target_text d @ CHR '' '' # ''HTTP/1.1'') = Some (target_text d, ''HTTP/1.1'')"
    by (rule split_once_append) (rule target_text_chars [OF assms], simp)
  have "CHR '':'' \<notin> set (fmt_dec (unat (port d)))"
    using fmt_radix_avoids [of 10 "CHR '':''"] by (simp add: fmt_dec_def separators_not_digits)
  then have r: "rsplit_once (CHR '':'') (target_text d) = Some (host_text d, fmt_dec (unat (port d)))"
    unfolding target_text_def by (rule rsplit_once_append)
  have three: "splitn 3 (CHR '' '') (connect_line d) = [''CONNECT'', target_text d, ''HTTP/1.1'']"
    using s t by (simp add: numeral_3_eq_3)
  show ?thesis
    unfolding parse_request_line_def three
    using host_text_parsed [OF assms] by (simp add: r parse_u16_fmt_dec Let_def eq_ignore_ascii_case_def)
qed

lemma strip_any_none: "find (\<lambda>w. w \<noteq> [] \<and> prefix w s) ws = None \<Longrightarrow> strip_any ws s = s"
  by (simp add: strip_any.simps [of ws s])

lemma trim_connect_line: "trim (connect_line d) = connect_line d"
proof -
  have "find (\<lambda>w. w \<noteq> [] \<and> prefix w (CHR ''C'' # t)) white_space = None" for t by (simp add: white_space_def)
  then have a: "strip_any white_space (connect_line d) = connect_line d"
    by (intro strip_any_none) (simp add: connect_line_def)
  have b: "find (\<lambda>w. w \<noteq> [] \<and> prefix w (CHR ''1'' # t)) (map rev white_space) = None" for t by (simp add: white_space_def)
  have "rev (connect_line d) = CHR ''1'' # rev (''CONNECT'' @ CHR '' '' # target_text d @ CHR '' '' # ''HTTP/1.'')"
    by (simp add: connect_line_def)
  then have "strip_any (map rev white_space) (rev (connect_line d)) = rev (connect_line d)"
    using b by (intro strip_any_none) simp
  then show ?thesis by (simp add: trim_def a)
qed

lemma first_line_crlf:
  assumes "CHR 0x0A \<notin> set l"
  shows "first_line (l @ [CHR 0x0D, CHR 0x0A] @ headers) = Some l"
proof -
  have "takeWhile (\<lambda>c. c \<noteq> CHR 0x0A) (l @ [CHR 0x0D, CHR 0x0A] @ headers) = l @ [CHR 0x0D]"
    using assms by (auto simp: takeWhile_append)
  then show ?thesis by (simp add: first_line_def)
qed

lemma first_line_connect:
  assumes "host_ok d"
  shows "first_line (connect_line d @ [CHR 0x0D, CHR 0x0A] @ headers) = Some (connect_line d)"
  by (rule first_line_crlf) (use target_text_chars [OF assms] in \<open>simp add: connect_line_def\<close>)

lemma handle_connect_request:
  assumes "host_ok d" "req = connect_line d @ [CHR 0x0D, CHR 0x0A] @ headers"
    and "rust_string req" "header_block (as_bytes req)" "length req \<le> MAX_HEADER_BYTES"
  shows "handle_http_connect buffered True (as_bytes req @ data) =
    Ok ((d, drop buffered data, if take buffered data = [] then None else Some (take buffered data)), CONNECT_RESPONSE)"
proof -
  have "read_bounded_header_block (as_bytes req @ data) = Ok (as_bytes req, data)"
    using assms(4,5) by (simp add: read_bounded_header_block_iff)
  moreover have "first_line req = Some (connect_line d)" using first_line_connect [OF assms(1)] assms(2) by simp
  ultimately show ?thesis
    using assms(3) parse_connect_line [OF assms(1)]
    by (simp add: handle_http_connect_def parse_connect_request_with_early_payload_def trim_connect_line Let_def)
qed

text \<open>C19: a CONNECT request written for an address, with whatever headers, is dispatched to exactly that
  address, IPv4, IPv6 or name; the client is told that the tunnel stands; and early payload and
  remaining stream together are exactly the bytes after the header block, however much of them the buffered reader has
  already fetched.\<close>

theorem http_connect_reaches_target:
  assumes "host_ok d" "req = connect_line d @ [CHR 0x0D, CHR 0x0A] @ headers"
    and "rust_string req" "header_block (as_bytes req)" "length req \<le> MAX_HEADER_BYTES"
  shows "\<exists>inner early. handle_http_connect buffered True (as_bytes req @ data) = Ok ((d, inner, early), CONNECT_RESPONSE) \<and>
    (case early of None \<Rightarrow> [] | Some payload \<Rightarrow> payload) @ inner = data"
  using handle_connect_request [OF assms, of buffered data] by simp

text \<open>Conversely, nothing is dispatched unless a complete header block of at most eight kilobytes with a parsable request
  line stands at the front of the stream.\<close>

lemma http_connect_dispatches_only:
  assumes "handle_http_connect buffered write_ok s = Ok ((d, inner, early), out)"
  obtains h header_text line rest where "s = h @ rest" "header_block h" "length h \<le> MAX_HEADER_BYTES" "from_utf8 h = Some header_text"
    "first_line header_text = Some line" "parse_request_line (trim line) = Ok d" "(case early of None \<Rightarrow> [] | Some p \<Rightarrow> p) @ inner = rest"
  using assms
  by (auto simp: handle_http_connect_def parse_connect_request_with_early_payload_def and_then_Ok_iff ok_or_Ok_iff
      read_bounded_header_block_iff Let_def split: if_splits intro: that)

text \<open>A request line alone, with the empty line behind it, is a header block.\<close>

lemma block_complete_lines: "block_complete p \<Longrightarrow> 2 \<le> count_list p (byte_of_char (CHR 0x0A))"
  by (auto simp: block_complete_def ends_with_def suffix_def as_bytes_def)

lemma header_block_line:
  assumes "CHR 0x0A \<notin> set l"
  shows "header_block (as_bytes (l @ [CHR 0x0D, CHR 0x0A] @ [CHR 0x0D, CHR 0x0A]))"
proof -
  let ?h = "as_bytes (l @ [CHR 0x0D, CHR 0x0A, CHR 0x0D, CHR 0x0A])"
  let ?b = "as_bytes (l @ [CHR 0x0D, CHR 0x0A, CHR 0x0D])"
  have "byte_of_char (CHR 0x0A) \<notin> set (as_bytes l)"
    using assms by (auto simp: as_bytes_def) (metis char_of_byte_of_char)
  then have c: "count_list ?b (byte_of_char (CHR 0x0A)) = 1"
    by (simp add: as_bytes_def byte_of_char_def)
  have h: "?h = ?b @ [byte_of_char (CHR 0x0A)]" by (simp add: as_bytes_def)
  have "\<not> block_complete p" if "strict_prefix p ?h" for p
  proof
    assume "block_complete p"
    from that obtain q where "?b = p @ q" unfolding h strict_prefix_def prefix_snoc by (auto simp: prefix_def)
    with c have "count_list p (byte_of_char (CHR 0x0A)) \<le> 1" by simp
    with block_complete_lines [OF \<open>block_complete p\<close>] show False by simp
  qed
  moreover have "block_complete ?h" by (auto simp: block_complete_def ends_with_def suffix_def as_bytes_def)
  ultimately show ?thesis by (simp add: header_block_def)
qed

lemma demo_host: "parse_ipv4 ''www.org'' = None" "parse_ipv6 ''www.org'' = None"
proof -
  have n: "read_number r m z l ''www.org'' = None" if "r \<le> 16" for r m z l
    using that by (simp add: read_number_def to_digit_def)
  have o: "read_ipv4_addr ''www.org'' = None"
    using read_octets.simps(2) [of 0 3 "''www.org''"] by (simp add: read_ipv4_addr_def read_separator_def n)
  then show "parse_ipv4 ''www.org'' = None" by (simp add: parse_ipv4_def)
  have "read_groups 0 8 ''www.org'' = ([], False, ''www.org'')"
    using read_groups.simps(2) [of 0 7 "''www.org''"] by (simp add: read_separator_def n o)
  then show "parse_ipv6 ''www.org'' = None" by (simp add: parse_ipv6_def read_ipv6_addr_def)
qed

theorem http_connect_reaches_target_witness:
  "\<exists>inner early. handle_http_connect 3 True
      (as_bytes (connect_line (Domain ''www.org'' 443) @ [CHR 0x0D, CHR 0x0A] @ [CHR 0x0D, CHR 0x0A]) @ [22, 3, 1, 0]) =
      Ok ((Domain ''www.org'' 443, inner, early), CONNECT_RESPONSE) \<and>
    (case early of None \<Rightarrow> [] | Some payload \<Rightarrow> payload) @ inner = [22, 3, 1, 0]"
proof (rule http_connect_reaches_target [OF _ refl])
  show "host_ok (Domain ''www.org'' 443)" by (simp add: demo_host)
  show "rust_string (connect_line (Domain ''www.org'' 443) @ [CHR 0x0D, CHR 0x0A] @ [CHR 0x0D, CHR 0x0A])" by code_simp
  show "length (connect_line (Domain ''www.org'' 443) @ [CHR 0x0D, CHR 0x0A] @ [CHR 0x0D, CHR 0x0A]) \<le> MAX_HEADER_BYTES" by code_simp
  show "header_block (as_bytes (connect_line (Domain ''www.org'' 443) @ [CHR 0x0D, CHR 0x0A] @ [CHR 0x0D, CHR 0x0A]))"
    by (rule header_block_line) code_simp
qed

end
