(* ===== verification/Sniff.thy ===== *)
theory Sniff
  imports Rust_Text Fakeip
begin

text \<open>
  Traffic sniffing (crates/blackwire-app/src/sniff.rs) and its use at the start of a dispatch
  (\<^verbatim>\<open>dispatch_with_early_payload\<close> in crates/blackwire-app/src/dispatcher.rs).

  A stream is the list of bytes the client sends; \<open>peek_event\<close> says how the single timed read ends.  Every index of
  the ClientHello parser is checked, so that an access out of range would be \<open>Panic\<close>.

  The theory shows that sniffing never panics and never changes the stream or the port, and that
  the server name of a ClientHello becomes the destination as soon as the peeked bytes reach its end.
\<close>

section \<open>Results and configuration\<close>

definition MAX_SNIFF :: nat where "MAX_SNIFF = 8192"

record sniffing_config =
  sf_enabled :: bool
  sf_dest_override :: "string list"
  sf_metadata_only :: bool
  sf_route_only :: bool

record sniff_result =
  sr_protocol :: "string option"
  sr_domain :: "string option"

definition no_sniff :: sniff_result where
  "no_sniff = \<lparr>sr_protocol = None, sr_domain = None\<rparr>"

section \<open>The recognisers\<close>

definition be16_of :: "bytes \<Rightarrow> nat \<Rightarrow> nat res" where
  "be16_of data pos =
     and_then (idx data pos) (\<lambda>a. and_then (idx data (pos + 1)) (\<lambda>b. Ok (unat (from_be [a, b] :: u16))))"

function sni_loop :: "bytes \<Rightarrow> nat \<Rightarrow> nat \<Rightarrow> string option res" where
  "sni_loop data e pos =
     (if pos + 4 \<le> min e (length data) then
        and_then (be16_of data pos) (\<lambda>etype.
        and_then (be16_of data (pos + 2)) (\<lambda>elen.
        if pos + 4 + elen > length data then Ok None
        else
          and_then (if etype = 0 \<and> elen > 5 then and_then (idx data (pos + 4 + 2)) (\<lambda>t. Ok (t = 0)) else Ok False) (\<lambda>is_sni.
          if is_sni then
            and_then (be16_of data (pos + 4 + 3)) (\<lambda>name_len.
            if pos + 4 + 5 + name_len \<le> length data
            then and_then (slice data (pos + 4 + 5) (pos + 4 + 5 + name_len)) (\<lambda>name. Ok (from_utf8 name))
            else sni_loop data e (pos + 4 + elen))
          else sni_loop data e (pos + 4 + elen))))
      else Ok None)"
  by pat_completeness auto
termination
  by (relation "measure (\<lambda>(data, e, pos). length data - pos)") auto

declare sni_loop.simps [simp del]

definition tls_sni :: "bytes \<Rightarrow> string option res" where
  "tls_sni data =
     (if length data < 5 then Ok None
      else
        and_then (idx data 0) (\<lambda>b.
        if b \<noteq> 0x16 then Ok None
        else
          let pos = 5 in
          if pos \<ge> length data then Ok None
          else
            and_then (idx data pos) (\<lambda>b.
            if b \<noteq> 0x01 then Ok None
            else
              let pos = pos + 4 + (2 + 32) in
              if pos \<ge> length data then Ok None
              else
                and_then (idx data pos) (\<lambda>sess_len.
                let pos = pos + (1 + unat sess_len) in
                if pos + 2 > length data then Ok None
                else
                  and_then (be16_of data pos) (\<lambda>suites_len.
                  let pos = pos + (2 + suites_len) in
                  if pos \<ge> length data then Ok None
                  else
                    and_then (idx data pos) (\<lambda>comp_len.
                    let pos = pos + (1 + unat comp_len) in
                    if pos + 2 > length data then Ok None
                    else
                      and_then (be16_of data pos) (\<lambda>ext_len.
                      sni_loop data (pos + 2 + ext_len) (pos + 2))))))))"

fun host_in_lines :: "string list \<Rightarrow> string option" where
  "host_in_lines [] = None"
| "host_in_lines (line # lines) =
     (if line = [] then None
      else
        case strip_prefix ''host:'' (map ascii_lower line) of
          None \<Rightarrow> host_in_lines lines
        | Some rest \<Rightarrow>
            let host = takeWhile (\<lambda>c. c \<noteq> CHR '':'') (trim rest) in
            if host \<noteq> [] then Some host else host_in_lines lines)"

definition http_host :: "bytes \<Rightarrow> string option" where
  "http_host data =
     (case from_utf8 data of
        None \<Rightarrow> None
      | Some header_text \<Rightarrow>
          (case str_lines header_text of
             [] \<Rightarrow> None
           | first # lines \<Rightarrow>
               if \<not> prefix ''GET '' first \<and> \<not> prefix ''POST '' first \<and> \<not> prefix ''PUT '' first \<and>
                  \<not> prefix ''HEAD '' first \<and> \<not> prefix ''CONNECT '' first
               then None
               else host_in_lines lines))"

definition analyze_peek :: "bytes \<Rightarrow> sniffing_config \<Rightarrow> sniff_result res" where
  "analyze_peek peek config =
     (let want_http = ''http'' \<in> set (sf_dest_override config);
          want_tls = ''tls'' \<in> set (sf_dest_override config) in
      and_then (if want_tls then tls_sni peek else Ok None) (\<lambda>sni.
      case sni of
        Some domain \<Rightarrow> Ok \<lparr>sr_protocol = Some ''tls'', sr_domain = Some domain\<rparr>
      | None \<Rightarrow>
          (case (if want_http then http_host peek else None) of
             Some host \<Rightarrow> Ok \<lparr>sr_protocol = Some ''http'', sr_domain = Some host\<rparr>
           | None \<Rightarrow> Ok no_sniff)))"

section \<open>Sniffing a stream\<close>

datatype peek_event = PeekBytes nat | PeekFailed io_kind | PeekTimeout

definition sniff_stream :: "sniffing_config \<Rightarrow> peek_event \<Rightarrow> bytes \<Rightarrow> (bytes \<times> sniff_result) res" where
  "sniff_stream config read stream =
     (if \<not> sf_enabled config \<or> sf_metadata_only config then Ok (stream, no_sniff)
      else
        and_then (case read of PeekBytes n \<Rightarrow> Ok (min n MAX_SNIFF) | PeekFailed e \<Rightarrow> Err (Io e) | PeekTimeout \<Rightarrow> Ok 0) (\<lambda>n.
        let peek = take n stream;
            stream = drop n stream in
        if peek = [] then Ok (stream, no_sniff)
        else
          and_then (analyze_peek peek config) (\<lambda>result.
          Ok (peek @ stream, result))))"

definition apply_dest_override :: "address \<Rightarrow> sniff_result \<Rightarrow> sniffing_config \<Rightarrow> address" where
  "apply_dest_override d sniff config =
     (if \<not> sf_enabled config \<or> sf_route_only config then d
      else
        case sr_domain sniff of
          None \<Rightarrow> d
        | Some domain \<Rightarrow>
            if is_domain d then d
            else if \<exists>p \<in> set (sf_dest_override config). p = ''http'' \<or> p = ''tls'' \<or> p = ''fakedns''
            then Domain domain (port d) else d)"

definition sniff_fakedns :: "address \<Rightarrow> ('net, 'l) fakeip_pool option \<Rightarrow> sniff_result" where
  "sniff_fakedns d dns =
     (case d of
        Ipv4 ip _ \<Rightarrow>
          (case reverse_fake ip dns of
             None \<Rightarrow> no_sniff
           | Some domain \<Rightarrow> \<lparr>sr_protocol = Some ''fakedns'', sr_domain = Some domain\<rparr>)
      | _ \<Rightarrow> no_sniff)"

text \<open>The first part of \<^verbatim>\<open>dispatch_with_early_payload\<close>: the destination and stream with which the dispatch goes on,
  and what the routing context learns.\<close>

definition sniff_inbound ::
  "sniffing_config option \<Rightarrow> ('net, 'l) fakeip_pool option option \<Rightarrow> peek_event \<Rightarrow> address \<Rightarrow> bytes \<Rightarrow> bytes option
     \<Rightarrow> (address \<times> bytes \<times> sniff_result option) res" where
  "sniff_inbound sniff_cfg dns read d inbound_stream early_payload =
     (case sniff_cfg of
        None \<Rightarrow> Ok (d, inbound_stream, None)
      | Some cfg \<Rightarrow>
          if \<not> sf_enabled cfg then Ok (d, inbound_stream, None)
          else
            and_then
              (case early_payload of
                 Some payload \<Rightarrow>
                   if payload \<noteq> [] \<and> \<not> sf_metadata_only cfg
                   then and_then (analyze_peek payload cfg) (\<lambda>sniff. Ok (inbound_stream, sniff))
                   else sniff_stream cfg read inbound_stream
               | None \<Rightarrow> sniff_stream cfg read inbound_stream) (\<lambda>(inbound_stream, sniff).
            let sniff =
              (if sr_domain sniff = None \<and> ''fakedns'' \<in> set (sf_dest_override cfg)
               then (case dns of Some pool \<Rightarrow> sniff_fakedns d pool | None \<Rightarrow> sniff) else sniff) in
            Ok (apply_dest_override d sniff cfg, inbound_stream, Some sniff)))"

section \<open>No access out of range\<close>

lemma be16_of_in: "pos + 1 < length data \<Longrightarrow> be16_of data pos = Ok (unat (from_be [data ! pos, data ! (pos + 1)] :: u16))"
  by (simp add: be16_of_def)

lemma sni_loop_total: "\<exists>r. sni_loop data e pos = Ok r"
proof (induction data e pos rule: sni_loop.induct)
  case (1 data e pos)
  show ?case
  proof (cases "pos + 4 \<le> min e (length data)")
    case True
    let ?elen = "unat (from_be [data ! (pos + 2), data ! (pos + 2 + 1)] :: u16)"
    have b: "be16_of data pos = Ok (unat (from_be [data ! pos, data ! (pos + 1)] :: u16))" "be16_of data (pos + 2) = Ok ?elen"
      using True by (simp_all add: be16_of_in)
    show ?thesis
    proof (cases "pos + 4 + ?elen > length data \<or> \<not> ?elen > 5")
      case True
      then show ?thesis using "1.IH" b by (auto simp: sni_loop.simps [of data e pos])
    next
      case False
      then have "be16_of data (pos + 4 + 3) = Ok (unat (from_be [data ! (pos + 4 + 3), data ! (pos + 4 + 3 + 1)] :: u16))"
        "idx data (pos + 4 + 2) = Ok (data ! (pos + 4 + 2))" by (simp_all add: be16_of_in)
      then show ?thesis using "1.IH" b False by (auto simp: sni_loop.simps [of data e pos])
    qed
  qed (auto simp: sni_loop.simps [of data e pos])
qed

lemma if_total: "(c \<Longrightarrow> \<exists>r. a = Ok r) \<Longrightarrow> (\<not> c \<Longrightarrow> \<exists>r. b = Ok r) \<Longrightarrow> \<exists>r. (if c then a else b) = Ok r"
  by simp

lemma idx_total: "i < length xs \<Longrightarrow> (\<And>x. \<exists>r. f x = Ok r) \<Longrightarrow> \<exists>r. and_then (idx xs i) f = Ok r"
  by simp

lemma be16_of_total: "i + 1 < length xs \<Longrightarrow> (\<And>x. \<exists>r. f x = Ok r) \<Longrightarrow> \<exists>r. and_then (be16_of xs i) f = Ok r"
  by (simp add: be16_of_in)

lemma tls_sni_total: "\<exists>r. tls_sni data = Ok r"
  unfolding tls_sni_def Let_def
  by (intro if_total idx_total be16_of_total sni_loop_total exI [of _ None] refl) auto

lemma analyze_peek_total: "\<exists>r. analyze_peek data cfg = Ok r"
  using tls_sni_total [of data] by (auto simp: analyze_peek_def Let_def split: option.splits)


lemma sniff_stream_spec:
  obtains (failed) k where "read = PeekFailed k" "sniff_stream cfg read s = Err (Io k)"
  | (sniffed) r where "sniff_stream cfg read s = Ok (s, r)"
proof -
  have "(\<exists>k. read = PeekFailed k \<and> sniff_stream cfg read s = Err (Io k)) \<or> (\<exists>r. sniff_stream cfg read s = Ok (s, r))"
  proof (cases read)
    case (PeekBytes n)
    obtain r where "analyze_peek (take (min n MAX_SNIFF) s) cfg = Ok r" using analyze_peek_total by blast
    then show ?thesis using PeekBytes by (auto simp: sniff_stream_def Let_def)
  qed (auto simp: sniff_stream_def Let_def)
  then show thesis using that by blast
qed

text \<open>C17: sniffing is transparent.  Whatever bytes a client sends and however the timed read ends, the
  dispatch fails only if the read fails; no byte of the stream is lost, added or moved; the port
  stays; and the destination changes only from an address to a name, only when overriding is enabled, and only to the
  name that was sniffed.\<close>

theorem sniffing_is_transparent:
  "(\<exists>k. read = PeekFailed k \<and> sniff_inbound cfg dns read d s early = Err (Io k)) \<or>
   (\<exists>d' sniff. sniff_inbound cfg dns read d s early = Ok (d', s, sniff) \<and> port d' = port d \<and>
     (d' = d \<or> \<not> is_domain d \<and> (\<exists>c r name. cfg = Some c \<and> sf_enabled c \<and> \<not> sf_route_only c \<and>
        sniff = Some r \<and> sr_domain r = Some name \<and> d' = Domain name (port d))))"
proof (cases "\<exists>c. cfg = Some c \<and> sf_enabled c")
  case True
  then obtain c where c: "cfg = Some c" "sf_enabled c" by blast
  let ?peek = "case early of
      Some payload \<Rightarrow>
        if payload \<noteq> [] \<and> \<not> sf_metadata_only c then and_then (analyze_peek payload c) (\<lambda>sniff. Ok (s, sniff))
        else sniff_stream c read s
    | None \<Rightarrow> sniff_stream c read s"
  have "(\<exists>k. read = PeekFailed k \<and> ?peek = Err (Io k)) \<or> (\<exists>r. ?peek = Ok (s, r))"
    using analyze_peek_total sniff_stream_spec [of read c s]
    by (auto split: option.split) (metis and_then.simps(1))+
  then show ?thesis
  proof (elim disjE exE conjE)
    fix r assume "?peek = Ok (s, r)"
    then show ?thesis using c
      by (auto simp: sniff_inbound_def apply_dest_override_def Let_def split: option.splits if_splits)
  qed (use c in \<open>auto simp: sniff_inbound_def\<close>)
qed (auto simp: sniff_inbound_def split: option.splits)

section \<open>The server name of a ClientHello\<close>

text \<open>A ClientHello, as RFC 8446 writes it, up to the end of its server name: the fields whose content the parser skips
  are arbitrary.\<close>

definition hello_extension :: "u16 \<times> bytes \<Rightarrow> bytes" where
  "hello_extension x = to_be 2 (fst x) @ to_be 2 (word_of_nat (length (snd x)) :: u16) @ snd x"

definition server_name :: "bytes \<Rightarrow> bytes" where
  "server_name name = to_be 2 (word_of_nat (length name + 3) :: u16) @ [0] @ to_be 2 (word_of_nat (length name) :: u16) @ name"

definition hello_head :: "bytes \<Rightarrow> bytes \<Rightarrow> bytes \<Rightarrow> bytes \<Rightarrow> bytes \<Rightarrow> bytes \<Rightarrow> bytes" where
  "hello_head record_rest message_len version_random session suites compression =
     [0x16] @ record_rest @ [0x01] @ message_len @ version_random @
     [word_of_nat (length session)] @ session @ to_be 2 (word_of_nat (length suites) :: u16) @ suites @
     [word_of_nat (length compression)] @ compression"

definition hello_upto_name :: "bytes \<Rightarrow> u16 \<Rightarrow> (u16 \<times> bytes) list \<Rightarrow> bytes \<Rightarrow> bytes" where
  "hello_upto_name front ext_len exts name =
     front @ to_be 2 ext_len @ concat (map hello_extension exts) @ hello_extension (0, server_name name)"

lemma be16_of_append:
  "be16_of (a @ to_be 2 (w :: u16) @ b) (length a) = Ok (unat w)"
proof -
  obtain x y where xy: "to_be 2 w = [x, y]" by (simp add: numeral_2_eq_2)
  have "be16_of (a @ to_be 2 w @ b) (length a) = Ok (unat (from_be [x, y] :: u16))"
    by (simp add: be16_of_in xy nth_append)
  then show ?thesis by (simp flip: xy)
qed

lemma be16_of_at: "n = length a \<Longrightarrow> be16_of (a @ to_be 2 (w :: u16) @ b) n = Ok (unat w)"
  using be16_of_append by simp

text \<open>The loop skips an extension of another type, and reads the name from a server name extension.\<close>

lemma sni_loop_other:
  assumes "pos + 4 \<le> e" "be16_of data pos = Ok t" "be16_of data (pos + 2) = Ok n" "pos + 4 + n \<le> length data" "t \<noteq> 0"
  shows "sni_loop data e pos = sni_loop data e (pos + 4 + n)"
  by (subst sni_loop.simps) (use assms in simp)

lemma sni_loop_host:
  assumes "pos + 4 \<le> e" "be16_of data pos = Ok 0" "be16_of data (pos + 2) = Ok n" "pos + 4 + n \<le> length data" "5 < n"
    and "idx data (pos + 4 + 2) = Ok 0" "be16_of data (pos + 4 + 3) = Ok k" "pos + 4 + 5 + k \<le> length data"
    and "slice data (pos + 4 + 5) (pos + 4 + 5 + k) = Ok name"
  shows "sni_loop data e pos = Ok (from_utf8 name)"
  by (subst sni_loop.simps) (use assms in simp)

lemma be16_of_length:
  "length d < 65536 \<Longrightarrow> n = length a \<Longrightarrow> be16_of (a @ to_be 2 (word_of_nat (length d) :: u16) @ b) n = Ok (length d)"
  by (simp only: be16_of_append unat_of_nat_u16)

lemma sni_loop_skip:
  assumes "t \<noteq> 0" "length d < 65536" "length a + 4 \<le> e" "data = a @ hello_extension (t, d) @ b"
  shows "sni_loop data e (length a) = sni_loop data e (length (a @ hello_extension (t, d)))"
proof -
  have "sni_loop data e (length a) = sni_loop data e (length a + 4 + length d)"
  proof (rule sni_loop_other [OF assms(3)])
    have d1: "data = a @ to_be 2 t @ to_be 2 (word_of_nat (length d) :: u16) @ d @ b"
      using assms(4) by (simp add: hello_extension_def)
    show "be16_of data (length a) = Ok (unat t)" unfolding d1 by (rule be16_of_append)
    have d2: "data = (a @ to_be 2 t) @ to_be 2 (word_of_nat (length d) :: u16) @ d @ b" using d1 by simp
    show "be16_of data (length a + 2) = Ok (length d)"
      unfolding d2 using assms(2) by (rule be16_of_length) simp
    show "length a + 4 + length d \<le> length data" by (simp add: d1)
    show "unat t \<noteq> 0" using assms(1) by (simp add: unat_eq_0)
  qed
  moreover have "length (a @ hello_extension (t, d)) = length a + 4 + length d" by (simp add: hello_extension_def)
  ultimately show ?thesis by (simp only:)
qed

lemma sni_loop_name:
  assumes "name \<noteq> []" "length name + 5 < 65536" "length a + 4 \<le> e" "data = a @ hello_extension (0, server_name name) @ b"
  shows "sni_loop data e (length a) = Ok (from_utf8 name)"
proof (rule sni_loop_host [OF assms(3), where n = "length (server_name name)" and k = "length name"])
  let ?x = "server_name name" and ?n = "word_of_nat (length name) :: u16"
  have d1: "data = a @ to_be 2 (0 :: u16) @ to_be 2 (word_of_nat (length ?x) :: u16) @ ?x @ b"
    using assms(4) by (simp add: hello_extension_def)
  show "be16_of data (length a) = Ok 0" unfolding d1 using be16_of_append [of a "0 :: u16"] by simp
  have d2: "data = (a @ to_be 2 (0 :: u16)) @ to_be 2 (word_of_nat (length ?x) :: u16) @ ?x @ b" using d1 by simp
  have lx: "length ?x = length name + 5" by (simp add: server_name_def)
  then have lx': "length ?x < 65536" using assms(2) by simp
  show "be16_of data (length a + 2) = Ok (length ?x)"
    unfolding d2 using lx' by (rule be16_of_length) simp
  let ?p = "a @ to_be 2 (0 :: u16) @ to_be 2 (word_of_nat (length ?x) :: u16) @ to_be 2 (word_of_nat (length name + 3) :: u16)"
  have d3: "data = (?p @ [0]) @ to_be 2 ?n @ name @ b"
    using d1 by (simp add: server_name_def del: length_append)
  have ln: "length (?p @ [0]) = length a + 4 + 3" by simp
  show "idx data (length a + 4 + 2) = Ok 0" unfolding d3 by (simp add: nth_append)
  have n: "length name < 65536" using assms(2) by simp
  show "be16_of data (length a + 4 + 3) = Ok (length name)"
    unfolding d3 using n by (rule be16_of_length) (simp add: ln)
  show "slice data (length a + 4 + 5) (length a + 4 + 5 + length name) = Ok name"
    unfolding d3 by (simp add: slice_def)
  show "length a + 4 + length ?x \<le> length data" by (simp add: d1)
  show "length a + 4 + 5 + length name \<le> length data" by (simp add: d1 lx)
  show "5 < length ?x" using assms(1) by (simp add: lx)
qed

lemma sni_loop_extensions:
  assumes "\<forall>x \<in> set exts. fst x \<noteq> 0 \<and> length (snd x) < 65536" "name \<noteq> []" "length name + 5 < 65536"
    and "length a + length (concat (map hello_extension exts)) + 4 \<le> e"
    and "data = a @ concat (map hello_extension exts) @ hello_extension (0, server_name name) @ b"
  shows "sni_loop data e (length a) = Ok (from_utf8 name)"
  using assms
proof (induction exts arbitrary: a)
  case Nil
  then show ?case using sni_loop_name by simp
next
  case (Cons x exts)
  obtain t d where x: "x = (t, d)" by fastforce
  have "sni_loop data e (length a) = sni_loop data e (length (a @ hello_extension (t, d)))"
    by (rule sni_loop_skip [where b = "concat (map hello_extension exts) @ hello_extension (0, server_name name) @ b"])
      (use Cons.prems x in auto)
  also have "\<dots> = Ok (from_utf8 name)" by (rule Cons.IH) (use Cons.prems x in auto)
  finally show ?case .
qed


lemma tls_sni_hello:
  assumes "length record_rest = 4" "length message_len = 3" "length version_random = 34" "length session < 256"
    and "length suites < 65536" "length compression < 256" "name \<noteq> []" "length name + 5 < 65536"
    and "\<forall>x \<in> set exts. fst x \<noteq> 0 \<and> length (snd x) < 65536" "length (concat (map hello_extension exts)) + 4 \<le> unat ext_len"
    and "data = hello_upto_name (hello_head record_rest message_len version_random session suites compression) ext_len exts name @ rest"
  shows "tls_sni data = Ok (from_utf8 name)"
proof -
  let ?head = "hello_head record_rest message_len version_random session suites compression"
  let ?exts = "concat (map hello_extension exts) @ hello_extension (0, server_name name) @ rest"
  let ?tail = "to_be 2 ext_len @ ?exts"
  let ?p1 = "[0x16] @ record_rest @ [0x01] @ message_len @ version_random"
  let ?c = "[word_of_nat (length compression)] @ compression"
  have d: "data = ?head @ ?tail" using assms(11) by (simp add: hello_upto_name_def)
  have d1: "data = ?p1 @ [word_of_nat (length session)] @ session @ to_be 2 (word_of_nat (length suites) :: u16) @ suites @ ?c @ ?tail"
    by (simp add: d hello_head_def)
  have l1: "length ?p1 = 43" using assms(1-3) by simp
  have i: "idx data 0 = Ok 0x16" "idx data 5 = Ok 0x01" "idx data 43 = Ok (word_of_nat (length session))"
    using assms(1-3) by (simp_all add: d1 nth_append)
  have d2: "data = (?p1 @ [word_of_nat (length session)] @ session) @ to_be 2 (word_of_nat (length suites) :: u16) @ suites @ ?c @ ?tail"
    using d1 by simp
  have s: "be16_of data (44 + length session) = Ok (length suites)"
    unfolding d2 using assms(5) by (rule be16_of_length) (use l1 in simp)
  have d3: "data = (?p1 @ [word_of_nat (length session)] @ session @ to_be 2 (word_of_nat (length suites) :: u16) @ suites) @ ?c @ ?tail"
    using d1 by simp
  have c: "idx data (46 + (length session + length suites)) = Ok (word_of_nat (length compression))"
    using assms(1-3) by (simp add: d3 nth_append)
  have lh: "length ?head = 47 + (length session + (length suites + length compression))"
    using assms(1-3) by (simp add: hello_head_def)
  have e: "be16_of data (47 + (length session + (length suites + length compression))) = Ok (unat ext_len)"
    unfolding d lh [symmetric] by (rule be16_of_append)
  have d4: "data = (?head @ to_be 2 ext_len) @ ?exts" using d by simp
  have "sni_loop data (length (?head @ to_be 2 ext_len) + unat ext_len) (length (?head @ to_be 2 ext_len)) = Ok (from_utf8 name)"
    by (rule sni_loop_extensions [OF assms(9,7,8) _ d4]) (use assms(10) in simp)
  moreover have "length (?head @ to_be 2 ext_len) = 49 + (length session + (length suites + length compression))" by (simp add: lh)
  ultimately have loop: "sni_loop data (49 + (length session + (length suites + length compression)) + unat ext_len)
      (49 + (length session + (length suites + length compression))) = Ok (from_utf8 name)"
    by (simp only:)
  have len: "length data = 49 + (length session + (length suites + length compression)) + length ?exts" by (simp add: d4 lh)
  have u: "unat (word_of_nat (length session) :: u8) = length session" "unat (word_of_nat (length compression) :: u8) = length compression"
    using assms(4,6) by simp_all
  show ?thesis
    unfolding tls_sni_def Let_def
    using loop by (simp add: i s c e u len del: idx_in)
qed

lemma analyze_peek_hello:
  assumes "''tls'' \<in> set (sf_dest_override cfg)" "tls_sni data = Ok (from_utf8 name)" "from_utf8 name = Some domain"
  shows "analyze_peek data cfg = Ok \<lparr>sr_protocol = Some ''tls'', sr_domain = Some domain\<rparr>"
  using assms by (simp add: analyze_peek_def)

text \<open>C40: a connection to an address is dialled by the name its TLS handshake asks for.  With TLS sniffing enabled for
  dialling, whenever the first read covers a ClientHello up to the end of its server name,
  whatever its random, session, ciphers, other extensions and the bytes after the name, the
  dispatch goes on with that name and the old port, and with the whole stream.\<close>

theorem sniffed_server_name_is_dialled:
  assumes "sf_enabled cfg" "\<not> sf_metadata_only cfg" "\<not> sf_route_only cfg" "''tls'' \<in> set (sf_dest_override cfg)"
    and "length record_rest = 4" "length message_len = 3" "length version_random = 34" "length session < 256"
    and "length suites < 65536" "length compression < 256" "name \<noteq> []" "length name + 5 < 65536"
    and "\<forall>x \<in> set exts. fst x \<noteq> 0 \<and> length (snd x) < 65536" "length (concat (map hello_extension exts)) + 4 \<le> unat ext_len"
    and "hello = hello_upto_name (hello_head record_rest message_len version_random session suites compression) ext_len exts name"
    and "length hello \<le> n" "length hello \<le> MAX_SNIFF" "from_utf8 name = Some domain" "\<not> is_domain d"
  shows "sniff_inbound (Some cfg) dns (PeekBytes n) d (hello @ rest) None =
    Ok (Domain domain (port d), hello @ rest, Some \<lparr>sr_protocol = Some ''tls'', sr_domain = Some domain\<rparr>)"
proof -
  let ?n = "min n MAX_SNIFF"
  have peek: "take ?n (hello @ rest) = hello @ take (?n - length hello) rest" using assms(16,17) by simp
  have a: "analyze_peek (take ?n (hello @ rest)) cfg = Ok \<lparr>sr_protocol = Some ''tls'', sr_domain = Some domain\<rparr>"
    unfolding peek by (rule analyze_peek_hello [OF assms(4) tls_sni_hello [OF assms(5-14)] assms(18)]) (simp add: assms(15))
  have "hello \<noteq> []" using assms(15) by (simp add: hello_upto_name_def hello_head_def)
  then have ne: "take ?n (hello @ rest) \<noteq> []" unfolding peek by simp
  have "sniff_stream cfg (PeekBytes n) (hello @ rest) =
      Ok (take ?n (hello @ rest) @ drop ?n (hello @ rest), \<lparr>sr_protocol = Some ''tls'', sr_domain = Some domain\<rparr>)"
    using assms(1,2) a ne by (simp only: sniff_stream_def Let_def peek_event.case and_then.simps simp_thms if_False)
  then have "sniff_stream cfg (PeekBytes n) (hello @ rest) = Ok (hello @ rest, \<lparr>sr_protocol = Some ''tls'', sr_domain = Some domain\<rparr>)"
    by (simp only: append_take_drop_id)
  then show ?thesis using assms(1,3,4,19) by (auto simp: sniff_inbound_def apply_dest_override_def)
qed

theorem sniffed_server_name_is_dialled_witness:
  "\<exists>random. length random = 34 \<and>
     sniff_inbound (Some \<lparr>sf_enabled = True, sf_dest_override = [''tls''], sf_metadata_only = False, sf_route_only = False\<rparr>)
       (None :: (unit, unit) fakeip_pool option option) (PeekBytes 1000) (Ipv4 0x01020304 443)
       (hello_upto_name (hello_head [3, 1, 0, 90] [0, 0, 86] random [7] [19, 1] [0]) 26 [(43, [2, 3, 4])] [97, 46, 98] @ [1, 2]) None =
     Ok (Domain ''a.b'' 443,
       hello_upto_name (hello_head [3, 1, 0, 90] [0, 0, 86] random [7] [19, 1] [0]) 26 [(43, [2, 3, 4])] [97, 46, 98] @ [1, 2],
       Some \<lparr>sr_protocol = Some ''tls'', sr_domain = Some ''a.b''\<rparr>)"
proof -
  obtain random :: bytes where r: "length random = 34" using Ex_list_of_length by blast
  let ?hello = "hello_upto_name (hello_head [3, 1, 0, 90] [0, 0, 86] random [7] [19, 1] [0]) 26 [(43, [2, 3, 4])] [97, 46, 98]"
  have len: "length ?hello = 72"
    by (simp add: hello_upto_name_def hello_head_def hello_extension_def server_name_def r)
  have u: "from_utf8 [97, 46, 98] = Some ''a.b''" by code_simp
  show ?thesis
    by (intro exI [of _ random] conjI r sniffed_server_name_is_dialled [OF _ _ _ _ _ _ r _ _ _ _ _ _ _ refl _ _ u,
          where d = "Ipv4 0x01020304 443", simplified])
      (simp_all add: len MAX_SNIFF_def hello_extension_def)
qed

text \<open>An address in brackets in a Host header is cut at its first colon, and the rest is taken for a name.\<close>

lemma bracketed_host_cut:
  "http_host (as_bytes (''GET / HTTP/1.1'' @ [CHR 0x0D, CHR 0x0A] @ ''Host: [::1]:80'' @ [CHR 0x0D, CHR 0x0A, CHR 0x0D, CHR 0x0A])) = Some ''[''"
  by code_simp

end
