(* ===== verification/Spec2Isabelle.thy ===== *)
theory Spec2Isabelle
  imports User_Limits Trojan Mux Router Fakeip Packet_Up ConnMgr Tun_Runtime Socks Ss2022_Udp Http_Connect Sniff
begin

text \<open>
  A verification of the data plane of Blackwire, a proxy runtime in Rust.  Paths are below src/crates.

  \<^bold>\<open>The program and its parts.\<close>  An inbound accepts a connection, authenticates it, and reads a
  destination: SOCKS5, HTTP CONNECT, Trojan, VLESS (with Mux.Cool inside) and Shadowsocks 2022, over TCP or
  over the packet-up mode of SplitHTTP.  A TUN device is a further source: its runtime turns IP packets into
  SOCKS5 connections to the local inbound and into UDP associations.  The dispatcher sniffs the first bytes, restores
  FakeIP addresses, asks the router for an outbound, and relays; a limiter and a registry account for
  the connection.

  \<^bold>\<open>Theories.\<close>
  \<^item> \<open>BW_Prelude\<close>: bytes, words, results, readers, string functions; \<open>Rust_Text\<close>: further text and address parsers
    of the standard library.
  \<^item> \<open>Addresses\<close>: blackwire-common address.rs and socks5_address.rs.
  \<^item> \<open>User_Limits\<close>: blackwire-app user_limits.rs, sequentially and as interleaved atomic steps.
  \<^item> \<open>Trojan\<close>, \<open>Vless\<close>, \<open>Mux\<close>, \<open>Socks\<close>, \<open>Http_Connect\<close>: the inbounds of blackwire-protocol (trojan, vless, socks.rs,
    socks5_udp.rs, http_connect.rs) up to the dispatcher, with their codecs and UDP relays.
  \<^item> \<open>Aead\<close>, \<open>Ss2022_Stream\<close>, \<open>Ss2022\<close>, \<open>Ss2022_Udp\<close>: blackwire-common aead.rs and the directory ss2022 of
    blackwire-protocol: the encrypted stream, handshake and replay filter, and the UDP relay.
  \<^item> \<open>Ip_Match\<close>, \<open>Domain_Match\<close>, \<open>Router\<close>: the rules, the live router with its cache and hot swap, and the domain
    strategies of the dispatcher (blackwire-app router.rs, geo, dispatcher.rs).
  \<^item> \<open>Lru\<close>, \<open>Dns\<close>, \<open>Fakeip\<close>, \<open>Sniff\<close>: the DNS cache and module, the FakeIP pool, and traffic sniffing (blackwire-app dns.rs,
    dns, sniff.rs).
  \<^item> \<open>ConnMgr\<close>: the connection registry of blackwire-connmgr.
  \<^item> \<open>Packet_Up\<close>: splithttp_packet_up.rs and the accept path of splithttp.rs in blackwire-transport.
  \<^item> \<open>Tun_Packet\<close>, \<open>Tun_Flows\<close>, \<open>Tun_Runtime\<close>: the directory tun of blackwire-transport: packets, the three flow tables and
    the TCP bridge, the packet loop and its write batch.

  \<^bold>\<open>How code corresponds to definitions.\<close>  A struct is a record, an enum a datatype, a function a definition with the
  name of the source where it is free.  A handler is one definition from its first read to the point where it gives the
  connection away; its errors, early returns and panics are branches (\<open>'a res\<close>).  Integers are words where they can wrap and
  natural numbers where they cannot.  A \<^verbatim>\<open>HashMap\<close> is a map, or an association list where its size or its
  iteration order is used.  Objects behind an \<^verbatim>\<open>Arc\<close> that a claim depends on live in a store and are named by an index.  Clock
  readings, random values and the outcomes of system calls are arguments.  Concurrent code (limiter, router
  swap, packet-up reader, TUN loop) is also given as a step relation.

  \<^bold>\<open>Third-party code\<close> is an argument, with its documented behaviour as the assumptions of a locale that is interpreted on a
  concrete instance: \<open>lru_laws\<close> (crate lru), \<open>ipnet_laws\<close> (ipnet), \<open>engine_laws\<close> (aho-corasick, regex), \<open>aead_laws\<close>,
  \<open>ss_crypto_laws\<close> and \<open>ss_udp_laws\<close> (aws-lc-rs, RustCrypto, blake3).  Nothing is assumed about forged ciphertexts, so no claim is
  one of secrecy or authenticity.  Contracts inside the program are locales as well: \<open>wire_codec\<close> (address
  codecs), \<open>router_contract\<close> (a decision cache), \<open>lru_flow_table\<close> (three TUN tables), \<open>dns_lru_laws\<close> and \<open>fakeip_setting\<close>.

  \<^bold>\<open>What is shown.\<close>
  \<^item> Admission: who is served by Trojan, VLESS, SOCKS5, HTTP CONNECT and Shadowsocks 2022, with which destination and which bytes;
    the exact cap of the limiter for sequential callers.
  \<^item> Routing: the decision is that of the first applicable rule; cache and swap are transparent; no decision mixes rule sets.
  \<^item> Streams: in-order delivery of packet-up uploads, of the TCP bridge, of the TUN batch and of the encrypted stream, whatever the
    pauses and partial reads and writes; independence of the Trojan relay from how its input is cut; transparency of sniffing.
  \<^item> Parsers: no access out of range in the packet parser and the ClientHello parser; round trips of the codecs.
  \<^item> Names: freshness of DNS answers, restoration of FakeIP destinations, dialling by the sniffed name.
  \<^item> Accounting: the registry holds exactly the live connections.
  \<^item> Defects, each with an execution: two permits under a cap of one, a header that makes the VLESS parser run forever, a
    leaked mux task, stale routes after a swap, a blocked or panicking packet-up reader, duplicated and lost data in
    the TCP bridge, a packet loop that waits for itself, misattributed SOCKS5 replies, bytes lost on shutdown of
    an encrypted stream, a window for replayed requests, and UDP sessions that go deaf.

  \<^bold>\<open>Bounds and fuel.\<close>  No model has fuel.  Loops are structural or carry a termination proof; the VLESS addon parser may run forever and is a
  \<open>partial_function\<close> whose value is then \<open>None\<close>.  Bounds in hypotheses are those of the code: 16-bit length
  fields, the header limit of HTTP CONNECT, the peek limit of sniffing, the session limit of the UDP relay, fewer than
  2^64 connections.

  \<^bold>\<open>Not modelled.\<close>  VMess, REALITY, ShadowTLS and the TLS fingerprints: nearly every step is a cryptographic call or a random layout.
  Hysteria2, TUIC and QUIC: built on quinn, whose connection state decides what they do; only their frame codecs
  are self-contained.  Balancer and health checks: choices by
  floating-point averages.  Outbound dialling, byte-copying relays, splice and zero-copy: system calls.  Configuration, store, instance
  building, reload, command line, web panel, TUN devices and routes: input and output.  Metrics and traffic
  counters: nothing depends on them.  Handshake timeouts, which only drop a connection.
\<close>

section \<open>From a CONNECT request to the sniffed name\<close>

text \<open>C15: an HTTP CONNECT tunnel to an IP address is dialled by the name of the TLS handshake the
  client sends with the request.  The CONNECT handler passes what its reader has already fetched on as early
  payload; if that covers a ClientHello up to the end of its server name and TLS sniffing is on,
  the dispatch goes on with the name and the port of the request, and the early payload and the
  stream together are still exactly what the client sent after the header block.\<close>

theorem connect_tunnel_dialled_by_server_name:
  assumes "host_ok d" "\<not> is_domain d" "req = connect_line d @ [CHR 0x0D, CHR 0x0A] @ headers"
    and "rust_string req" "header_block (as_bytes req)" "length req \<le> MAX_HEADER_BYTES"
    and "sf_enabled cfg" "\<not> sf_metadata_only cfg" "\<not> sf_route_only cfg" "''tls'' \<in> set (sf_dest_override cfg)"
    and "length record_rest = 4" "length message_len = 3" "length version_random = 34" "length session < 256"
    and "length suites < 65536" "length compression < 256" "name \<noteq> []" "length name + 5 < 65536"
    and "\<forall>x \<in> set exts. fst x \<noteq> 0 \<and> length (snd x) < 65536" "length (concat (map hello_extension exts)) + 4 \<le> unat ext_len"
    and "hello = hello_upto_name (hello_head record_rest message_len version_random session suites compression) ext_len exts name"
    and "length hello \<le> buffered" "from_utf8 name = Some domain"
  shows "\<exists>inner payload. handle_http_connect buffered True (as_bytes req @ hello @ rest) =
      Ok ((d, inner, Some payload), CONNECT_RESPONSE) \<and>
    sniff_inbound (Some cfg) dns read d inner (Some payload) =
      Ok (Domain domain (port d), inner, Some \<lparr>sr_protocol = Some ''tls'', sr_domain = Some domain\<rparr>) \<and>
    payload @ inner = hello @ rest"
proof -
  let ?payload = "take buffered (hello @ rest)" and ?inner = "drop buffered (hello @ rest)"
  have payload: "?payload = hello @ take (buffered - length hello) rest" using assms(22) by simp
  have ne: "?payload \<noteq> []" unfolding payload using assms(21) by (simp add: hello_upto_name_def hello_head_def)
  have h: "handle_http_connect buffered True (as_bytes req @ hello @ rest) = Ok ((d, ?inner, Some ?payload), CONNECT_RESPONSE)"
    using handle_connect_request [OF assms(1,3-6), of buffered "hello @ rest"] ne by (simp only: if_False)
  have "analyze_peek ?payload cfg = Ok \<lparr>sr_protocol = Some ''tls'', sr_domain = Some domain\<rparr>"
    unfolding payload by (rule analyze_peek_hello [OF assms(10) tls_sni_hello [OF assms(11-20)] assms(23)]) (simp add: assms(21))
  then have "sniff_inbound (Some cfg) dns read d ?inner (Some ?payload) =
      Ok (Domain domain (port d), ?inner, Some \<lparr>sr_protocol = Some ''tls'', sr_domain = Some domain\<rparr>)"
    using assms(2,7-10) ne by (auto simp: sniff_inbound_def apply_dest_override_def simp del: take_append drop_append)
  then show ?thesis using h append_take_drop_id [of buffered "hello @ rest"] by blast
qed

theorem connect_tunnel_dialled_by_server_name_witness:
  "\<exists>random inner payload. length random = 34 \<and>
     handle_http_connect 100 True (as_bytes (connect_line (Ipv4 0x01020304 443) @ [CHR 0x0D, CHR 0x0A] @ [CHR 0x0D, CHR 0x0A]) @
       hello_upto_name (hello_head [3, 1, 0, 90] [0, 0, 86] random [7] [19, 1] [0]) 26 [(43, [2, 3, 4])] [97, 46, 98] @ [1, 2]) =
       Ok ((Ipv4 0x01020304 443, inner, Some payload), CONNECT_RESPONSE) \<and>
     sniff_inbound (Some \<lparr>sf_enabled = True, sf_dest_override = [''tls''], sf_metadata_only = False, sf_route_only = False\<rparr>)
       (None :: (unit, unit) fakeip_pool option option) PeekTimeout (Ipv4 0x01020304 443) inner (Some payload) =
       Ok (Domain ''a.b'' 443, inner, Some \<lparr>sr_protocol = Some ''tls'', sr_domain = Some ''a.b''\<rparr>)"
proof -
  obtain random :: bytes where r: "length random = 34" using Ex_list_of_length by blast
  let ?d = "Ipv4 0x01020304 443" and ?c = "\<lparr>sf_enabled = True, sf_dest_override = [''tls''], sf_metadata_only = False, sf_route_only = False\<rparr>"
  let ?req = "connect_line ?d @ [CHR 0x0D, CHR 0x0A] @ [CHR 0x0D, CHR 0x0A]"
  let ?hello = "hello_upto_name (hello_head [3, 1, 0, 90] [0, 0, 86] random [7] [19, 1] [0]) 26 [(43, [2, 3, 4])] [97, 46, 98]"
  have len: "length ?hello = 72"
    by (simp add: hello_upto_name_def hello_head_def hello_extension_def server_name_def r)
  have u: "from_utf8 [97, 46, 98] = Some ''a.b''" by code_simp
  have q: "rust_string ?req" "length ?req \<le> MAX_HEADER_BYTES" by code_simp+
  have b: "header_block (as_bytes ?req)" by (rule header_block_line) code_simp
  have "\<exists>inner payload. handle_http_connect 100 True (as_bytes ?req @ ?hello @ [1, 2]) = Ok ((?d, inner, Some payload), CONNECT_RESPONSE) \<and>
    sniff_inbound (Some ?c) (None :: (unit, unit) fakeip_pool option option) PeekTimeout ?d inner (Some payload) =
      Ok (Domain ''a.b'' (port ?d), inner, Some \<lparr>sr_protocol = Some ''tls'', sr_domain = Some ''a.b''\<rparr>) \<and>
    payload @ inner = ?hello @ [1, 2]"
    by (rule connect_tunnel_dialled_by_server_name [OF _ _ refl q(1) b q(2) _ _ _ _ _ _ r _ _ _ _ _ _ _ refl _ u])
      (simp_all add: len hello_extension_def)
  then show ?thesis using r by auto
qed

end
